(* ===== verification/Prelude.thy ===== *)
theory Prelude
  imports Complex_Main "HOL-Library.AList" "HOL-Library.List_Lexorder"
    "HOL-Library.Char_ord" "HOL-Library.Product_Lexorder"
begin

text \<open>
  What every component of the engine shares: the idealised numbers, the errors of the Python code
  as values of a sum type, Python's insertion-ordered dictionaries, its slices, its \<open>max\<close> and
  \<open>min\<close> with a key, its rounding, and the generic lemmas about them.

  A Python \<open>float\<close> is a \<open>real\<close>: rounding errors of the hardware are not modelled, while
  every rounding the source performs itself (\<open>round(x, 3)\<close>) is.  A \<open>dict\<close> is an
  association list in insertion order, read by \<open>map_of\<close> and written by \<open>AList.update\<close>,
  which replaces the value of a present key in place and appends a new key at the end, as CPython
  does.  Strings are compared by code point, which is the lexicographic order of
  \<open>List_Lexorder\<close> over \<open>Char_ord\<close>.
\<close>

named_theorems res_simps
named_theorems dict_simps

type_synonym flt = real
type_synonym pod = string
type_synonym 'v pdict = "(string \<times> 'v) list"
type_synonym signal_vec = "real list"

subsection \<open>Exceptions as values\<close>

text \<open>
  \<open>Diverges\<close> is not an exception of Python: it is the result of a loop that does not return.
\<close>

datatype py_error = IndexError | ValueError | KeyError | TypeError | StopIteration | Diverges

type_synonym 'a res = "py_error + 'a"

fun rbind :: "'a res \<Rightarrow> ('a \<Rightarrow> 'b res) \<Rightarrow> 'b res" where
  "rbind (Inl e) f = Inl e"
| "rbind (Inr x) f = f x"

fun rtrav :: "('a \<Rightarrow> 'b res) \<Rightarrow> 'a list \<Rightarrow> 'b list res" where
  "rtrav f [] = Inr []"
| "rtrav f (x # xs) = rbind (f x) (\<lambda>y. rbind (rtrav f xs) (\<lambda>ys. Inr (y # ys)))"

fun res_of_option :: "py_error \<Rightarrow> 'a option \<Rightarrow> 'a res" where
  "res_of_option e None = Inl e"
| "res_of_option e (Some x) = Inr x"

lemma rbind_eq_Inr [res_simps]: "rbind m f = Inr y \<longleftrightarrow> (\<exists>x. m = Inr x \<and> f x = Inr y)"
  by (cases m) auto

lemma rbind_assoc: "rbind (rbind m f) g = rbind m (\<lambda>x. rbind (f x) g)"
  by (cases m) auto

lemma rtrav_Inr [res_simps]: "(\<And>x. x \<in> set xs \<Longrightarrow> f x = Inr (g x)) \<Longrightarrow> rtrav f xs = Inr (map g xs)"
  by (induction xs) auto

lemma rtrav_elem: "rtrav f xs = Inr ys \<Longrightarrow> y \<in> set ys \<Longrightarrow> \<exists>x \<in> set xs. f x = Inr y"
  by (induction xs arbitrary: ys) (auto simp: res_simps)

lemma rtrav_image: "rtrav f xs = Inr ys \<Longrightarrow> x \<in> set xs \<Longrightarrow> \<exists>y \<in> set ys. f x = Inr y"
  by (induction xs arbitrary: ys) (auto simp: res_simps)

lemma rtrav_map:
  "rtrav f xs = Inr ys \<Longrightarrow> (\<And>x y. x \<in> set xs \<Longrightarrow> f x = Inr y \<Longrightarrow> g y = h x) \<Longrightarrow> map g ys = map h xs"
  by (induction xs arbitrary: ys) (auto simp: res_simps)

lemma rtrav_total: "(\<And>x. x \<in> set xs \<Longrightarrow> \<exists>y. f x = Inr y) \<Longrightarrow> \<exists>ys. rtrav f xs = Inr ys"
proof (induction xs)
  case (Cons x xs)
  then obtain y ys where "f x = Inr y" "rtrav f xs = Inr ys" by fastforce
  then show ?case by simp
qed simp

subsection \<open>Dictionaries\<close>

definition dget :: "'v pdict \<Rightarrow> string \<Rightarrow> 'v \<Rightarrow> 'v" where
  "dget d k v = (case map_of d k of None \<Rightarrow> v | Some w \<Rightarrow> w)"

lemma map_of_upd [dict_simps]: "map_of (AList.update k v d) = (map_of d)(k \<mapsto> v)"
  by (rule update_conv')

lemma fst_set_upd [dict_simps]: "fst ` set (AList.update k v d) = insert k (fst ` set d)"
  by (simp add: dom_update)

lemma distinct_upd [dict_simps]: "distinct (map fst d) \<Longrightarrow> distinct (map fst (AList.update k v d))"
  by (rule distinct_update)

lemma dget_upd: "dget (AList.update k v d) k' w = (if k = k' then v else dget d k' w)"
  by (simp add: dget_def dict_simps)

lemma upd_in_setD: "(k', v') \<in> set (AList.update k v d) \<Longrightarrow> (k', v') = (k, v) \<or> (k', v') \<in> set d"
  by (induction d) (auto split: if_splits)

lemma upd_not_mem: "k \<notin> fst ` set d \<Longrightarrow> AList.update k v d = d @ [(k, v)]"
  by (induction d) auto

lemma map_fst_upd:
  "map fst (AList.update k v d) = (if k \<in> fst ` set d then map fst d else map fst d @ [k])"
  by (induction d) auto

lemma distinct_map_of_iff: "distinct (map fst d) \<Longrightarrow> map_of d k = Some v \<longleftrightarrow> (k, v) \<in> set d"
  by simp

subsection \<open>Slices, maxima and minima with a key\<close>

text \<open>\<open>xs[-n:]\<close> for \<open>n \<ge> 0\<close>; since \<open>-0\<close> is \<open>0\<close>, \<open>xs[-0:]\<close> is the whole list.\<close>

definition py_tail :: "nat \<Rightarrow> 'a list \<Rightarrow> 'a list" where
  "py_tail n xs = (if n = 0 then xs else drop (length xs - n) xs)"

text \<open>\<open>xs[lo:lo + w]\<close>, and \<open>xs[:-n]\<close> for \<open>n > 0\<close>.\<close>

definition py_slice :: "nat \<Rightarrow> nat \<Rightarrow> 'a list \<Rightarrow> 'a list" where
  "py_slice lo w xs = take w (drop lo xs)"

definition py_drop_last :: "nat \<Rightarrow> 'a list \<Rightarrow> 'a list" where
  "py_drop_last n xs = take (length xs - n) xs"

lemma length_py_tail: "length (py_tail n xs) = (if n = 0 then length xs else min n (length xs))"
  by (auto simp: py_tail_def)

lemma py_tail_Nil_iff [simp]: "py_tail n xs = [] \<longleftrightarrow> xs = []"
proof
  assume e: "py_tail n xs = []"
  show "xs = []"
  proof (rule ccontr)
    assume "xs \<noteq> []"
    then have "0 < length (py_tail n xs)" by (simp add: length_py_tail)
    with e show False by simp
  qed
qed (simp add: py_tail_def)

lemma py_tail_self [simp]: "py_tail (length xs) xs = xs"
  by (simp add: py_tail_def)

lemma length_py_slice: "length (py_slice lo w xs) = min w (length xs - lo)"
  by (simp add: py_slice_def)

lemma length_py_drop_last: "length (py_drop_last n xs) = length xs - n"
  by (simp add: py_drop_last_def)

text \<open>\<open>max(x # xs, key=f)\<close> keeps the first of the largest, \<open>min\<close> the first of the smallest.\<close>

fun py_max_by :: "('a \<Rightarrow> 'b::linorder) \<Rightarrow> 'a \<Rightarrow> 'a list \<Rightarrow> 'a" where
  "py_max_by f b [] = b"
| "py_max_by f b (x # xs) = py_max_by f (if f b < f x then x else b) xs"

fun py_min_by :: "('a \<Rightarrow> 'b::linorder) \<Rightarrow> 'a \<Rightarrow> 'a list \<Rightarrow> 'a" where
  "py_min_by f b [] = b"
| "py_min_by f b (x # xs) = py_min_by f (if f x < f b then x else b) xs"

definition py_max_default :: "('a \<Rightarrow> 'b::linorder) \<Rightarrow> 'a \<Rightarrow> 'a list \<Rightarrow> 'a" where
  "py_max_default f d xs = (case xs of [] \<Rightarrow> d | x # ys \<Rightarrow> py_max_by f x ys)"

lemma py_max_by_in: "py_max_by f b xs \<in> insert b (set xs)"
  by (induction f b xs rule: py_max_by.induct) auto

lemma py_max_by_ge_base: "f b \<le> f (py_max_by f b xs)"
  by (induction f b xs rule: py_max_by.induct) (auto split: if_splits)

lemma py_max_by_ge: "x \<in> set xs \<Longrightarrow> f x \<le> f (py_max_by f b xs)"
proof (induction f b xs rule: py_max_by.induct)
  case (2 f b y ys)
  have "f y \<le> f (if f b < f y then y else b)" by (simp add: not_less)
  also have "\<dots> \<le> f (py_max_by f b (y # ys))" by (simp add: py_max_by_ge_base)
  finally show ?case using 2 by auto
qed simp

lemma py_max_by_first:
  "\<exists>pre post. b # xs = pre @ py_max_by f b xs # post \<and> (\<forall>y \<in> set pre. f y < f (py_max_by f b xs))"
proof (induction f b xs rule: py_max_by.induct)
  case (1 f b)
  show ?case by (intro exI[of _ "[]"]) simp
next
  case (2 f b x xs)
  let ?b = "if f b < f x then x else b"
  define m where "m = py_max_by f b (x # xs)"
  have m: "py_max_by f ?b xs = m" by (simp add: m_def)
  obtain pre post where p: "?b # xs = pre @ m # post" "\<forall>y \<in> set pre. f y < f m" using 2 unfolding m by auto
  have ge: "f x \<le> f m" "f b \<le> f m" using py_max_by_ge_base[of f ?b xs] unfolding m by (auto split: if_splits)
  have "\<exists>pre post. b # x # xs = pre @ m # post \<and> (\<forall>y \<in> set pre. f y < f m)"
  proof (cases "f b < f x")
    case True
    then have "b # x # xs = (b # pre) @ m # post" using p(1) by simp
    moreover have "\<forall>y \<in> set (b # pre). f y < f m" using True ge(1) p(2) by auto
    ultimately show ?thesis by blast
  next
    case False
    show ?thesis
    proof (cases pre)
      case Nil
      then have "b # x # xs = [] @ m # x # xs" using p(1) False by simp
      then show ?thesis by (intro exI[of _ "[]"] exI[of _ "x # xs"]) simp
    next
      case (Cons c pre')
      then have "b # x # xs = (b # x # pre') @ m # post" "f b < f m" using p False by auto
      moreover from this(2) have "\<forall>y \<in> set (b # x # pre'). f y < f m" using p(2) Cons False by auto
      ultimately show ?thesis by blast
    qed
  qed
  then show ?case by (simp only: m_def)
qed

lemma py_min_by_in: "py_min_by f b xs \<in> insert b (set xs)"
  by (induction f b xs rule: py_min_by.induct) auto

lemma py_min_by_le_base: "f (py_min_by f b xs) \<le> f b"
  by (induction f b xs rule: py_min_by.induct) (auto split: if_splits)

lemma py_min_by_le: "x \<in> set xs \<Longrightarrow> f (py_min_by f b xs) \<le> f x"
proof (induction f b xs rule: py_min_by.induct)
  case (2 f b y ys)
  have "f (py_min_by f b (y # ys)) \<le> f (if f y < f b then y else b)"
    by (simp add: py_min_by_le_base)
  also have "\<dots> \<le> f y" by (simp add: not_less)
  finally show ?case using 2 by auto
qed simp

lemma py_max_default_in: "xs \<noteq> [] \<Longrightarrow> py_max_default f d xs \<in> set xs"
  using py_max_by_in by (cases xs) (force simp: py_max_default_def)+

lemma py_max_default_ge: "x \<in> set xs \<Longrightarrow> f x \<le> f (py_max_default f d xs)"
  by (cases xs) (auto simp: py_max_default_def py_max_by_ge_base py_max_by_ge)

subsection \<open>Python's rounding\<close>

text \<open>\<open>round(x)\<close>: to the nearest integer, ties to the even one; \<open>round(x, 3)\<close> likewise at the
  third decimal.\<close>

definition py_round :: "real \<Rightarrow> int" where
  "py_round x = (let f = \<lfloor>x\<rfloor>; d = x - of_int f in
     if d < 1/2 then f else if d > 1/2 then f + 1 else if even f then f else f + 1)"

definition round3 :: "real \<Rightarrow> real" where
  "round3 x = of_int (py_round (x * 1000)) / 1000"

lemma py_round_of_int [simp]: "py_round (of_int n) = n"
  by (simp add: py_round_def)

lemma py_round_near: "\<bar>of_int (py_round x) - x\<bar> \<le> 1/2"
proof -
  have "of_int \<lfloor>x\<rfloor> \<le> x" "x < of_int \<lfloor>x\<rfloor> + 1" by linarith+
  then show ?thesis by (auto simp: py_round_def Let_def abs_le_iff)
qed

lemma py_round_mono: "x \<le> y \<Longrightarrow> py_round x \<le> py_round y"
proof (rule ccontr)
  assume le: "x \<le> y" and "\<not> py_round x \<le> py_round y"
  then have "py_round y + 1 \<le> py_round x" by linarith
  then have "of_int (py_round y) + 1 \<le> (of_int (py_round x) :: real)"
    by (metis of_int_1 of_int_add of_int_le_iff)
  with py_round_near[of x] py_round_near[of y] le have "x = y" by (simp add: abs_le_iff)
  then show False using \<open>\<not> py_round x \<le> py_round y\<close> by simp
qed

lemma round3_mono: "x \<le> y \<Longrightarrow> round3 x \<le> round3 y"
  by (simp add: round3_def py_round_mono divide_right_mono)

lemma round3_milli: "round3 (of_int n / 1000) = of_int n / 1000"
  by (simp add: round3_def)

lemma round3_near: "\<bar>round3 x - x\<bar> \<le> 1/2000"
  using py_round_near[of "x * 1000"] by (simp add: round3_def abs_le_iff field_simps)

lemma round3_0 [simp]: "round3 0 = 0"
  using round3_milli[of 0] by simp

lemma round3_1 [simp]: "round3 1 = 1"
  using round3_milli[of 1000] by simp

lemma round3_ge_milli: "of_int n / 1000 \<le> x \<Longrightarrow> of_int n / 1000 \<le> round3 x"
  using round3_mono[of "of_int n / 1000" x] by (simp add: round3_milli)

lemma round3_le_milli: "x \<le> of_int n / 1000 \<Longrightarrow> round3 x \<le> of_int n / 1000"
  using round3_mono[of x "of_int n / 1000"] by (simp add: round3_milli)

lemma round3_nonneg: "0 \<le> x \<Longrightarrow> 0 \<le> round3 x"
  using round3_ge_milli[of 0 x] by simp

lemma round3_le_1: "x \<le> 1 \<Longrightarrow> round3 x \<le> 1"
  using round3_le_milli[of x 1000] by simp

subsection \<open>Comparisons with NaN, sorted lists\<close>

text \<open>A float that may be NaN is an \<open>option\<close>, \<open>None\<close> for NaN: every comparison with NaN is false.\<close>

definition nan_less :: "real option \<Rightarrow> real \<Rightarrow> bool" where
  "nan_less x c = (case x of None \<Rightarrow> False | Some v \<Rightarrow> v < c)"

definition nan_greater :: "real option \<Rightarrow> real \<Rightarrow> bool" where
  "nan_greater x c = (case x of None \<Rightarrow> False | Some v \<Rightarrow> v > c)"

lemma sorted_sort_key_map: "sorted (map f (sort_key f xs))"
  by simp

lemma sort_key_perm: "set (sort_key f xs) = set xs" "length (sort_key f xs) = length xs"
  by simp_all

lemma distinct_sort_key_fst: "distinct (map g (sort_key f xs)) = distinct (map g xs)"
  by (metis distinct_map distinct_sort set_sort)

subsection \<open>Floats with infinity as sort keys\<close>

text \<open>\<open>float("inf")\<close> occurs only as a default sort key.\<close>

datatype xfloat = Fin real | PInf

instantiation xfloat :: linorder
begin

fun less_eq_xfloat :: "xfloat \<Rightarrow> xfloat \<Rightarrow> bool" where
  "less_eq_xfloat (Fin x) (Fin y) = (x \<le> y)"
| "less_eq_xfloat (Fin x) PInf = True"
| "less_eq_xfloat PInf (Fin y) = False"
| "less_eq_xfloat PInf PInf = True"

definition less_xfloat :: "xfloat \<Rightarrow> xfloat \<Rightarrow> bool" where
  "less_xfloat x y = (x \<le> y \<and> \<not> y \<le> x)"

instance
proof
  fix x y z :: xfloat
  show "x < y \<longleftrightarrow> x \<le> y \<and> \<not> y \<le> x" by (rule less_xfloat_def)
  show "x \<le> x" by (cases x) auto
  show "x \<le> y \<Longrightarrow> y \<le> z \<Longrightarrow> x \<le> z" by (cases x; cases y; cases z) auto
  show "x \<le> y \<Longrightarrow> y \<le> x \<Longrightarrow> x = y" by (cases x; cases y) auto
  show "x \<le> y \<or> y \<le> x" by (cases x; cases y) auto
qed

end

end
