(* ===== verification/Names.thy ===== *)
theory Names
  imports Prelude
begin

text \<open>
  Pod names and workload names: \<open>stable_workload\<close> of \<open>correlation/engine/state.py\<close> and its copy
  \<open>workload\<close> in \<open>correlation/service.py\<close>, over Python's \<open>str.split\<close> and \<open>str.join\<close> with a
  one-character separator.
\<close>

fun split_on :: "char \<Rightarrow> string \<Rightarrow> string list" where
  "split_on c [] = [[]]"
| "split_on c (x # xs) = (if x = c then [] # split_on c xs
     else case split_on c xs of [] \<Rightarrow> [[x]] | p # ps \<Rightarrow> (x # p) # ps)"

fun join_with :: "char \<Rightarrow> string list \<Rightarrow> string" where
  "join_with c [] = []"
| "join_with c [p] = p"
| "join_with c (p # q # ps) = p @ c # join_with c (q # ps)"

definition dash :: char where
  "dash = CHR ''-''"

definition stable_workload :: "pod \<Rightarrow> string" where
  "stable_workload pod = (let parts = split_on dash pod in
     if length parts > 2 then join_with dash (py_drop_last 2 parts) else pod)"

lemma split_on_nonempty [simp]: "split_on c xs \<noteq> []"
  by (induction xs) (auto split: list.splits)

lemma split_join: "join_with c (split_on c xs) = xs"
proof (induction xs)
  case (Cons x xs)
  obtain p ps where p: "split_on c xs = p # ps" by (cases "split_on c xs") auto
  with Cons show ?case by (cases ps) auto
qed simp

lemma split_on_no_sep: "c \<notin> set xs \<Longrightarrow> split_on c xs = [xs]"
  by (induction xs) auto

lemma split_on_sep: "split_on c (xs @ c # ys) = split_on c xs @ split_on c ys"
proof (induction xs)
  case (Cons x xs)
  obtain p ps where "split_on c xs = p # ps" by (cases "split_on c xs") auto
  with Cons show ?case by simp
qed simp

lemma stable_workload_hashed:
  assumes "dash \<notin> set h1" "dash \<notin> set h2"
  shows "stable_workload (wl @ dash # h1 @ dash # h2) = wl"
proof -
  have s: "split_on dash (wl @ dash # h1 @ dash # h2) = split_on dash wl @ [h1, h2]"
    using assms by (simp add: split_on_sep split_on_no_sep)
  have "0 < length (split_on dash wl)" by simp
  then show ?thesis by (simp add: stable_workload_def s py_drop_last_def split_join del: length_greater_0_conv)
qed

lemma stable_workload_short: "length (filter (\<lambda>c. c = dash) p) < 2 \<Longrightarrow> stable_workload p = p"
proof -
  have "length (split_on c xs) = Suc (length (filter (\<lambda>x. x = c) xs))" for c xs
    by (induction xs) (auto split: list.splits)
  then show "length (filter (\<lambda>c. c = dash) p) < 2 \<Longrightarrow> stable_workload p = p"
    by (simp add: stable_workload_def Let_def)
qed

text \<open>
  A restart does not change the identity of a workload: whatever the ReplicaSet hash and the pod
  suffix are (neither contains a dash), the pod names generated for a workload map back to exactly
  its name, so different workloads are never confused and one workload is never split.
\<close>

theorem stable_workload_restart:
  assumes "dash \<notin> set h1" and "dash \<notin> set h2" and "dash \<notin> set k1" and "dash \<notin> set k2"
  shows "stable_workload (wl @ dash # h1 @ dash # h2) = wl \<and>
    (stable_workload (wl @ dash # h1 @ dash # h2) = stable_workload (wl' @ dash # k1 @ dash # k2) \<longleftrightarrow> wl = wl')"
  using assms by (simp add: stable_workload_hashed)

theorem stable_workload_restart_witness:
  "stable_workload ''cooling-monitor-59584cbf7d-6szhd'' = ''cooling-monitor''"
  using stable_workload_restart[of "''59584cbf7d''" "''6szhd''" "''59584cbf7d''" "''6szhd''" "''cooling-monitor''" "''a''"]
  by (simp add: dash_def)

end
