(* ===== verification/Text.thy ===== *)
theory Text
  imports Prelude
begin

text \<open>
  Text that several components share: decimal numbers as Python's \<open>str\<close> and \<open>int\<close> and Go's \<open>fmt\<close> write and
  read them, and \<open>str.join\<close>.
\<close>

definition newline :: char where
  "newline = CHR 0x0A"

definition digit :: "nat \<Rightarrow> char" where
  "digit n = ''0123456789'' ! n"

definition is_digit :: "char \<Rightarrow> bool" where
  "is_digit c = (let n = (of_char c :: nat) in 48 \<le> n \<and> n \<le> 57)"

fun show_nat :: "nat \<Rightarrow> string" where
  "show_nat n = (if n < 10 then [digit n] else show_nat (n div 10) @ [digit (n mod 10)])"

declare show_nat.simps [simp del]

definition show_int :: "int \<Rightarrow> string" where
  "show_int i = (if i < 0 then CHR ''-'' # show_nat (nat (- i)) else show_nat (nat i))"

definition num :: "string \<Rightarrow> nat" where
  "num s = foldl (\<lambda>a c. 10 * a + (of_char c - 48)) 0 s"

fun join_str :: "string \<Rightarrow> string list \<Rightarrow> string" where
  "join_str sep [] = []"
| "join_str sep [p] = p"
| "join_str sep (p # q # ps) = p @ sep @ join_str sep (q # ps)"

lemma digit_simps: "digit 0 = CHR ''0''" "digit 1 = CHR ''1''" "digit 2 = CHR ''2''" "digit 3 = CHR ''3''" "digit 4 = CHR ''4''"
  "digit 5 = CHR ''5''" "digit 6 = CHR ''6''" "digit 7 = CHR ''7''" "digit 8 = CHR ''8''" "digit 9 = CHR ''9''"
  by (simp_all add: digit_def)

lemma of_digit: "n < 10 \<Longrightarrow> of_char (digit n) = 48 + n"
proof -
  assume "n < 10"
  then have "n = 0 \<or> n = 1 \<or> n = 2 \<or> n = 3 \<or> n = 4 \<or> n = 5 \<or> n = 6 \<or> n = 7 \<or> n = 8 \<or> n = 9" by arith
  then show ?thesis by (elim disjE) (simp_all only: digit_simps, simp_all)
qed

lemma is_digit_digit [simp]: "n < 10 \<Longrightarrow> is_digit (digit n)"
  by (simp add: is_digit_def of_digit)

lemma num_snoc: "num (s @ [c]) = 10 * num s + (of_char c - 48)"
  by (simp add: num_def)

lemma num_show_nat [simp]: "num (show_nat n) = n"
proof (induction n rule: show_nat.induct)
  case (1 n)
  show ?case
  proof (cases "n < 10")
    case True
    then show ?thesis by (simp add: show_nat.simps[of n] num_def of_digit)
  next
    case False
    then show ?thesis using 1 by (simp add: show_nat.simps[of n] num_snoc of_digit)
  qed
qed

lemma show_nat_digits [simp]: "list_all is_digit (show_nat n)"
proof (induction n rule: show_nat.induct)
  case (1 n)
  then show ?case by (cases "n < 10") (simp_all add: show_nat.simps[of n])
qed

lemma show_nat_nonempty [simp]: "show_nat n \<noteq> []"
  by (subst show_nat.simps) simp

text \<open>No leading zero.\<close>

lemma show_nat_head: "0 < n \<Longrightarrow> hd (show_nat n) \<noteq> CHR ''0''"
proof (induction n rule: show_nat.induct)
  case (1 n)
  show ?case
  proof (cases "n < 10")
    case True
    then have "(of_char (digit n) :: nat) \<noteq> of_char (CHR ''0'')" using 1(2) by (simp add: of_digit)
    then have "digit n \<noteq> CHR ''0''" by metis
    then show ?thesis using True by (simp add: show_nat.simps[of n])
  next
    case False
    then show ?thesis using 1 by (simp add: show_nat.simps[of n])
  qed
qed

end
