(* ===== verification/Pack.thy ===== *)
theory Pack
  imports Names Text "HOL-Library.Signed_Division"
begin

text \<open>
  The query pack of the aggregator: \<open>loadPack\<close>, its string helpers and \<open>thresholdFor\<close> of
  \<open>aggregator/main.go\<close>.  A Go string is the list of its bytes; white space is the ASCII one.  The
  argument \<open>pf\<close> is \<open>strconv.ParseFloat\<close>, \<open>None\<close> when it reports an error.  An \<open>int\<close> has 64 bits.
\<close>

datatype go_float = Finite real | Infinite bool | NotANumber

subsection \<open>Strings\<close>

definition go_space :: "char \<Rightarrow> bool" where
  "go_space c = (let n = (of_char c :: nat) in n \<in> {9, 10, 11, 12, 13, 32})"

definition trim_space :: "string \<Rightarrow> string" where
  "trim_space s = rev (dropWhile go_space (rev (dropWhile go_space s)))"

definition trim_right :: "char \<Rightarrow> string \<Rightarrow> string" where
  "trim_right c s = rev (dropWhile (\<lambda>x. x = c) (rev s))"

definition has_prefix :: "string \<Rightarrow> string \<Rightarrow> bool" where
  "has_prefix s p = (take (length p) s = p)"

fun str_index :: "string \<Rightarrow> string \<Rightarrow> nat option" where
  "str_index s p = (if has_prefix s p then Some 0
     else case s of [] \<Rightarrow> None | _ # t \<Rightarrow> map_option Suc (str_index t p))"

declare str_index.simps [simp del]

definition split_kv :: "string \<Rightarrow> (string \<times> string) option" where
  "split_kv s = (case str_index s '':'' of None \<Rightarrow> None
     | Some i \<Rightarrow> Some (trim_space (take i s), trim_space (drop (i + 1) s)))"

definition val_of :: "string \<Rightarrow> string" where
  "val_of s = (case split_kv s of None \<Rightarrow> [] | Some (k, v) \<Rightarrow> v)"

subsection \<open>Numbers\<close>

definition wrap64 :: "int \<Rightarrow> int" where
  "wrap64 i = (i + 2 ^ 63) mod 2 ^ 64 - 2 ^ 63"

definition digits_val :: "string \<Rightarrow> int" where
  "digits_val s = foldl (\<lambda>a c. 10 * a + (of_char c - 48)) 0 s"

definition atoi :: "string \<Rightarrow> int option" where
  "atoi s =
     (let neg = has_prefix s ''-''; ds = (if has_prefix s ''-'' \<or> has_prefix s ''+'' then drop 1 s else s);
          n = (if neg then - digits_val ds else digits_val ds)
      in if ds = [] \<or> \<not> list_all is_digit ds then None
         else if n < - (2 ^ 63) \<or> 2 ^ 63 \<le> n then None else Some n)"

definition atoi_default :: "string \<Rightarrow> int \<Rightarrow> int" where
  "atoi_default s d = (case atoi (trim_space s) of None \<Rightarrow> d | Some n \<Rightarrow> n)"

subsection \<open>The pack\<close>

record pack =
  pk_interval_s :: int
  pk_window_min :: int
  pk_queries :: "string pdict"
  pk_order :: "string list"
  pk_thresholds :: "go_float pdict"

text \<open>The tokens of \<open>bufio.ScanLines\<close>: a carriage return before the line feed is dropped.\<close>

definition scan_lines :: "string \<Rightarrow> string list" where
  "scan_lines txt = map (\<lambda>l. if l \<noteq> [] \<and> last l = CHR 0x0D then butlast l else l) (split_on newline txt)"

definition MAX_LINE :: nat where
  "MAX_LINE = 1024 * 1024"

definition strip_comment :: "string \<Rightarrow> string" where
  "strip_comment t = (case str_index t '' #'' of None \<Rightarrow> t | Some i \<Rightarrow> trim_space (take i t))"

definition empty_pack :: pack where
  "empty_pack = \<lparr>pk_interval_s = 5, pk_window_min = 15, pk_queries = [], pk_order = [], pk_thresholds = []\<rparr>"

definition top_line :: "string \<Rightarrow> string \<times> pack \<Rightarrow> string \<times> pack" where
  "top_line t st = (let p = snd st in
     if has_prefix t ''queries:'' then (''queries'', p)
     else if has_prefix t ''thresholds:'' then (''thresholds'', p)
     else if has_prefix t ''interval_s:'' then (fst st, p\<lparr>pk_interval_s := atoi_default (val_of t) 5\<rparr>)
     else if has_prefix t ''window_min:'' then (fst st, p\<lparr>pk_window_min := atoi_default (val_of t) 15\<rparr>)
     else ([], p))"

definition entry_line :: "(string \<Rightarrow> go_float option) \<Rightarrow> string \<Rightarrow> string \<times> pack \<Rightarrow> string \<times> pack" where
  "entry_line pf t st = (case split_kv t of None \<Rightarrow> st | Some (k, v) \<Rightarrow>
     let p = snd st in
     if fst st = ''queries'' then
       (fst st, p\<lparr>pk_queries := AList.update k v (pk_queries p), pk_order := pk_order p @ [k]\<rparr>)
     else if fst st = ''thresholds'' then
       (case pf (trim_space v) of None \<Rightarrow> st
        | Some fv \<Rightarrow> (fst st, p\<lparr>pk_thresholds := AList.update k fv (pk_thresholds p)\<rparr>))
     else st)"

definition pack_line :: "(string \<Rightarrow> go_float option) \<Rightarrow> string \<Rightarrow> string \<times> pack \<Rightarrow> string \<times> pack" where
  "pack_line pf text0 st =
     (let line = trim_right (CHR '' '') text0 in
      if trim_space line = [] \<or> has_prefix (trim_space line) ''#'' then st
      else let indented = has_prefix line '' ''; t = strip_comment (trim_space line)
           in if \<not> indented then top_line t st else entry_line pf t st)"

text \<open>\<open>None\<close> when the file cannot be opened, or has a line that does not fit the buffer.\<close>

definition load_pack :: "(string \<Rightarrow> go_float option) \<Rightarrow> string option \<Rightarrow> pack option" where
  "load_pack pf file = (case file of None \<Rightarrow> None
     | Some txt \<Rightarrow> if list_ex (\<lambda>l. length l \<ge> MAX_LINE) (split_on newline txt) then None
         else Some (snd (fold (pack_line pf) (scan_lines txt) ([], empty_pack))))"

definition threshold_for :: "string \<Rightarrow> pack \<Rightarrow> go_float option" where
  "threshold_for sg p =
     (if sg = ''pvc_capacity'' then map_of (pk_thresholds p) ''pvc_capacity''
      else if sg \<in> {''psi_cpu'', ''psi_mem'', ''psi_io''} then map_of (pk_thresholds p) ''psi_some_avg''
      else if sg = ''latency_p95'' then map_of (pk_thresholds p) ''latency_p95_s''
      else None)"

text \<open>The capacity of the ring, in \<open>main\<close>: 64-bit product, quotient truncated towards zero.\<close>

definition ring_cap :: "pack \<Rightarrow> int" where
  "ring_cap p = (let i = (if pk_interval_s p \<le> 0 then 5 else pk_interval_s p)
     in wrap64 (pk_window_min p * 60) sdiv i)"

lemma wrap64_id: "- (2 ^ 63) \<le> i \<Longrightarrow> i < 2 ^ 63 \<Longrightarrow> wrap64 i = i"
  by (simp add: wrap64_def)

text \<open>
  The capacity: for a window of at least 0 and at most \<open>2^57\<close> minutes there is no overflow, the ring
  holds exactly the samples that fit the window, and it is never negative.
\<close>

lemma ring_cap_exact:
  assumes "0 \<le> pk_window_min p" "pk_window_min p \<le> 2 ^ 57"
  shows "0 \<le> ring_cap p" "0 < pk_interval_s p \<Longrightarrow> ring_cap p = (pk_window_min p * 60) div pk_interval_s p"
proof -
  have w: "wrap64 (pk_window_min p * 60) = pk_window_min p * 60" by (rule wrap64_id) (use assms in simp_all)
  show "0 \<le> ring_cap p" using assms by (auto simp: ring_cap_def Let_def w signed_divide_int_def sgn_if pos_imp_zdiv_nonneg_iff)
  show "0 < pk_interval_s p \<Longrightarrow> ring_cap p = (pk_window_min p * 60) div pk_interval_s p"
    using assms by (auto simp: ring_cap_def Let_def w signed_divide_int_def sgn_if)
qed

subsection \<open>Printing a pack\<close>

definition plain :: "string \<Rightarrow> bool" where
  "plain s \<longleftrightarrow> s \<noteq> [] \<and> \<not> go_space (hd s) \<and> \<not> go_space (last s) \<and> newline \<notin> set s \<and> CHR ''#'' \<notin> set s"

definition plain_key :: "string \<Rightarrow> bool" where
  "plain_key k \<longleftrightarrow> plain k \<and> CHR '':'' \<notin> set k"

definition entry_text :: "string \<times> string \<Rightarrow> string" where
  "entry_text kv = ''  '' @ fst kv @ '': '' @ snd kv"

definition pack_lines :: "string \<Rightarrow> string \<Rightarrow> (string \<times> string) list \<Rightarrow> (string \<times> string) list \<Rightarrow> string list" where
  "pack_lines ti tw qs ts = [''interval_s: '' @ ti, ''window_min: '' @ tw, ''queries:''] @ map entry_text qs @
     [''thresholds:''] @ map entry_text ts"

lemma trim_space_plain: "plain s \<Longrightarrow> trim_space s = s"
  by (cases s) (auto simp: plain_def trim_space_def hd_rev dropWhile_eq_self_iff simp flip: hd_rev)

lemma has_prefix_Cons: "has_prefix (x # s) (y # p) \<longleftrightarrow> x = y \<and> has_prefix s p"
  by (auto simp: has_prefix_def)

lemma has_prefix_simps [simp]: "has_prefix s []" "\<not> has_prefix [] (y # p)"
  by (simp_all add: has_prefix_def)

lemma str_index_None: "y \<in> set p \<Longrightarrow> y \<notin> set s \<Longrightarrow> str_index s p = None"
proof (induction s)
  case Nil
  then show ?case by (subst str_index.simps) (auto simp: has_prefix_def)
next
  case (Cons x s)
  have "\<not> has_prefix (x # s) p"
    using Cons.prems set_take_subset[of "length p" "x # s"] by (auto simp: has_prefix_def simp del: take_Cons')
  then show ?case using Cons by (subst str_index.simps) simp
qed

lemma str_index_colon: "CHR '':'' \<notin> set k \<Longrightarrow> str_index (k @ CHR '':'' # r) '':'' = Some (length k)"
proof (induction k)
  case Nil
  then show ?case by (subst str_index.simps) (simp add: has_prefix_Cons)
next
  case (Cons x k)
  then show ?case by (subst str_index.simps) (auto simp: has_prefix_Cons)
qed

lemma trim_space_blank [simp]: "trim_space (CHR '' '' # s) = trim_space s"
  by (simp add: trim_space_def go_space_def)

lemma plain_lineI:
  assumes "plain k" "plain v"
  shows "plain (k @ CHR '':'' # CHR '' '' # v)"
  using assms by (auto simp: plain_def newline_def)

lemma split_kv_entry:
  assumes "plain_key k" "plain v"
  shows "split_kv (k @ CHR '':'' # CHR '' '' # v) = Some (k, v)"
proof -
  have "CHR '':'' \<notin> set k" "plain k" using assms by (simp_all add: plain_key_def)
  then show ?thesis using assms(2) by (simp add: split_kv_def str_index_colon trim_space_plain)
qed

lemma strip_comment_plain: "plain t \<Longrightarrow> strip_comment t = t"
proof -
  assume "plain t"
  then have "str_index t '' #'' = None" by (intro str_index_None[of "CHR ''#''"]) (simp_all add: plain_def)
  then show ?thesis by (simp add: strip_comment_def)
qed

lemma trim_right_plain: "plain s \<Longrightarrow> trim_right (CHR '' '') (p @ s) = p @ s"
proof -
  assume "plain s"
  then have "s \<noteq> []" "last s \<noteq> CHR '' ''" by (auto simp: plain_def go_space_def)
  then have "rev (p @ s) \<noteq> []" "hd (rev (p @ s)) \<noteq> CHR '' ''" by (simp_all add: hd_append hd_rev)
  then have "dropWhile (\<lambda>x. x = CHR '' '') (rev (p @ s)) = rev (p @ s)" by (auto simp: dropWhile_eq_self_iff)
  then show ?thesis unfolding trim_right_def by simp
qed

lemma plain_hash: "plain t \<Longrightarrow> \<not> has_prefix t ''#''"
  by (cases t) (auto simp: plain_def has_prefix_Cons)

lemma pack_line_top:
  assumes "plain t" "hd t \<noteq> CHR '' ''"
  shows "pack_line pf t st = top_line t st"
proof -
  have n: "t \<noteq> []" using assms by (auto simp: plain_def)
  moreover have "\<not> has_prefix t '' ''" using assms(2) n by (cases t) (auto simp: has_prefix_Cons)
  ultimately show ?thesis using assms(1) trim_right_plain[OF assms(1), of "[]"]
    by (simp add: pack_line_def Let_def trim_space_plain strip_comment_plain plain_hash)
qed

lemma entry_line_plain:
  assumes "plain_key k" "plain v"
  shows "entry_line pf (k @ CHR '':'' # CHR '' '' # v) (sec, p) =
     (if sec = ''queries'' then (sec, p\<lparr>pk_queries := AList.update k v (pk_queries p), pk_order := pk_order p @ [k]\<rparr>)
     else if sec = ''thresholds'' then (case pf v of None \<Rightarrow> (sec, p)
        | Some fv \<Rightarrow> (sec, p\<lparr>pk_thresholds := AList.update k fv (pk_thresholds p)\<rparr>))
     else (sec, p))"
  unfolding entry_line_def split_kv_entry[OF assms] option.case prod.case Let_def trim_space_plain[OF assms(2)] fst_conv snd_conv ..

lemma pack_line_entry:
  assumes "plain_key k" "plain v"
  shows "pack_line pf (entry_text (k, v)) st = entry_line pf (k @ CHR '':'' # CHR '' '' # v) st"
proof -
  let ?t = "k @ CHR '':'' # CHR '' '' # v"
  have k: "plain k" using assms(1) by (simp add: plain_key_def)
  have t: "plain ?t" by (rule plain_lineI[OF k assms(2)])
  have e: "entry_text (k, v) = CHR '' '' # CHR '' '' # ?t" by (simp add: entry_text_def)
  have r: "trim_right (CHR '' '') (entry_text (k, v)) = entry_text (k, v)" using trim_right_plain[OF t, of "''  ''"] by (simp add: e)
  show ?thesis
    unfolding pack_line_def r Let_def unfolding e trim_space_blank trim_space_plain[OF t] strip_comment_plain[OF t]
    by (simp add: plain_hash[OF t] has_prefix_Cons del: append_Cons)
qed

lemma fold_query_lines:
  assumes "list_all (\<lambda>kv. plain_key (fst kv) \<and> plain (snd kv)) qs" "distinct (map fst (pk_queries p @ qs))"
  shows "fold (pack_line pf) (map entry_text qs) (''queries'', p) =
    (''queries'', p\<lparr>pk_queries := pk_queries p @ qs, pk_order := pk_order p @ map fst qs\<rparr>)"
  using assms
proof (induction qs arbitrary: p)
  case (Cons kv qs)
  obtain k v where kv: "kv = (k, v)" by (cases kv)
  have "fst kv \<notin> fst ` set (pk_queries p)" using Cons.prems(2) by auto
  then have "AList.update (fst kv) (snd kv) (pk_queries p) = pk_queries p @ [kv]" by (simp add: upd_not_mem)
  then show ?case using Cons.prems by (simp add: kv pack_line_entry entry_line_plain Cons.IH)
qed simp

lemma fold_threshold_lines:
  assumes "list_all (\<lambda>kv. plain_key (fst kv) \<and> plain (snd kv) \<and> pf (snd kv) \<noteq> None) ts"
    "distinct (map fst (pk_thresholds p) @ map fst ts)"
  shows "fold (pack_line pf) (map entry_text ts) (''thresholds'', p) =
    (''thresholds'', p\<lparr>pk_thresholds := pk_thresholds p @ map (\<lambda>kv. (fst kv, the (pf (snd kv)))) ts\<rparr>)"
  using assms
proof (induction ts arbitrary: p)
  case (Cons kv ts)
  obtain k v where kv: "kv = (k, v)" by (cases kv)
  obtain fv where fv: "pf (snd kv) = Some fv" using Cons.prems(1) by auto
  have "fst kv \<notin> fst ` set (pk_thresholds p)" using Cons.prems(2) by auto
  then have "AList.update (fst kv) fv (pk_thresholds p) = pk_thresholds p @ [(fst kv, fv)]" by (simp add: upd_not_mem)
  then show ?case using Cons.prems by (simp add: kv pack_line_entry entry_line_plain Cons.IH fv[unfolded kv snd_conv])
qed simp

lemma split_on_join:
  "ls \<noteq> [] \<Longrightarrow> list_all (\<lambda>l. c \<notin> set l) ls \<Longrightarrow> split_on c (join_with c ls) = ls"
proof (induction c ls rule: join_with.induct)
  case (3 c p q ps)
  then show ?case by (simp add: split_on_sep split_on_no_sep)
qed (simp_all add: split_on_no_sep)

lemma atoi_default_plain: "plain t \<Longrightarrow> atoi t = Some i \<Longrightarrow> atoi_default t d = i"
  by (simp add: atoi_default_def trim_space_plain)

lemma val_of_entry: "plain_key k \<Longrightarrow> plain v \<Longrightarrow> val_of (k @ CHR '':'' # CHR '' '' # v) = v"
  by (simp add: val_of_def split_kv_entry)

lemma fold_head_lines:
  assumes "plain ti" "plain tw" "atoi ti = Some i" "atoi tw = Some w"
  shows "fold (pack_line pf) [''interval_s: '' @ ti, ''window_min: '' @ tw, ''queries:''] ([], empty_pack) =
    (''queries'', empty_pack\<lparr>pk_interval_s := i, pk_window_min := w\<rparr>)"
proof -
  have k: "plain_key ''interval_s''" "plain_key ''window_min''" "plain ''queries:''"
    by (simp_all add: plain_key_def plain_def go_space_def newline_def)
  have t: "plain (''interval_s'' @ CHR '':'' # CHR '' '' # ti)" "plain (''window_min'' @ CHR '':'' # CHR '' '' # tw)"
    by (rule plain_lineI; use k assms(1,2) in \<open>simp add: plain_key_def\<close>)+
  have 1: "pack_line pf (''interval_s: '' @ ti) ([], empty_pack) = ([], empty_pack\<lparr>pk_interval_s := i\<rparr>)"
    using pack_line_top[OF t(1)] val_of_entry[OF k(1) assms(1)] atoi_default_plain[OF assms(1,3)]
    by (simp add: top_line_def has_prefix_Cons)
  have 2: "pack_line pf (''window_min: '' @ tw) ([], p) = ([], p\<lparr>pk_window_min := w\<rparr>)" for p
    using pack_line_top[OF t(2)] val_of_entry[OF k(2) assms(2)] atoi_default_plain[OF assms(2,4)]
    by (simp add: top_line_def has_prefix_Cons)
  have 3: "pack_line pf ''queries:'' st = (''queries'', snd st)" for st
    using pack_line_top[OF k(3)] by (simp add: top_line_def has_prefix_Cons)
  show ?thesis by (simp only: fold.simps comp_def id_def 1 2 3) simp
qed

lemma thresholds_line: "pack_line pf ''thresholds:'' st = (''thresholds'', snd st)"
proof -
  have "plain ''thresholds:''" by (simp add: plain_def go_space_def newline_def)
  then show ?thesis by (simp add: pack_line_top top_line_def has_prefix_Cons)
qed

lemma entry_text_plain: "plain (snd kv) \<Longrightarrow> plain_key (fst kv) \<Longrightarrow> newline \<notin> set (entry_text kv) \<and> last (entry_text kv) \<noteq> CHR 0x0D"
  by (auto simp: entry_text_def plain_def plain_key_def newline_def go_space_def)

lemma scan_plain:
  "ls \<noteq> [] \<Longrightarrow> list_all (\<lambda>l. newline \<notin> set l \<and> last l \<noteq> CHR 0x0D) ls \<Longrightarrow> scan_lines (join_with newline ls) = ls"
proof -
  assume ls: "ls \<noteq> []" "list_all (\<lambda>l. newline \<notin> set l \<and> last l \<noteq> CHR 0x0D) ls"
  then have "split_on newline (join_with newline ls) = ls" by (intro split_on_join) (auto simp: list_all_iff)
  then show ?thesis using ls(2) by (simp add: scan_lines_def list_all_iff cong: map_cong)
qed

text \<open>
  C39. Loading a printed pack gives it back: for distinct signals and rules whose words have no colon,
  comment or line break and whose numbers are read by the parsers, the file with the two numbers, the
  queries and the thresholds loads as exactly that pack, with the queries in the order of the file.
\<close>

theorem load_pack_print:
  assumes "plain ti" and "plain tw" and "atoi ti = Some i" and "atoi tw = Some w"
    and "list_all (\<lambda>kv. plain_key (fst kv) \<and> plain (snd kv)) qs" and "distinct (map fst qs)"
    and "list_all (\<lambda>kv. plain_key (fst kv) \<and> plain (snd kv) \<and> pf (snd kv) \<noteq> None) ts" and "distinct (map fst ts)"
    and "list_all (\<lambda>l. length l < MAX_LINE) (pack_lines ti tw qs ts)"
  shows "load_pack pf (Some (join_with newline (pack_lines ti tw qs ts))) = Some
    \<lparr>pk_interval_s = i, pk_window_min = w, pk_queries = qs, pk_order = map fst qs,
     pk_thresholds = map (\<lambda>kv. (fst kv, the (pf (snd kv)))) ts\<rparr>"
proof -
  let ?ls = "pack_lines ti tw qs ts"
  have ok: "list_all (\<lambda>l. newline \<notin> set l \<and> last l \<noteq> CHR 0x0D) ?ls"
    using assms(1,2,5,7) entry_text_plain
    by (auto simp: pack_lines_def list_all_iff plain_def newline_def go_space_def)
  have ne: "?ls \<noteq> []" by (simp add: pack_lines_def)
  have sp: "split_on newline (join_with newline ?ls) = ?ls"
    by (rule split_on_join[OF ne]) (use ok in \<open>auto simp: list_all_iff\<close>)
  have "fold (pack_line pf) ?ls ([], empty_pack) =
    fold (pack_line pf) (map entry_text ts) (pack_line pf ''thresholds:'' (fold (pack_line pf) (map entry_text qs)
      (fold (pack_line pf) [''interval_s: '' @ ti, ''window_min: '' @ tw, ''queries:''] ([], empty_pack))))"
    by (simp add: pack_lines_def)
  also have "\<dots> = (''thresholds'', \<lparr>pk_interval_s = i, pk_window_min = w, pk_queries = qs, pk_order = map fst qs,
     pk_thresholds = map (\<lambda>kv. (fst kv, the (pf (snd kv)))) ts\<rparr>)"
    unfolding fold_head_lines[OF assms(1-4)] using assms(5-8)
    by (simp add: fold_query_lines fold_threshold_lines thresholds_line empty_pack_def)
  finally have f: "fold (pack_line pf) ?ls ([], empty_pack) = (''thresholds'',
     \<lparr>pk_interval_s = i, pk_window_min = w, pk_queries = qs, pk_order = map fst qs,
      pk_thresholds = map (\<lambda>kv. (fst kv, the (pf (snd kv)))) ts\<rparr>)" .
  have "\<not> list_ex (\<lambda>l. length l \<ge> MAX_LINE) ?ls" using assms(9) by (auto simp: list_all_iff list_ex_iff not_le)
  then show ?thesis by (simp add: load_pack_def sp scan_plain[OF ne ok] f)
qed

definition two_tenths :: "string \<Rightarrow> go_float option" where
  "two_tenths t = (if t = ''0.20'' then Some (Finite (2/10)) else None)"

theorem load_pack_print_witness:
  "load_pack two_tenths (Some (join_with newline
     [''interval_s: 5'', ''window_min: 15'', ''queries:'', ''  psi_io: rate(x[30s])'', ''thresholds:'', ''  psi_some_avg: 0.20''])) =
   Some \<lparr>pk_interval_s = 5, pk_window_min = 15, pk_queries = [(''psi_io'', ''rate(x[30s])'')], pk_order = [''psi_io''],
     pk_thresholds = [(''psi_some_avg'', Finite (2/10))]\<rparr>"
proof -
  let ?qs = "[(''psi_io'', ''rate(x[30s])'')]" and ?ts = "[(''psi_some_avg'', ''0.20'')]"
  have n: "plain ''5''" "plain ''15''" by (simp_all add: plain_def go_space_def newline_def)
  have a: "atoi ''5'' = Some 5" "atoi ''15'' = Some 15" by code_simp+
  have q: "list_all (\<lambda>kv. plain_key (fst kv) \<and> plain (snd kv)) ?qs" "distinct (map fst ?qs)"
    by (simp_all add: plain_key_def plain_def go_space_def newline_def)
  have t: "list_all (\<lambda>kv. plain_key (fst kv) \<and> plain (snd kv) \<and> two_tenths (snd kv) \<noteq> None) ?ts" "distinct (map fst ?ts)"
    by (simp_all add: plain_key_def plain_def go_space_def newline_def two_tenths_def)
  have l: "list_all (\<lambda>l. length l < MAX_LINE) (pack_lines ''5'' ''15'' ?qs ?ts)"
    by (simp add: pack_lines_def entry_text_def MAX_LINE_def)
  have e: "pack_lines ''5'' ''15'' ?qs ?ts =
      [''interval_s: 5'', ''window_min: 15'', ''queries:'', ''  psi_io: rate(x[30s])'', ''thresholds:'', ''  psi_some_avg: 0.20'']"
    by (simp add: pack_lines_def entry_text_def)
  have r: "the (two_tenths ''0.20'') = Finite (2/10)" by (simp add: two_tenths_def)
  show ?thesis by (rule load_pack_print[OF n a q t l, unfolded e, simplified list.map fst_conv snd_conv r])
qed

end
