(* ===== verification/Machine.thy ===== *)
theory Machine
  imports Prelude
begin

text \<open>
  State machines, once for all components that keep state over many events: the runs of a transition
  relation labelled with events, and the locale of an invariant that every transition preserves.  The
  edge memory, the case library, the narrative cache and the workloads interpret it.
\<close>

inductive run :: "('s \<Rightarrow> 'e \<Rightarrow> 's \<Rightarrow> bool) \<Rightarrow> 's \<Rightarrow> 'e list \<Rightarrow> 's \<Rightarrow> bool" for step where
  run_refl [simp, intro]: "run step s [] s"
| run_step: "step s e s' \<Longrightarrow> run step s' es s'' \<Longrightarrow> run step s (e # es) s''"

inductive_cases run_NilE [elim!]: "run step s [] s'"
inductive_cases run_ConsE [elim!]: "run step s (e # es) s'"

inductive_simps run_Nil_iff [simp]: "run step s [] s'"
inductive_simps run_Cons_iff: "run step s (e # es) s'"

lemma run_append: "run step s es s' \<Longrightarrow> run step s' fs s'' \<Longrightarrow> run step s (es @ fs) s''"
  by (induction rule: run.induct) (auto intro: run_step)

lemma run_snocE:
  assumes "run step s (es @ [e]) s''"
  obtains s' where "run step s es s'" "step s' e s''"
  using assms
proof (induction es arbitrary: s)
  case (Cons x es)
  then show ?case by (metis append_Cons run_ConsE run_step)
qed auto

locale invariant_machine =
  fixes step :: "'s \<Rightarrow> 'e \<Rightarrow> 's \<Rightarrow> bool" and inv :: "'s \<Rightarrow> bool" and ok :: "'e \<Rightarrow> bool"
  assumes step_inv: "inv s \<Longrightarrow> ok e \<Longrightarrow> step s e s' \<Longrightarrow> inv s'"
begin

lemma run_inv: "run step s es s' \<Longrightarrow> inv s \<Longrightarrow> (\<And>e. e \<in> set es \<Longrightarrow> ok e) \<Longrightarrow> inv s'"
  by (induction rule: run.induct) (auto intro: step_inv)

end

text \<open>A relation between the start and the end of a run: reflexive, transitive, kept by every step.\<close>

locale monotone_machine = invariant_machine step inv ok
  for step :: "'s \<Rightarrow> 'e \<Rightarrow> 's \<Rightarrow> bool" and inv :: "'s \<Rightarrow> bool" and ok :: "'e \<Rightarrow> bool" +
  fixes rel :: "'s \<Rightarrow> 's \<Rightarrow> bool"
  assumes rel_refl: "rel s s"
    and rel_trans: "rel s s' \<Longrightarrow> rel s' s'' \<Longrightarrow> rel s s''"
    and step_rel: "inv s \<Longrightarrow> ok e \<Longrightarrow> step s e s' \<Longrightarrow> rel s s'"
begin

lemma run_rel: "run step s es s' \<Longrightarrow> inv s \<Longrightarrow> (\<And>e. e \<in> set es \<Longrightarrow> ok e) \<Longrightarrow> rel s s'"
proof (induction rule: run.induct)
  case (run_refl s)
  show ?case by (rule rel_refl)
next
  case (run_step s e s' es s'')
  then have "inv s'" "rel s s'" by (auto intro: step_inv step_rel)
  with run_step show ?case by (meson list.set_intros(2) rel_trans)
qed

end

end
