(* ===== verification/Numlib.thy ===== *)
theory Numlib
  imports Prelude "HOL-Library.Multiset"
begin

text \<open>
  The statistics the engine takes from numpy and scipy.  Neither library is part of the
  repository, so the model receives them as one argument, a record of functions, and relies only
  on the documented facts that the locale \<open>stats_api\<close> names: the median and the percentiles lie
  between the bounds of the sample, the median and a straight-line fit follow a shift of the sample,
  the standard deviation of a non-empty sample is a non-negative number and of a constant one zero, and the two correlation
  coefficients of samples of one length are defined and, unless NaN, lie in \<open>[-1, 1]\<close>.
  \<open>ref_lib\<close> computes these statistics by their textbook formulas; it shows that the facts can
  hold together, and the concrete examples of the development run on it.

  A result that numpy or scipy may report as NaN has type \<open>real option\<close>; one that may raise is a
  value of the sum type.
\<close>

record numlib =
  np_median :: "real list \<Rightarrow> real"
  np_percentile :: "real list \<Rightarrow> real \<Rightarrow> real"
  np_mean :: "real list \<Rightarrow> real"
  np_std :: "real list \<Rightarrow> real option"
  np_polyfit1 :: "real list \<Rightarrow> real list \<Rightarrow> (real \<times> real) res"
  np_corrcoef01 :: "real list \<Rightarrow> real list \<Rightarrow> real option"
  st_skew :: "real list \<Rightarrow> real option"
  st_spearmanr :: "real list \<Rightarrow> real list \<Rightarrow> real option res"
  st_pearsonr :: "real list \<Rightarrow> real list \<Rightarrow> real option res"

text \<open>\<open>np.arange(n, dtype=float)\<close>\<close>

definition np_arange :: "nat \<Rightarrow> real list" where
  "np_arange n = map real [0..<n]"

lemma length_np_arange [simp]: "length (np_arange n) = n"
  by (simp add: np_arange_def)

locale stats_api =
  fixes lib :: numlib
  assumes median_bounds: "xs \<noteq> [] \<Longrightarrow> (\<And>x. x \<in> set xs \<Longrightarrow> lo \<le> x \<and> x \<le> hi) \<Longrightarrow>
      lo \<le> np_median lib xs \<and> np_median lib xs \<le> hi"
    and median_shift: "xs \<noteq> [] \<Longrightarrow> np_median lib (map (\<lambda>x. x + c) xs) = np_median lib xs + c"
    and percentile_bounds: "xs \<noteq> [] \<Longrightarrow> 0 \<le> q \<Longrightarrow> q \<le> 100 \<Longrightarrow>
      (\<And>x. x \<in> set xs \<Longrightarrow> lo \<le> x \<and> x \<le> hi) \<Longrightarrow>
      lo \<le> np_percentile lib xs q \<and> np_percentile lib xs q \<le> hi"
    and std_def: "xs \<noteq> [] \<Longrightarrow> \<exists>sd. np_std lib xs = Some sd \<and> 0 \<le> sd"
    and polyfit_def: "2 \<le> length xs \<Longrightarrow> \<exists>p. np_polyfit1 lib (np_arange (length xs)) xs = Inr p"
    and polyfit_shift: "2 \<le> length xs \<Longrightarrow> np_polyfit1 lib (np_arange (length xs)) xs = Inr (m, y0) \<Longrightarrow>
      np_polyfit1 lib (np_arange (length xs)) (map (\<lambda>x. x + c) xs) = Inr (m, y0 + c)"
    and spearman_range: "length a = length b \<Longrightarrow> 2 \<le> length a \<Longrightarrow>
      \<exists>r. st_spearmanr lib a b = Inr r \<and> (\<forall>v. r = Some v \<longrightarrow> \<bar>v\<bar> \<le> 1)"
    and pearson_range: "length a = length b \<Longrightarrow> 2 \<le> length a \<Longrightarrow>
      \<exists>r. st_pearsonr lib a b = Inr r \<and> (\<forall>v. r = Some v \<longrightarrow> \<bar>v\<bar> \<le> 1)"
    and std_const: "xs \<noteq> [] \<Longrightarrow> (\<And>x. x \<in> set xs \<Longrightarrow> x = c) \<Longrightarrow> np_std lib xs = Some 0"
begin

lemma median_const: "xs \<noteq> [] \<Longrightarrow> (\<And>x. x \<in> set xs \<Longrightarrow> x = c) \<Longrightarrow> np_median lib xs = c"
  using median_bounds[of xs c c] by force

lemma median_nonneg: "xs \<noteq> [] \<Longrightarrow> (\<And>x. x \<in> set xs \<Longrightarrow> 0 \<le> x) \<Longrightarrow> 0 \<le> np_median lib xs"
  using median_bounds[of xs 0 "Max (set xs)"] by force

lemma percentile_le: "xs \<noteq> [] \<Longrightarrow> (\<And>x. x \<in> set xs \<Longrightarrow> x \<le> hi) \<Longrightarrow> np_percentile lib xs 90 \<le> hi"
  using percentile_bounds[of xs 90 "Min (set xs)" hi] by force

end

subsection \<open>The textbook formulas\<close>

definition ref_median :: "real list \<Rightarrow> real" where
  "ref_median xs = (let s = sort xs; n = length s in
     if n = 0 then 0 else if odd n then s ! (n div 2) else (s ! (n div 2 - 1) + s ! (n div 2)) / 2)"

definition ref_percentile :: "real list \<Rightarrow> real \<Rightarrow> real" where
  "ref_percentile xs q = (let s = sort xs; n = length s; p = q / 100 * real (n - 1);
       i = nat \<lfloor>p\<rfloor>; f = p - of_int \<lfloor>p\<rfloor> in
     if n = 0 then 0 else (1 - f) * s ! i + f * s ! (min (i + 1) (n - 1)))"

definition ref_mean :: "real list \<Rightarrow> real" where
  "ref_mean xs = sum_list xs / real (length xs)"

definition devs :: "real list \<Rightarrow> real list" where
  "devs xs = map (\<lambda>x. x - ref_mean xs) xs"

definition dotp :: "real list \<Rightarrow> real list \<Rightarrow> real" where
  "dotp a b = sum_list (map2 (*) a b)"

definition ref_std :: "real list \<Rightarrow> real option" where
  "ref_std xs = (if xs = [] then None else Some (sqrt (dotp (devs xs) (devs xs) / real (length xs))))"

definition ref_polyfit1 :: "real list \<Rightarrow> real list \<Rightarrow> (real \<times> real) res" where
  "ref_polyfit1 t xs = (if xs = [] \<or> length t \<noteq> length xs then Inl TypeError
     else let s = dotp (devs t) (devs xs) / dotp (devs t) (devs t)
          in Inr (s, ref_mean xs - s * ref_mean t))"

definition ref_corr :: "real list \<Rightarrow> real list \<Rightarrow> real option" where
  "ref_corr a b = (let d = dotp (devs a) (devs a) * dotp (devs b) (devs b) in
     if d = 0 then None else Some (dotp (devs a) (devs b) / sqrt d))"

definition ref_skew :: "real list \<Rightarrow> real option" where
  "ref_skew xs = (let m2 = dotp (devs xs) (devs xs) / real (length xs);
       m3 = sum_list (map (\<lambda>x. x ^ 3) (devs xs)) / real (length xs) in
     if m2 = 0 then None else Some (m3 / sqrt m2 ^ 3))"

definition ref_rank :: "real list \<Rightarrow> real list" where
  "ref_rank xs = map (\<lambda>x. real (length (filter (\<lambda>y. y < x) xs))
     + (real (length (filter (\<lambda>y. y = x) xs)) + 1) / 2) xs"

definition ref_pearsonr :: "real list \<Rightarrow> real list \<Rightarrow> real option res" where
  "ref_pearsonr a b = (if length a \<noteq> length b \<or> length a < 2 then Inl ValueError else Inr (ref_corr a b))"

definition ref_lib :: numlib where
  "ref_lib = \<lparr>np_median = ref_median, np_percentile = ref_percentile, np_mean = ref_mean,
     np_std = ref_std, np_polyfit1 = ref_polyfit1, np_corrcoef01 = ref_corr, st_skew = ref_skew,
     st_spearmanr = (\<lambda>a b. ref_pearsonr (ref_rank a) (ref_rank b)), st_pearsonr = ref_pearsonr\<rparr>"

lemma ref_lib_sel [simp]:
  "np_median ref_lib = ref_median" "np_percentile ref_lib = ref_percentile"
  "np_mean ref_lib = ref_mean" "np_std ref_lib = ref_std" "np_polyfit1 ref_lib = ref_polyfit1"
  "st_skew ref_lib = ref_skew" "st_pearsonr ref_lib = ref_pearsonr" "np_corrcoef01 ref_lib = ref_corr"
  by (simp_all add: ref_lib_def)

text \<open>Square roots have no code equation: evaluation leaves them as they are.\<close>

lemma sqrt_code [code]: "sqrt x = Code.abort (STR ''sqrt'') (\<lambda>_. sqrt x)"
  by simp

subsection \<open>The formulas satisfy the laws\<close>

lemma sort_Nil_iff [simp]: "sort xs = [] \<longleftrightarrow> xs = []"
  by (metis length_0_conv length_sort)

lemma sort_nth_bounds:
  assumes "\<And>x. x \<in> set xs \<Longrightarrow> lo \<le> x \<and> x \<le> hi" "i < length xs"
  shows "lo \<le> sort xs ! i \<and> sort xs ! i \<le> hi"
  using assms nth_mem[of i "sort xs"] by simp

lemma sort_map_shift: "sort (map (\<lambda>x. x + c) xs) = map (\<lambda>x. x + (c::real)) (sort xs)"
proof (rule properties_for_sort)
  show "mset (map (\<lambda>x. x + c) (sort xs)) = mset (map (\<lambda>x. x + c) xs)" by simp
  have "sorted (sort xs)" by simp
  then show "sorted (map (\<lambda>x. x + c) (sort xs))"
    unfolding sorted_iff_nth_mono by auto
qed

lemma ref_median_bounds:
  assumes "xs \<noteq> []" "\<And>x. x \<in> set xs \<Longrightarrow> lo \<le> x \<and> x \<le> hi"
  shows "lo \<le> ref_median xs \<and> ref_median xs \<le> hi"
proof -
  have "length xs div 2 < length xs" "length xs div 2 - 1 < length xs"
    using assms(1) by (cases xs; simp; linarith)+
  with sort_nth_bounds[OF assms(2)]
  have "lo \<le> sort xs ! (length xs div 2) \<and> sort xs ! (length xs div 2) \<le> hi"
    "lo \<le> sort xs ! (length xs div 2 - 1) \<and> sort xs ! (length xs div 2 - 1) \<le> hi" by blast+
  then show ?thesis using assms(1) by (auto simp: ref_median_def Let_def)
qed

lemma ref_median_shift: "xs \<noteq> [] \<Longrightarrow> ref_median (map (\<lambda>x. x + c) xs) = ref_median xs + c"
proof -
  assume ne: "xs \<noteq> []"
  then have "length xs div 2 < length xs" "length xs div 2 - 1 < length xs"
    by (cases xs; simp; linarith)+
  then show ?thesis using ne
    by (auto simp: ref_median_def Let_def sort_map_shift)
qed

lemma convex_bounds:
  fixes a b :: real
  assumes "0 \<le> f" "f \<le> 1" "lo \<le> a" "a \<le> hi" "lo \<le> b" "b \<le> hi"
  shows "lo \<le> (1 - f) * a + f * b" "(1 - f) * a + f * b \<le> hi"
proof -
  have "(1 - f) * lo + f * lo \<le> (1 - f) * a + f * b" using assms by (intro add_mono mult_left_mono) auto
  then show "lo \<le> (1 - f) * a + f * b" by (simp add: algebra_simps)
  have "(1 - f) * a + f * b \<le> (1 - f) * hi + f * hi" using assms by (intro add_mono mult_left_mono) auto
  then show "(1 - f) * a + f * b \<le> hi" by (simp add: algebra_simps)
qed

lemma ref_percentile_bounds:
  assumes "xs \<noteq> []" "0 \<le> q" "q \<le> 100" "\<And>x. x \<in> set xs \<Longrightarrow> lo \<le> x \<and> x \<le> hi"
  shows "lo \<le> ref_percentile xs q \<and> ref_percentile xs q \<le> hi"
proof -
  define n p where "n = length xs" and "p = q / 100 * real (n - 1)"
  have n: "0 < n" using assms(1) by (simp add: n_def)
  have "p \<le> 1 * real (n - 1)" unfolding p_def using assms(3) by (intro mult_right_mono) auto
  then have "\<lfloor>p\<rfloor> \<le> int (n - 1)" by (metis floor_mono floor_of_nat mult_1)
  moreover have "0 \<le> p" using assms(2) by (simp add: p_def)
  ultimately have i: "nat \<lfloor>p\<rfloor> < n" using n by linarith
  have f: "0 \<le> p - of_int \<lfloor>p\<rfloor>" "p - of_int \<lfloor>p\<rfloor> \<le> 1" by linarith+
  have j: "min (nat \<lfloor>p\<rfloor> + 1) (n - 1) < n" using n by simp
  note b = sort_nth_bounds[of xs lo hi, OF assms(4)]
  show ?thesis
    using n convex_bounds[OF f, of lo "sort xs ! nat \<lfloor>p\<rfloor>" hi "sort xs ! min (nat \<lfloor>p\<rfloor> + 1) (n - 1)"] b i j
    by (simp add: ref_percentile_def Let_def n_def p_def)
qed

lemma length_devs [simp]: "length (devs xs) = length xs"
  by (simp add: devs_def)

lemma sum_list_shift: "sum_list (map (\<lambda>x. x + c) xs) = sum_list xs + real (length xs) * c"
  by (induction xs) (auto simp: algebra_simps)

lemma ref_mean_shift: "xs \<noteq> [] \<Longrightarrow> ref_mean (map (\<lambda>x. x + c) xs) = ref_mean xs + c"
  by (simp add: ref_mean_def sum_list_shift field_simps)

lemma devs_shift: "devs (map (\<lambda>x. x + c) xs) = devs xs"
  by (cases "xs = []") (simp_all add: devs_def ref_mean_shift)

lemma dotp_self_nonneg: "0 \<le> dotp a a"
  unfolding dotp_def by (rule sum_list_nonneg) (auto simp: zip_same_conv_map)

lemma dotp_scale_square:
  assumes "length a = length b"
  shows "dotp (map2 (\<lambda>x y. s * x - t * y) a b) (map2 (\<lambda>x y. s * x - t * y) a b)
    = s\<^sup>2 * dotp a a - 2 * s * t * dotp a b + t\<^sup>2 * dotp b b"
  using assms
  by (induction a b rule: list_induct2) (auto simp: dotp_def algebra_simps power2_eq_square)

lemma dotp_cauchy_schwarz:
  assumes "length a = length b"
  shows "(dotp a b)\<^sup>2 \<le> dotp a a * dotp b b"
proof (cases "dotp b b = 0")
  case True
  have "0 \<le> (1 + dotp a b * dotp a a)\<^sup>2" by simp
  have "\<And>t. 0 \<le> dotp a a - 2 * t * dotp a b"
    using dotp_scale_square[OF assms, of 1] dotp_self_nonneg True by (metis (no_types, lifting)
        add.right_neutral mult.assoc mult.commute mult_1 mult_zero_left one_power2)
  from this[of "(dotp a a + 1) / dotp a b"] have "dotp a b = 0"
    using dotp_self_nonneg[of a] by (cases "dotp a b = 0") auto
  then show ?thesis using True by simp
next
  case False
  then have pos: "0 < dotp b b" using dotp_self_nonneg[of b] by linarith
  have "0 \<le> (dotp b b)\<^sup>2 * dotp a a - 2 * dotp b b * dotp a b * dotp a b + (dotp a b)\<^sup>2 * dotp b b"
    using dotp_scale_square[OF assms, of "dotp b b" "dotp a b"] dotp_self_nonneg by (metis (no_types))
  also have "\<dots> = dotp b b * (dotp a a * dotp b b - (dotp a b)\<^sup>2)"
    by (simp add: power2_eq_square algebra_simps)
  finally have "0 \<le> dotp a a * dotp b b - (dotp a b)\<^sup>2" using pos by (simp add: zero_le_mult_iff)
  then show ?thesis by simp
qed

lemma ref_corr_range:
  assumes "length a = length b" "ref_corr a b = Some v"
  shows "\<bar>v\<bar> \<le> 1"
proof -
  let ?d = "dotp (devs a) (devs a) * dotp (devs b) (devs b)"
  have d: "0 < ?d" and v: "v = dotp (devs a) (devs b) / sqrt ?d"
    using assms(2) dotp_self_nonneg[of "devs a"] dotp_self_nonneg[of "devs b"]
    by (auto simp: ref_corr_def Let_def less_le split: if_splits)
  have "\<bar>dotp (devs a) (devs b)\<bar> = sqrt ((dotp (devs a) (devs b))\<^sup>2)" by simp
  also have "\<dots> \<le> sqrt ?d" using dotp_cauchy_schwarz[of "devs a" "devs b"] assms(1)
    by (intro real_sqrt_le_mono) simp
  finally show ?thesis using d unfolding v by (simp add: abs_divide)
qed

lemma ref_pearsonr_range:
  "length a = length b \<Longrightarrow> 2 \<le> length a \<Longrightarrow> \<exists>r. ref_pearsonr a b = Inr r \<and> (\<forall>v. r = Some v \<longrightarrow> \<bar>v\<bar> \<le> 1)"
  by (auto simp: ref_pearsonr_def intro: ref_corr_range)

lemma ref_polyfit_shift:
  assumes "2 \<le> length xs" "ref_polyfit1 t xs = Inr (s, b)"
  shows "ref_polyfit1 t (map (\<lambda>x. x + c) xs) = Inr (s, b + c)"
proof -
  have "xs \<noteq> []" using assms(1) by auto
  then show ?thesis using assms(2)
    by (auto simp: ref_polyfit1_def Let_def devs_shift ref_mean_shift split: if_splits)
qed

lemma ref_polyfit_def: "2 \<le> length xs \<Longrightarrow> \<exists>p. ref_polyfit1 (np_arange (length xs)) xs = Inr p"
  by (auto simp: ref_polyfit1_def Let_def)

lemma ref_std_const:
  assumes "xs \<noteq> []" "\<And>x. x \<in> set xs \<Longrightarrow> x = c"
  shows "ref_std xs = Some 0"
proof -
  have "xs = replicate (length xs) c" using assms(2) by (simp add: replicate_length_same)
  then obtain n where xs: "xs = replicate n c" by blast
  then have "0 < n" using assms(1) by simp
  then have "devs xs = replicate n 0" by (simp add: xs devs_def ref_mean_def sum_list_replicate)
  then show ?thesis using assms(1) by (simp add: ref_std_def dotp_def sum_list_replicate zip_replicate)
qed

interpretation ref: stats_api ref_lib
proof (unfold_locales, goal_cases)
  case (1 xs lo hi) then show ?case using ref_median_bounds[of xs lo hi] by (simp add: ref_lib_def)
next
  case (2 xs c) then show ?case by (simp add: ref_lib_def ref_median_shift)
next
  case (3 xs q lo hi) then show ?case using ref_percentile_bounds[of xs q lo hi] by (simp add: ref_lib_def)
next
  case (4 xs) then show ?case by (simp add: ref_lib_def ref_std_def dotp_self_nonneg)
next
  case (5 xs) then show ?case using ref_polyfit_def by (simp add: ref_lib_def)
next
  case (6 xs s b c) then show ?case using ref_polyfit_shift by (simp add: ref_lib_def)
next
  case (7 a b) then show ?case
    using ref_pearsonr_range[of "ref_rank a" "ref_rank b"] by (simp add: ref_lib_def ref_rank_def)
next
  case (8 a b) then show ?case using ref_pearsonr_range by (simp add: ref_lib_def)
next
  case (9 xs c) then show ?case using ref_std_const[of xs c] by (simp add: ref_lib_def)
qed

end
