(* ===== verification/Detectors.thy ===== *)
theory Detectors
  imports Numlib
begin

text \<open>
  \<open>correlation/engine/detectors.py\<close>: the exponentially weighted baseline, the robust scale, the
  two-sided CUSUM over residual z-scores with its walk back to the onset, the shape classifier and
  the straight-line forecast.  The lemmas say what a reported onset guarantees, when the detector
  must fire and when it must stay silent, how many onsets one window can hold, and that the shape
  classifier does not depend on the level of the signal.
\<close>

definition DT_S :: real where
  "DT_S = 5"

subsection \<open>Baseline and scale\<close>

fun ewma_from :: "real \<Rightarrow> real \<Rightarrow> real list \<Rightarrow> real list" where
  "ewma_from alpha prev [] = []"
| "ewma_from alpha prev (x # xs) =
     (let v = alpha * x + (1 - alpha) * prev in v # ewma_from alpha v xs)"

definition ewma :: "real \<Rightarrow> real list \<Rightarrow> real list res" where
  "ewma alpha x = (case x of [] \<Rightarrow> Inl IndexError | a # xs \<Rightarrow> Inr (a # ewma_from alpha a xs))"

definition ewma_alpha :: real where
  "ewma_alpha = 3 / 10"

definition robust_sigma :: "numlib \<Rightarrow> real list \<Rightarrow> real" where
  "robust_sigma lib x =
     (let med = np_median lib x;
          mad = np_median lib (map (\<lambda>v. \<bar>v - med\<bar>) x)
      in max (14826 / 10000 * mad) (1 / 1000000))"

subsection \<open>CUSUM\<close>

datatype direction = Up | Down

record onset =
  o_idx :: nat
  o_direction :: direction
  o_zpeak :: real

fun sign_of :: "direction \<Rightarrow> real" where
  "sign_of Up = 1"
| "sign_of Down = -1"

fun backtrack :: "real list \<Rightarrow> nat \<Rightarrow> real \<Rightarrow> nat" where
  "backtrack z 0 s = 0"
| "backtrack z (Suc i) s = (if s * z ! i > 1/2 then backtrack z i s else Suc i)"

definition mk_onset :: "real list \<Rightarrow> direction \<Rightarrow> nat \<Rightarrow> onset" where
  "mk_onset z d i = \<lparr>o_idx = backtrack z i (sign_of d), o_direction = d, o_zpeak = z ! i\<rparr>"

text \<open>The loop of \<open>cusum_onsets\<close> over the indices \<open>is\<close>, with its state \<open>gp\<close>, \<open>gn\<close>, \<open>armed_at\<close>.\<close>

fun cusum_scan :: "real list \<Rightarrow> real \<Rightarrow> real \<Rightarrow> nat list \<Rightarrow> real \<Rightarrow> real \<Rightarrow> nat \<Rightarrow> onset list" where
  "cusum_scan z k h [] gp gn armed = []"
| "cusum_scan z k h (i # is) gp gn armed =
     (let gp' = max 0 (gp + z ! i - k); gn' = max 0 (gn - z ! i - k) in
      if gp' > h \<and> i \<ge> armed then mk_onset z Up i # cusum_scan z k h is 0 0 (i + 3)
      else if gn' > h \<and> i \<ge> armed then mk_onset z Down i # cusum_scan z k h is 0 0 (i + 3)
      else cusum_scan z k h is gp' gn' armed)"

text \<open>The residuals' z-scores: lines 44 to 48.\<close>

definition cusum_z :: "numlib \<Rightarrow> nat \<Rightarrow> real list \<Rightarrow> real list res" where
  "cusum_z lib warmup x =
     rbind (ewma ewma_alpha x) (\<lambda>base.
       let resid = map2 (-) x (hd base # butlast base);
           sig_n = min (max (warmup * 2) (length x div 3)) 60;
           sigma = robust_sigma lib (take sig_n resid)
       in Inr (map (\<lambda>r. r / sigma) resid))"

definition cusum_onsets :: "numlib \<Rightarrow> real \<Rightarrow> real \<Rightarrow> nat \<Rightarrow> real list \<Rightarrow> onset list res" where
  "cusum_onsets lib k h warmup x =
     (if length x < warmup + 4 then Inr []
      else rbind (cusum_z lib warmup x) (\<lambda>z. Inr (cusum_scan z k h [warmup..<length z] 0 0 warmup)))"

text \<open>The call with the default parameters, the only one the engine makes.\<close>

definition cusum_default :: "numlib \<Rightarrow> real list \<Rightarrow> onset list res" where
  "cusum_default lib x = cusum_onsets lib (1/2) 5 12 x"

subsection \<open>Shape and forecast\<close>

datatype shape = Saturation | Burst | Leak | Flap | Shift

definition np_max :: "real list \<Rightarrow> real" where
  "np_max xs = Max (set xs)"

definition np_min :: "real list \<Rightarrow> real" where
  "np_min xs = Min (set xs)"

definition sign_changes :: "real list \<Rightarrow> nat" where
  "sign_changes xs = length (filter (\<lambda>(a, b). sgn b - sgn a \<noteq> (0::real)) (zip xs (tl xs)))"

definition classify :: "numlib \<Rightarrow> real list \<Rightarrow> nat \<Rightarrow> real option \<Rightarrow> shape res" where
  "classify lib x onset_idx cap =
     (let seg = drop onset_idx x in
      if length seg < 6 then Inr Shift
      else
        let pre = np_median lib (take (max onset_idx 1) x);
            sigma_pre = robust_sigma lib (if onset_idx > 8 then take onset_idx x else x);
            tail = py_tail (max 3 (length seg div 4)) seg
        in rbind (np_polyfit1 lib (np_arange (length seg)) seg) (\<lambda>(slope, _).
          if (case cap of None \<Rightarrow> False
              | Some c \<Rightarrow> np_median lib (py_tail (max 3 (length seg div 3)) seg) \<ge> 92 / 100 * c)
          then Inr Saturation
          else
            let excursion = np_max (map (\<lambda>v. \<bar>v - pre\<bar>) seg);
                came_back = \<bar>np_median lib tail - pre\<bar> < 3 / 2 * sigma_pre
            in if came_back \<and> excursion > 3 * sigma_pre then Inr Burst
               else if slope > 0 \<and> last seg - hd seg > 2 * sigma_pre then Inr Leak
               else
                 let mid = (np_max seg + np_min seg) / 2;
                     crossings = sign_changes (map (\<lambda>v. v - mid) seg)
                 in if crossings \<ge> 4 \<and> np_max seg - np_min seg > 4 * sigma_pre then Inr Flap
                    else Inr Shift))"

text \<open>\<open>seg[-1]\<close> of an empty window is never reached: the fit raises first.\<close>

definition forecast_to_limit :: "numlib \<Rightarrow> real list \<Rightarrow> real \<Rightarrow> nat \<Rightarrow> real option res" where
  "forecast_to_limit lib x limit tail =
     (let seg = (if length x \<ge> tail then py_tail tail x else x);
          t = np_arange (length seg)
      in rbind (np_polyfit1 lib t seg) (\<lambda>(slope, _).
        let fit_r = np_corrcoef01 lib t seg in
        if slope \<le> 1 / 1000000000 \<or> nan_less fit_r (1/2) then Inr None
        else if seg = [] then Inl IndexError
        else
          let samples_left = (limit - last seg) / slope;
              eta_s = samples_left * DT_S
          in Inr (if samples_left < 0 \<or> eta_s > 3600 then None else Some eta_s)))"

subsection \<open>The walk back and the scan\<close>

lemma backtrack_le: "backtrack z i s \<le> i"
  by (induction z i s rule: backtrack.induct) auto

lemma backtrack_run: "backtrack z i s \<le> m \<Longrightarrow> m < i \<Longrightarrow> s * z ! m > 1/2"
  by (induction z i s rule: backtrack.induct) (auto simp: less_Suc_eq split: if_splits)

lemma backtrack_maximal: "0 < backtrack z i s \<Longrightarrow> \<not> s * z ! (backtrack z i s - 1) > 1/2"
  by (induction z i s rule: backtrack.induct) (auto split: if_splits)

lemma cusum_scan_sound:
  "e \<in> set (cusum_scan z k h is gp gn armed) \<Longrightarrow> \<exists>i \<in> set is. e = mk_onset z (o_direction e) i"
proof (induction "is" arbitrary: gp gn armed)
  case (Cons i "is")
  let ?gp = "max 0 (gp + z ! i - k)" and ?gn = "max 0 (gn - z ! i - k)"
  from Cons.prems consider "e = mk_onset z Up i" | "e = mk_onset z Down i"
    | gp' gn' armed' where "e \<in> set (cusum_scan z k h is gp' gn' armed')"
    by (auto simp: Let_def split: if_splits)
  then show ?case
    by cases (auto simp: mk_onset_def dest: Cons.IH)
qed simp

lemma three_step: "3 * l \<le> n - (i + 3) + 2 \<Longrightarrow> i < n \<Longrightarrow> 3 * Suc l \<le> n - i + (2 :: nat)"
  by arith

lemma cusum_scan_count:
  "3 * length (cusum_scan z k h [i..<n] gp gn armed) \<le> n - max i armed + 2"
proof (induction "n - i" arbitrary: i gp gn armed)
  case (Suc d)
  let ?gp = "max 0 (gp + z ! i - k)" and ?gn = "max 0 (gn - z ! i - k)"
  from Suc.hyps(2) have i: "i < n" and d: "d = n - Suc i" by simp_all
  note IH = Suc.hyps(1)[OF d]
  show ?case
  proof (cases "i \<ge> armed \<and> (?gp > h \<or> ?gn > h)")
    case True
    have "length (cusum_scan z k h [i..<n] gp gn armed)
        = Suc (length (cusum_scan z k h [Suc i..<n] 0 0 (i + 3)))"
      using True i by (auto simp: upt_conv_Cons Let_def)
    moreover have "3 * length (cusum_scan z k h [Suc i..<n] 0 0 (i + 3)) \<le> n - (i + 3) + 2"
      using IH[of 0 0 "i + 3"] by simp
    moreover have "max i armed = i" using True by simp
    ultimately show ?thesis using i by (simp only: three_step)
  next
    case False
    then have "length (cusum_scan z k h [i..<n] gp gn armed)
        = length (cusum_scan z k h [Suc i..<n] ?gp ?gn armed)"
      using i by (auto simp: upt_conv_Cons Let_def)
    moreover have "n - max (Suc i) armed \<le> n - max i armed" by (intro diff_le_mono2) simp
    ultimately show ?thesis using IH[of ?gp ?gn armed] by linarith
  qed
qed simp

lemma cusum_scan_quiet:
  assumes "\<And>i. i \<in> set is \<Longrightarrow> \<bar>z ! i\<bar> \<le> k" "0 \<le> h"
  shows "cusum_scan z k h is 0 0 armed = []"
  using assms
proof (induction "is")
  case (Cons i "is")
  have "max 0 (0 + z ! i - k) = 0" "max 0 (0 - z ! i - k) = 0"
    using Cons.prems(1)[of i] by auto
  with Cons show ?case by (simp add: Let_def)
qed simp

text \<open>
  The alarms without the two running sums: a stretch from \<open>first\<close> on that ends at \<open>i\<close> has drifted beyond \<open>h\<close>;
  the alarms from \<open>first\<close> on, when none can be raised before \<open>armed\<close>.
\<close>

definition drifts :: "real list \<Rightarrow> real \<Rightarrow> real \<Rightarrow> direction \<Rightarrow> nat \<Rightarrow> nat \<Rightarrow> bool" where
  "drifts z k h d first i \<longleftrightarrow> (\<exists>a. first \<le> a \<and> a \<le> i \<and> h < (\<Sum>m=a..i. sign_of d * z ! m - k))"

fun cusum_alarms :: "real list \<Rightarrow> real \<Rightarrow> real \<Rightarrow> nat \<Rightarrow> nat \<Rightarrow> nat \<Rightarrow> (nat \<times> direction) list \<Rightarrow> bool" where
  "cusum_alarms z k h first armed n [] \<longleftrightarrow> (\<forall>d j. first \<le> j \<and> armed \<le> j \<and> j < n \<longrightarrow> \<not> drifts z k h d first j)"
| "cusum_alarms z k h first armed n ((i, d) # as) \<longleftrightarrow> first \<le> i \<and> armed \<le> i \<and> i < n \<and> drifts z k h d first i \<and>
     (d = Down \<longrightarrow> \<not> drifts z k h Up first i) \<and>
     (\<forall>d' j. first \<le> j \<and> armed \<le> j \<and> j < i \<longrightarrow> \<not> drifts z k h d' first j) \<and>
     cusum_alarms z k h (Suc i) (i + 3) n as"

text \<open>What a running sum holds before sample \<open>i\<close>: the largest drift of a stretch that ends just before.\<close>

definition drift_state :: "real list \<Rightarrow> real \<Rightarrow> direction \<Rightarrow> nat \<Rightarrow> nat \<Rightarrow> real \<Rightarrow> bool" where
  "drift_state z k d first i g \<longleftrightarrow> 0 \<le> g \<and>
     (\<forall>c \<ge> 0. c < g \<longleftrightarrow> (\<exists>a. first \<le> a \<and> a < i \<and> c < (\<Sum>m=a..<i. sign_of d * z ! m - k)))"

lemma drift_state_step:
  assumes "drift_state z k d first i g" "first \<le> i"
  shows "drift_state z k d first (Suc i) (max 0 (g + sign_of d * z ! i - k))"
proof -
  let ?t = "sign_of d * z ! i - k" and ?S = "\<lambda>a. \<Sum>m=a..<i. sign_of d * z ! m - k"
  have g: "0 \<le> g" "\<And>c. 0 \<le> c \<Longrightarrow> c < g \<longleftrightarrow> (\<exists>a. first \<le> a \<and> a < i \<and> c < ?S a)" using assms(1) by (auto simp: drift_state_def)
  have S: "(\<Sum>m=a..<Suc i. sign_of d * z ! m - k) = ?S a + ?t" if "a \<le> i" for a using that by simp
  have "c < max 0 (g + sign_of d * z ! i - k) \<longleftrightarrow> (\<exists>a. first \<le> a \<and> a < Suc i \<and> c < (\<Sum>m=a..<Suc i. sign_of d * z ! m - k))"
    if c: "0 \<le> c" for c
  proof (cases "c < ?t")
    case True
    then have "c < (\<Sum>m=i..<Suc i. sign_of d * z ! m - k)" by simp
    then have "\<exists>a. first \<le> a \<and> a < Suc i \<and> c < (\<Sum>m=a..<Suc i. sign_of d * z ! m - k)"
      using assms(2) by (intro exI[of _ i]) simp
    moreover have "c < max 0 (g + sign_of d * z ! i - k)" using True g(1) by simp
    ultimately show ?thesis by simp
  next
    case False
    have "c < max 0 (g + sign_of d * z ! i - k) \<longleftrightarrow> c - ?t < g" using c by (simp add: less_max_iff_disj) linarith
    also have "\<dots> \<longleftrightarrow> (\<exists>a. first \<le> a \<and> a < i \<and> c - ?t < ?S a)" by (rule g(2)) (use False in simp)
    also have "\<dots> \<longleftrightarrow> (\<exists>a. first \<le> a \<and> a < Suc i \<and> c < (\<Sum>m=a..<Suc i. sign_of d * z ! m - k))"
    proof (intro ex_cong1 iffI)
      fix a assume "first \<le> a \<and> a < i \<and> c - ?t < ?S a"
      then show "first \<le> a \<and> a < Suc i \<and> c < (\<Sum>m=a..<Suc i. sign_of d * z ! m - k)" by (simp add: S)
    next
      fix a assume a: "first \<le> a \<and> a < Suc i \<and> c < (\<Sum>m=a..<Suc i. sign_of d * z ! m - k)"
      then have "a \<noteq> i" using False by auto
      with a have "a < i" by simp
      moreover have "c < ?S a + ?t" using a unfolding S[OF less_imp_le[OF \<open>a < i\<close>]] by blast
      ultimately show "first \<le> a \<and> a < i \<and> c - ?t < ?S a" using a by linarith
    qed
    finally show ?thesis .
  qed
  then show ?thesis by (simp add: drift_state_def)
qed

lemma drift_state_drifts: "drift_state z k d first (Suc i) g \<Longrightarrow> 0 \<le> h \<Longrightarrow> h < g \<longleftrightarrow> drifts z k h d first i"
  unfolding drift_state_def drifts_def by (simp add: less_Suc_eq_le atLeastLessThanSuc_atLeastAtMost)

lemma drift_state_fresh: "drift_state z k d (Suc i) (Suc i) 0"
  by (simp add: drift_state_def)

text \<open>The alarms from sample \<open>i\<close> on are those from \<open>first\<close> on, if none was raised in between.\<close>

lemma cusum_alarms_skip:
  assumes "cusum_alarms z k h first (max armed (Suc i)) n as" "\<And>d. armed \<le> i \<Longrightarrow> \<not> drifts z k h d first i"
    and "\<And>d j. first \<le> j \<Longrightarrow> armed \<le> j \<Longrightarrow> j < i \<Longrightarrow> \<not> drifts z k h d first j"
  shows "cusum_alarms z k h first armed n as"
proof -
  have "\<not> drifts z k h d first j" if "first \<le> j" "armed \<le> j" "\<not> max armed (Suc i) \<le> j" for d j
    using that assms(2,3) by (cases "j = i") auto
  then have all: "(\<forall>d j. first \<le> j \<and> armed \<le> j \<and> j < m \<longrightarrow> \<not> drifts z k h d first j) \<longleftrightarrow>
      (\<forall>d j. first \<le> j \<and> max armed (Suc i) \<le> j \<and> j < m \<longrightarrow> \<not> drifts z k h d first j)" for m
    by (meson max.boundedE)
  with assms(1) show ?thesis by (cases "(z, k, h, first, armed, n, as)" rule: cusum_alarms.cases) (simp_all add: all)
qed

lemma cusum_scan_alarms:
  assumes "first \<le> i" "0 \<le> h" "drift_state z k Up first i gp" "drift_state z k Down first i gn"
  shows "\<exists>as. cusum_scan z k h [i..<n] gp gn armed = map (\<lambda>(i, d). mk_onset z d i) as \<and>
    cusum_alarms z k h first (max armed i) n as"
  using assms
proof (induction "n - i" arbitrary: i gp gn armed first)
  case 0
  then show ?case by (intro exI[of _ "[]"]) auto
next
  case (Suc e)
  let ?gp = "max 0 (gp + z ! i - k)" and ?gn = "max 0 (gn - z ! i - k)"
  have i: "i < n" "e = n - Suc i" using Suc.hyps(2) by simp_all
  have st: "drift_state z k Up first (Suc i) ?gp" "drift_state z k Down first (Suc i) ?gn"
    using drift_state_step[OF Suc.prems(3,1)] drift_state_step[OF Suc.prems(4,1)] by simp_all
  have up: "?gp > h \<longleftrightarrow> drifts z k h Up first i" and dn: "?gn > h \<longleftrightarrow> drifts z k h Down first i"
    using drift_state_drifts[OF st(1) assms(2)] drift_state_drifts[OF st(2) assms(2)] by simp_all
  have alarm: "\<exists>as. mk_onset z d i # cusum_scan z k h [Suc i..<n] 0 0 (i + 3) = map (\<lambda>(i, d). mk_onset z d i) as \<and>
      cusum_alarms z k h first (max armed i) n as"
    if "armed \<le> i" "drifts z k h d first i" "d = Down \<Longrightarrow> \<not> drifts z k h Up first i" for d
  proof -
    obtain as where "cusum_scan z k h [Suc i..<n] 0 0 (i + 3) = map (\<lambda>(i, d). mk_onset z d i) as"
      "cusum_alarms z k h (Suc i) (max (i + 3) (Suc i)) n as"
      using Suc.hyps(1)[OF i(2) _ assms(2) drift_state_fresh drift_state_fresh, of "i + 3"] by blast
    moreover have "max (i + 3) (Suc i) = i + 3" by simp
    ultimately show ?thesis using that i(1) Suc.prems(1) by (intro exI[of _ "(i, d) # as"]) auto
  qed
  obtain as where as: "cusum_scan z k h [Suc i..<n] ?gp ?gn armed = map (\<lambda>(i, d). mk_onset z d i) as"
    "cusum_alarms z k h first (max armed (Suc i)) n as"
    using Suc.hyps(1)[OF i(2) _ assms(2) st, of armed] Suc.prems(1) by auto
  have skip: "cusum_alarms z k h first (max armed i) n as" if "\<And>d. armed \<le> i \<Longrightarrow> \<not> drifts z k h d first i"
  proof (rule cusum_alarms_skip[of _ _ _ _ _ i])
    have "max (max armed i) (Suc i) = max armed (Suc i)" by simp
    then show "cusum_alarms z k h first (max (max armed i) (Suc i)) n as" using as(2) by simp
  qed (use that in simp_all)
  have scan: "cusum_scan z k h [i..<n] gp gn armed =
      (if drifts z k h Up first i \<and> armed \<le> i then mk_onset z Up i # cusum_scan z k h [Suc i..<n] 0 0 (i + 3)
       else if drifts z k h Down first i \<and> armed \<le> i then mk_onset z Down i # cusum_scan z k h [Suc i..<n] 0 0 (i + 3)
       else cusum_scan z k h [Suc i..<n] ?gp ?gn armed)"
    unfolding up[symmetric] dn[symmetric] using i(1) by (simp only: upt_conv_Cons cusum_scan.simps Let_def)
  show ?case
  proof (cases "armed \<le> i \<and> (drifts z k h Up first i \<or> drifts z k h Down first i)")
    case True
    then show ?thesis unfolding scan using alarm[of Up] alarm[of Down] by (cases "drifts z k h Up first i") simp_all
  next
    case False
    then have "\<not> drifts z k h d first i" if "armed \<le> i" for d using that by (cases d) auto
    then have "cusum_alarms z k h first (max armed i) n as" by (rule skip)
    moreover have "cusum_scan z k h [i..<n] gp gn armed = map (\<lambda>(i, d). mk_onset z d i) as" unfolding scan using False as(1) by auto
    ultimately show ?thesis by blast
  qed
qed

lemma mk_onset_walk:
  "o_direction (mk_onset z d i) = d" "o_zpeak (mk_onset z d i) = z ! i" "o_idx (mk_onset z d i) \<le> i"
  "o_idx (mk_onset z d i) \<le> m \<Longrightarrow> m < i \<Longrightarrow> 1/2 < sign_of d * z ! m"
  "0 < o_idx (mk_onset z d i) \<Longrightarrow> sign_of d * z ! (o_idx (mk_onset z d i) - 1) \<le> 1/2"
  using backtrack_le[of z i "sign_of d"] backtrack_run[of z i "sign_of d" m] backtrack_maximal[of z i "sign_of d"]
  by (simp_all add: mk_onset_def not_less)



subsection \<open>The z-scores\<close>

lemma length_ewma_from [simp]: "length (ewma_from a p xs) = length xs"
  by (induction a p xs rule: ewma_from.induct) (auto simp: Let_def)

lemma ewma_from_Nil_iff [simp]: "ewma_from a p xs = [] \<longleftrightarrow> xs = []"
  by (cases xs) (auto simp: Let_def)

lemma ewma_Inr: "x \<noteq> [] \<Longrightarrow> ewma a x = Inr (hd x # ewma_from a (hd x) (tl x))"
  by (cases x) (auto simp: ewma_def)

lemma ewma_from_bounds:
  "0 \<le> a \<Longrightarrow> a \<le> 1 \<Longrightarrow> lo \<le> p \<Longrightarrow> p \<le> hi \<Longrightarrow> (\<And>x. x \<in> set xs \<Longrightarrow> lo \<le> x \<and> x \<le> hi) \<Longrightarrow>
   v \<in> set (ewma_from a p xs) \<Longrightarrow> lo \<le> v \<and> v \<le> hi"
proof (induction a p xs rule: ewma_from.induct)
  case (2 a p x xs)
  have x: "lo \<le> x" "x \<le> hi" using "2.prems"(5)[of x] by auto
  let ?w = "a * x + (1 - a) * p"
  have w: "lo \<le> ?w" "?w \<le> hi"
    using convex_bounds[of a lo p hi x] "2.prems" x by (simp_all add: add.commute)
  show ?case using "2.IH"[OF refl "2.prems"(1,2) w] "2.prems"(5,6) w by (auto simp: Let_def)
qed simp

lemma ewma_from_const: "(\<And>x. x \<in> set xs \<Longrightarrow> x = c) \<Longrightarrow> ewma_from a c xs = xs"
proof (induction xs)
  case (Cons x xs)
  have x: "x = c" by (rule Cons.prems) simp
  have "a * c + (1 - a) * c = c" by (simp add: algebra_simps)
  then show ?case using Cons.IH[OF Cons.prems] unfolding x by (simp add: Let_def)
qed simp

lemma length_cusum_z: "cusum_z lib w x = Inr z \<Longrightarrow> length z = length x"
  by (cases x) (auto simp: cusum_z_def ewma_def Let_def)

lemma cusum_z_Inr:
  assumes "x \<noteq> []"
  obtains z where "cusum_z lib w x = Inr z" "length z = length x"
proof -
  have "\<exists>z. cusum_z lib w x = Inr z" using assms by (simp add: cusum_z_def ewma_Inr Let_def)
  then show ?thesis using that length_cusum_z by blast
qed

lemma cusum_onsets_eq:
  "cusum_z lib w x = Inr z \<Longrightarrow> w + 4 \<le> length x \<Longrightarrow>
   cusum_onsets lib k h w x = Inr (cusum_scan z k h [w..<length x] 0 0 w)"
  by (simp add: cusum_onsets_def length_cusum_z)

lemma cusum_onsets_cases:
  obtains "cusum_onsets lib k h w x = Inr []" "length x < w + 4"
  | z where "w + 4 \<le> length x" "cusum_z lib w x = Inr z" "length z = length x"
      "cusum_onsets lib k h w x = Inr (cusum_scan z k h [w..<length x] 0 0 w)"
proof (cases "length x < w + 4")
  case True
  then show ?thesis using that(1) by (simp add: cusum_onsets_def)
next
  case False
  then have "x \<noteq> []" by auto
  then obtain z where "cusum_z lib w x = Inr z" "length z = length x" by (rule cusum_z_Inr)
  then show ?thesis using that(2) False by (simp add: cusum_onsets_eq)
qed

text \<open>Evaluation in steps: the simplifier must not sort a list whose elements it does not know.\<close>

lemma cusum_z_eval:
  assumes "ewma ewma_alpha x = Inr base"
    and "map2 (-) x (hd base # butlast base) = resid"
    and "take (min (max (w * 2) (length x div 3)) 60) resid = prefix"
    and "np_median lib prefix = med"
    and "np_median lib (map (\<lambda>v. \<bar>v - med\<bar>) prefix) = mad"
    and "map (\<lambda>r. r / max (14826 / 10000 * mad) (1 / 1000000)) resid = z"
  shows "cusum_z lib w x = Inr z"
  by (simp only: cusum_z_def robust_sigma_def Let_def rbind.simps assms)

lemma cusum_z_const:
  assumes "\<And>v. v \<in> set x \<Longrightarrow> v = c" "cusum_z lib w x = Inr z" "m < length z"
  shows "z ! m = 0"
proof -
  obtain a xs where x: "x = a # xs" using assms(2) by (cases x) (auto simp: cusum_z_def ewma_def)
  then have c: "a = c" "ewma_from ewma_alpha c xs = xs" using assms(1) by (auto intro: ewma_from_const)
  let ?resid = "map2 (-) x (hd x # butlast x)"
  have r: "u = 0" if "u \<in> set ?resid" for u
  proof -
    from that obtain p q where "(p, q) \<in> set (zip x (hd x # butlast x))" and u: "u = p - q" by auto
    then have "p \<in> set x" "q \<in> set (hd x # butlast x)"
      by (auto dest: set_zip_leftD set_zip_rightD)
    moreover have "set (hd x # butlast x) \<subseteq> set x" using x by (auto dest: in_set_butlastD)
    ultimately have "p = c" "q = c" using assms(1) by blast+
    then show "u = 0" using u by simp
  qed
  obtain s where z: "z = map (\<lambda>r. r / s) ?resid"
    using assms(2) c x by (auto simp: cusum_z_def ewma_def Let_def)
  then have "m < length ?resid" using assms(3) by simp
  then have "?resid ! m = 0" by (intro r nth_mem)
  then show ?thesis using \<open>m < length ?resid\<close> unfolding z by (simp only: nth_map)
qed

subsection \<open>Scale, shape and forecast\<close>

lemma robust_sigma_pos: "0 < robust_sigma lib x"
  by (simp add: robust_sigma_def Let_def)

lemma np_max_shift: "xs \<noteq> [] \<Longrightarrow> np_max (map (\<lambda>v. v + c) xs) = np_max xs + c"
  by (simp add: np_max_def Max_add_commute[where f = "\<lambda>v. v"])

lemma np_min_shift: "xs \<noteq> [] \<Longrightarrow> np_min (map (\<lambda>v. v + c) xs) = np_min xs + c"
  by (simp add: np_min_def Min_add_commute[where f = "\<lambda>v. v"])

lemma py_tail_map: "py_tail n (map f xs) = map f (py_tail n xs)"
  by (simp add: py_tail_def drop_map)

context stats_api begin

lemma robust_sigma_shift:
  "xs \<noteq> [] \<Longrightarrow> robust_sigma lib (map (\<lambda>v. v + c) xs) = robust_sigma lib xs"
  by (simp add: robust_sigma_def Let_def median_shift o_def)

lemma robust_sigma_mad:
  "xs \<noteq> [] \<Longrightarrow> 0 \<le> np_median lib (map (\<lambda>v. \<bar>v - m\<bar>) xs)"
  by (rule median_nonneg) auto

lemma classify_level_invariant:
  "classify lib (map (\<lambda>v. v + c) x) onset_idx None = classify lib x onset_idx None"
proof (cases "length (drop onset_idx x) < 6")
  case True
  then show ?thesis by (simp add: classify_def)
next
  case False
  define seg where "seg = drop onset_idx x"
  have len: "6 \<le> length seg" and ne: "seg \<noteq> []" "x \<noteq> []" "take (max onset_idx 1) x \<noteq> []"
    using False by (auto simp: seg_def)
  have sub: "(if onset_idx > 8 then take onset_idx x else x) \<noteq> []" using ne by auto
  have tl: "py_tail (max 3 (length seg div 4)) seg \<noteq> []"
    using ne by simp
  obtain s b where fit: "np_polyfit1 lib (np_arange (length seg)) seg = Inr (s, b)"
    using polyfit_def[of seg] len by auto
  have fit': "np_polyfit1 lib (np_arange (length seg)) (map (\<lambda>v. v + c) seg) = Inr (s, b + c)"
    using polyfit_shift[of seg s b c] fit len by simp
  have sig: "robust_sigma lib (if onset_idx > 8 then take onset_idx (map (\<lambda>v. v + c) x) else map (\<lambda>v. v + c) x)
      = robust_sigma lib (if onset_idx > 8 then take onset_idx x else x)"
    using robust_sigma_shift[OF sub, of c] by (simp add: take_map split: if_splits)
  have mid: "v + c - (2 * c + (np_max seg + np_min seg)) / 2 = v - (np_max seg + np_min seg) / 2" for v
    by (simp add: field_simps)
  then show ?thesis
    using len fit fit' ne
    by (simp add: classify_def Let_def drop_map take_map seg_def[symmetric] sig median_shift
        py_tail_map tl np_max_shift np_min_shift mid o_def last_map hd_map)
qed

lemma classify_total: "\<exists>s. classify lib x onset_idx cap = Inr s"
proof (cases "length (drop onset_idx x) < 6")
  case False
  then obtain p where "np_polyfit1 lib (np_arange (length (drop onset_idx x))) (drop onset_idx x) = Inr p"
    using polyfit_def[of "drop onset_idx x"] by auto
  then show ?thesis using False by (cases p) (simp add: classify_def Let_def)
qed (simp add: classify_def)

lemma forecast_reaches_limit:
  assumes "forecast_to_limit lib x limit tail = Inr (Some eta)"
  shows "0 \<le> eta \<and> eta \<le> 3600 \<and> x \<noteq> [] \<and>
    (\<exists>slope y0. slope > 1 / 1000000000 \<and> last x + slope * (eta / DT_S) = limit \<and>
      np_polyfit1 lib (np_arange (length (py_tail (min tail (length x)) x)))
        (py_tail (min tail (length x)) x) = Inr (slope, y0))"
proof -
  let ?seg = "if length x \<ge> tail then py_tail tail x else x"
  have seg: "?seg = py_tail (min tail (length x)) x"
    by (auto simp: py_tail_def min_def)
  obtain slope y0 where fit: "np_polyfit1 lib (np_arange (length ?seg)) ?seg = Inr (slope, y0)"
    and sl: "slope > 1 / 1000000000" and ne: "?seg \<noteq> []"
    and eta: "eta = (limit - last ?seg) / slope * DT_S" "0 \<le> (limit - last ?seg) / slope" "eta \<le> 3600"
    using assms unfolding forecast_to_limit_def Let_def
    by (auto simp: res_simps split: if_splits prod.splits)
  have "last ?seg = last x" using ne by (auto simp: py_tail_def)
  moreover have "x \<noteq> []" using ne by (auto split: if_splits)
  moreover have "0 \<le> eta" using eta(2) unfolding eta(1) by (intro mult_nonneg_nonneg) (simp_all add: DT_S_def)
  moreover have "slope > 0" using sl by (rule order.strict_trans[rotated]) simp
  moreover have "slope * (eta / DT_S) = limit - last ?seg" using eta(1) \<open>slope > 0\<close> by (simp add: DT_S_def)
  ultimately show ?thesis using fit sl eta(3) seg by auto
qed

end

subsection \<open>Properties\<close>

text \<open>A step of height 8 after twelve quiet samples, the example of the witnesses.\<close>

lemma step_z: "cusum_z ref_lib 12 (replicate 12 0 @ replicate 6 8)
    = Inr (replicate 12 0 @ [8000000, 5600000, 3920000, 2744000, 1920800, 1344560])"
  by (rule cusum_z_eval[where base = "replicate 12 0 @ [24/10, 408/100, 5256/1000, 60792/10000,
        665544/100000, 7058808/1000000]" and med = 0 and mad = 0
        and resid = "replicate 12 0 @ [8, 56/10, 392/100, 2744/1000, 19208/10000, 134456/100000]"
        and prefix = "replicate 12 0 @ [8, 56/10, 392/100, 2744/1000, 19208/10000, 134456/100000]"];
      (simp only: ref_lib_sel)?; code_simp)

text \<open>
  C33. The onsets of \<open>cusum_onsets\<close> are exactly the alarms of its definition, in order: the first alarm is the
  first sample after the warm-up at which some stretch of samples that ends there has drifted beyond \<open>h\<close>, summed
  above the allowance \<open>k\<close> in one direction (upwards if in both); the next is the first such sample at least
  three samples later, over stretches that begin after the last alarm; after the last there is none.  For
  each alarm, the onset has its direction and its z-score, its index is not after it, every sample
  from the index up to the alarm deviates in that direction by more than half a sigma, and the walk back is
  maximal (it stops at the start of the window or at a sample that does not deviate so).
\<close>

theorem cusum_onset_sound:
  assumes "cusum_onsets lib k h warmup x = Inr ons" and "0 \<le> h"
  shows "if length x < warmup + 4 then ons = []
    else \<exists>z as. cusum_z lib warmup x = Inr z \<and> cusum_alarms z k h warmup warmup (length x) as \<and>
      list_all2 (\<lambda>(i, d) e. o_direction e = d \<and> o_zpeak e = z ! i \<and> o_idx e \<le> i \<and>
        (\<forall>m. o_idx e \<le> m \<and> m < i \<longrightarrow> sign_of d * z ! m > 1/2) \<and>
        (0 < o_idx e \<longrightarrow> sign_of d * z ! (o_idx e - 1) \<le> 1/2)) as ons"
proof (cases rule: cusum_onsets_cases[of lib k h warmup x])
  case 1
  then show ?thesis using assms by simp
next
  case (2 z)
  have "\<exists>as. cusum_scan z k h [warmup..<length x] 0 0 warmup = map (\<lambda>(i, d). mk_onset z d i) as \<and>
      cusum_alarms z k h warmup warmup (length x) as"
    using cusum_scan_alarms[of warmup warmup h z k 0 0 "length x" warmup] assms(2) by (simp add: drift_state_def)
  then obtain as where as: "ons = map (\<lambda>(i, d). mk_onset z d i) as" "cusum_alarms z k h warmup warmup (length x) as"
    using assms 2 by auto
  have walk: "list_all2 (\<lambda>(i, d) e. o_direction e = d \<and> o_zpeak e = z ! i \<and> o_idx e \<le> i \<and>
        (\<forall>m. o_idx e \<le> m \<and> m < i \<longrightarrow> sign_of d * z ! m > 1/2) \<and>
        (0 < o_idx e \<longrightarrow> sign_of d * z ! (o_idx e - 1) \<le> 1/2)) as ons"
    unfolding as(1) list_all2_map2 list_all2_same split_beta
    by (intro ballI conjI allI impI; (elim conjE)?; rule mk_onset_walk; assumption)
  have "\<not> length x < warmup + 4" using 2(1) by simp
  then show ?thesis using 2(2) as(2) walk by (simp only: if_False) blast
qed

theorem cusum_onset_sound_witness:
  "\<exists>z as. cusum_z ref_lib 12 (replicate 12 0 @ replicate 6 8) = Inr z \<and>
    cusum_alarms z (1/2) 5 12 12 18 as \<and> map snd as = [Up, Up]"
proof -
  have "cusum_onsets ref_lib (1/2) 5 12 (replicate 12 0 @ replicate 6 8)
    = Inr [\<lparr>o_idx = 12, o_direction = Up, o_zpeak = 8000000\<rparr>,
           \<lparr>o_idx = 12, o_direction = Up, o_zpeak = 2744000\<rparr>]"
    by (subst cusum_onsets_eq[OF step_z]) code_simp+
  from cusum_onset_sound[OF this] obtain z as where z: "cusum_z ref_lib 12 (replicate 12 0 @ replicate 6 8) = Inr z"
    "cusum_alarms z (1/2) 5 12 12 18 as" and "list_all2 (\<lambda>(i, d) e. o_direction e = d \<and> o_zpeak e = z ! i \<and> o_idx e \<le> i \<and>
        (\<forall>m. o_idx e \<le> m \<and> m < i \<longrightarrow> sign_of d * z ! m > 1/2) \<and>
        (0 < o_idx e \<longrightarrow> sign_of d * z ! (o_idx e - 1) \<le> 1/2)) as
      [\<lparr>o_idx = 12, o_direction = Up, o_zpeak = 8000000\<rparr>, \<lparr>o_idx = 12, o_direction = Up, o_zpeak = 2744000\<rparr>]" by auto
  then have "map snd as = [Up, Up]" by (auto simp: list_all2_Cons2)
  with z show ?thesis by (intro exI[of _ z] exI[of _ as] conjI)
qed

text \<open>
  The detector never raises, whatever the window, and it cannot flood: alarms are at least three
  samples apart, so a window of n samples holds at most about (n - warmup) / 3 onsets.
\<close>

theorem cusum_total_bounded:
  "\<exists>ons. cusum_onsets lib k h warmup x = Inr ons \<and> 3 * length ons \<le> length x - warmup + 2"
  using cusum_scan_count[of _ k h warmup "length x" 0 0 warmup]
  by (cases rule: cusum_onsets_cases[of lib k h warmup x]) auto



text \<open>
  Steady load is silent: a window whose z-scores stay within the allowance \<open>k\<close> after the
  warm-up yields no onset, and so does a constant signal, whatever its level.
\<close>

theorem cusum_silent:
  assumes "0 \<le> k" and "0 \<le> h"
    and "(\<exists>c. \<forall>v \<in> set x. v = c) \<or>
      (\<exists>z. cusum_z lib warmup x = Inr z \<and> (\<forall>m. warmup \<le> m \<and> m < length x \<longrightarrow> \<bar>z ! m\<bar> \<le> k))"
  shows "cusum_onsets lib k h warmup x = Inr []"
proof (cases rule: cusum_onsets_cases[of lib k h warmup x])
  case (2 z)
  have "\<bar>z ! m\<bar> \<le> k" if "m \<in> set [warmup..<length x]" for m
    using assms that cusum_z_const[OF _ 2(2), of _ m] 2 by fastforce
  then show ?thesis using cusum_scan_quiet[of _ z k h] assms 2 by metis
qed

theorem cusum_silent_witness:
  "cusum_onsets ref_lib (1/2) 5 12 (replicate 180 (3/20)) = Inr []"
  by (rule cusum_silent) (auto intro: exI[of _ "3/20"])

text \<open>
  The shape classifier looks at the shape and not at the level: without a cap, adding a constant
  to the whole window never changes the class, and the classifier returns a class for every window.
\<close>

theorem classify_level:
  assumes "stats_api lib"
  shows "classify lib (map (\<lambda>v. v + c) x) onset_idx None = classify lib x onset_idx None \<and>
    (\<exists>s. classify lib x onset_idx cap = Inr s)"
  using stats_api.classify_level_invariant[OF assms] stats_api.classify_total[OF assms] by simp

theorem classify_level_witness:
  "classify ref_lib (map (\<lambda>v. v + 7) [0,0,0,0,0,0,0,0,0,0,6,6,6,0,0,0,0,0]) 10 None = Inr Burst"
proof -
  have "classify ref_lib [0,0,0,0,0,0,0,0,0,0,6,6,6,0,0,0,0,0] 10 None = Inr Burst" by code_simp
  then show ?thesis by (simp only: classify_level[OF ref.stats_api_axioms, THEN conjunct1])
qed

text \<open>
  A forecast is meant: when \<open>forecast_to_limit\<close> returns a time, it lies between 0 and 3600
  seconds, the fitted slope is strictly positive, and the line from the last sample with that slope
  reaches the limit exactly then.
\<close>

theorem forecast_meaningful:
  assumes "stats_api lib" and "forecast_to_limit lib x limit tail = Inr (Some eta)"
  shows "0 \<le> eta \<and> eta \<le> 3600 \<and> x \<noteq> [] \<and>
    (\<exists>slope y0. slope > 1 / 1000000000 \<and> last x + slope * (eta / DT_S) = limit \<and>
      np_polyfit1 lib (np_arange (length (py_tail (min tail (length x)) x)))
        (py_tail (min tail (length x)) x) = Inr (slope, y0))"
  by (rule stats_api.forecast_reaches_limit[OF assms])

theorem forecast_meaningful_witness:
  "forecast_to_limit ref_lib [0, 1, 2] 10 24 = Inr (Some 40) \<and> 0 \<le> (40::real) \<and>
   (\<exists>slope y0. slope > 1 / 1000000000 \<and> last [0, 1, 2] + slope * (40 / DT_S) = 10)"
proof -
  have f: "forecast_to_limit ref_lib [0, 1, 2] 10 24 = Inr (Some 40)"
    by (simp add: forecast_to_limit_def np_arange_def upt_rec numeral_nat ref_polyfit1_def ref_corr_def
        devs_def ref_mean_def dotp_def nan_less_def DT_S_def)
  then show ?thesis using forecast_meaningful[OF ref.stats_api_axioms f] by auto
qed

text \<open>
  The warm-up does not protect the reported index: on this window the alarm comes after the twelve
  samples of the warm-up, but the walk back enters it and the reported onset is a warm-up sample.
\<close>

theorem cusum_flags_warmup:
  "cusum_default ref_lib (replicate 11 0 @ [1, 2, 2, 2, 2]) =
     Inr [\<lparr>o_idx = 11, o_direction = Up, o_zpeak = 1700000\<rparr>,
          \<lparr>o_idx = 11, o_direction = Up, o_zpeak = 583100\<rparr>]"
proof -
  have z: "cusum_z ref_lib 12 (replicate 11 0 @ [1, 2, 2, 2, 2])
    = Inr (replicate 11 0 @ [1000000, 1700000, 1190000, 833000, 583100])"
    by (rule cusum_z_eval[where base = "replicate 11 0 @ [3/10, 81/100, 1167/1000, 14169/10000,
          159183/100000]" and med = 0 and mad = 0
          and resid = "replicate 11 0 @ [1, 17/10, 119/100, 833/1000, 5831/10000]"
          and prefix = "replicate 11 0 @ [1, 17/10, 119/100, 833/1000, 5831/10000]"];
        (simp only: ref_lib_sel)?; code_simp)
  show ?thesis unfolding cusum_default_def by (subst cusum_onsets_eq[OF z]) code_simp+
qed

text \<open>
  An upward onset may carry a negative peak: the sum that grew while the detector was disarmed
  fires at a later, falling sample, whose negative z-score is reported as the peak of an onset "up".
\<close>

theorem cusum_up_with_negative_peak:
  "cusum_default ref_lib (replicate 12 0 @ [1, 100, 3021/100, 30]) =
     Inr [\<lparr>o_idx = 12, o_direction = Up, o_zpeak = 1000000\<rparr>,
          \<lparr>o_idx = 15, o_direction = Up, o_zpeak = -210000\<rparr>]"
proof -
  have z: "cusum_z ref_lib 12 (replicate 12 0 @ [1, 100, 3021/100, 30])
    = Inr (replicate 12 0 @ [1000000, 99700000, 0, -210000])"
    by (rule cusum_z_eval[where base = "replicate 12 0 @ [3/10, 3021/100, 3021/100, 30147/1000]"
          and med = 0 and mad = 0
          and resid = "replicate 12 0 @ [1, 997/10, 0, -21/100]"
          and prefix = "replicate 12 0 @ [1, 997/10, 0, -21/100]"];
        (simp only: ref_lib_sel)?; code_simp)
  show ?thesis unfolding cusum_default_def by (subst cusum_onsets_eq[OF z]) code_simp+
qed

end
