(* ===== verification/Lagcorr.thy ===== *)
theory Lagcorr
  imports Detectors
begin

text \<open>
  \<open>correlation/engine/lagcorr.py\<close>: the correlation of two signals at a lag, the profile over the
  configured lags, the choice of direction and the adjacent-lag support.  The lemmas bound every
  coefficient, say which lags a window can carry, and show that the direction is the one of the
  strongest coefficient and turns around with the arguments.
\<close>

definition LAGS_S :: "int list" where
  "LAGS_S = [0, 5, 15, 30, 60, 120]"

type_synonym lagprofile = "(int \<times> real) list"

definition znorm :: "numlib \<Rightarrow> real list \<Rightarrow> real list" where
  "znorm lib x = (let sd = np_std lib x;
     d = (case sd of None \<Rightarrow> 1 | Some s \<Rightarrow> if s > 1 / 1000000000 then s else 1)
   in map (\<lambda>v. (v - np_mean lib x) / d) x)"

definition corr_at_lag :: "numlib \<Rightarrow> real list \<Rightarrow> real list \<Rightarrow> nat \<Rightarrow> real res" where
  "corr_at_lag lib src dst lag_samples =
     (let a = (if lag_samples > 0 then py_drop_last lag_samples src else src);
          b = (if lag_samples > 0 then drop lag_samples dst else dst) in
      if length a < 12 \<or> nan_less (np_std lib a) (1 / 1000000000) \<or> nan_less (np_std lib b) (1 / 1000000000)
      then Inr 0
      else rbind (if nan_greater (map_option abs (st_skew lib a)) 2 \<or> nan_greater (map_option abs (st_skew lib b)) 2
                  then st_spearmanr lib a b else st_pearsonr lib a b)
             (\<lambda>r. Inr (case r of None \<Rightarrow> 0 | Some v \<Rightarrow> v)))"

text \<open>\<open>int(round(lag_s / DT_S))\<close>; the lag is skipped when \<open>ls \<ge> len(src) - 12\<close>, an \<open>int\<close> comparison.\<close>

definition lag_samples_of :: "int \<Rightarrow> nat" where
  "lag_samples_of lag_s = nat (py_round (of_int lag_s / DT_S))"

definition usable_lags :: "nat \<Rightarrow> int list" where
  "usable_lags n = filter (\<lambda>lag_s. \<not> int (lag_samples_of lag_s) \<ge> int n - 12) LAGS_S"

definition lag_profile :: "numlib \<Rightarrow> real list \<Rightarrow> real list \<Rightarrow> lagprofile res" where
  "lag_profile lib src dst =
     rtrav (\<lambda>lag_s. rbind (corr_at_lag lib (znorm lib src) (znorm lib dst) (lag_samples_of lag_s))
        (\<lambda>r. Inr (lag_s, r))) (usable_lags (length src))"

record directed =
  d_forward :: bool
  d_r :: real
  d_lag_s :: int
  d_profile :: lagprofile

definition peak_abs :: "lagprofile \<Rightarrow> int \<times> real" where
  "peak_abs prof = py_max_default (\<lambda>kv. \<bar>snd kv\<bar>) (0, 0) prof"

definition best_directed :: "numlib \<Rightarrow> real list \<Rightarrow> real list \<Rightarrow> directed res" where
  "best_directed lib srcv dstv =
     (let n = min (length srcv) (length dstv); s = py_tail n srcv; d = py_tail n dstv in
      rbind (lag_profile lib s d) (\<lambda>fwd. rbind (lag_profile lib d s) (\<lambda>rev.
        let fbest = peak_abs fwd; rbest = peak_abs rev in
        if \<bar>snd rbest\<bar> > \<bar>snd fbest\<bar> + 1 / 1000000000
        then Inr \<lparr>d_forward = False, d_r = snd rbest, d_lag_s = fst rbest, d_profile = rev\<rparr>
        else Inr \<lparr>d_forward = True, d_r = snd fbest, d_lag_s = fst fbest, d_profile = fwd\<rparr>)))"

definition index_of :: "'a list \<Rightarrow> 'a \<Rightarrow> nat" where
  "index_of xs x = length (takeWhile (\<lambda>y. y \<noteq> x) xs)"

definition adjacent_support :: "lagprofile \<Rightarrow> int \<Rightarrow> real \<Rightarrow> bool" where
  "adjacent_support profile peak_lag r_floor =
     (let lags = sort (map fst profile) in
      if peak_lag \<notin> set lags then False
      else let i = index_of lags peak_lag;
               neighbors = map ((!) lags) (filter (\<lambda>j. j < length lags) ((if i = 0 then [] else [i - 1]) @ [i + 1]))
           in list_ex (\<lambda>n. \<bar>the (map_of profile n)\<bar> \<ge> r_floor) neighbors)"

subsection \<open>Lags and windows\<close>

lemma lag_samples_LAGS: "map lag_samples_of LAGS_S = [0, 1, 3, 6, 12, 24]"
  by code_simp

lemma lag_samples_mult: "lag_s \<in> set LAGS_S \<Longrightarrow> lag_s = 5 * int (lag_samples_of lag_s)"
proof -
  have "list_all (\<lambda>l. l = 5 * int (lag_samples_of l)) LAGS_S" by code_simp
  then show "lag_s \<in> set LAGS_S \<Longrightarrow> ?thesis" by (simp add: list_all_iff)
qed

lemma usable_lagsD: "lag_s \<in> set (usable_lags n) \<Longrightarrow> lag_s \<in> set LAGS_S \<and> lag_samples_of lag_s + 12 < n"
  by (auto simp: usable_lags_def)

lemma distinct_usable_lags: "distinct (usable_lags n)" and sorted_usable_lags: "sorted (usable_lags n)"
proof -
  have "distinct LAGS_S \<and> sorted LAGS_S" by (simp add: LAGS_S_def)
  then show "distinct (usable_lags n)" "sorted (usable_lags n)"
    by (simp_all add: usable_lags_def sorted_filter[where f = "\<lambda>x. x", simplified])
qed

lemma length_znorm [simp]: "length (znorm lib x) = length x"
  by (simp add: znorm_def Let_def)

lemma lag_profile_keys: "lag_profile lib src dst = Inr prof \<Longrightarrow> map fst prof = usable_lags (length src)"
  unfolding lag_profile_def by (drule rtrav_map[where g = fst and h = "\<lambda>l. l"]) (auto simp: res_simps)

lemma lag_profile_short: "length src \<le> 12 \<Longrightarrow> lag_profile lib src dst = Inr []"
  by (simp add: lag_profile_def usable_lags_def filter_empty_conv)

lemma lag_profile_nonneg: "lag_profile lib src dst = Inr prof \<Longrightarrow> (l, r) \<in> set prof \<Longrightarrow> 0 \<le> l"
proof -
  assume "lag_profile lib src dst = Inr prof" "(l, r) \<in> set prof"
  then have "l \<in> set (usable_lags (length src))" by (metis fst_conv image_eqI lag_profile_keys list.set_map)
  then show "0 \<le> l" using usable_lagsD[of l "length src"] by (auto simp: LAGS_S_def)
qed

lemma peak_abs_in: "prof \<noteq> [] \<Longrightarrow> peak_abs prof \<in> set prof"
  unfolding peak_abs_def by (rule py_max_default_in)

lemma peak_abs_ge: "(l, r) \<in> set prof \<Longrightarrow> \<bar>r\<bar> \<le> \<bar>snd (peak_abs prof)\<bar>"
  unfolding peak_abs_def using py_max_default_ge[of "(l, r)" prof "\<lambda>kv. \<bar>snd kv\<bar>"] by simp

lemma peak_abs_le: "0 \<le> c \<Longrightarrow> (\<And>l r. (l, r) \<in> set prof \<Longrightarrow> \<bar>r\<bar> \<le> c) \<Longrightarrow> \<bar>snd (peak_abs prof)\<bar> \<le> c"
  using peak_abs_in[of prof] by (cases "prof = []") (auto simp: peak_abs_def py_max_default_def prod_eq_iff, metis prod.collapse)

context stats_api begin

lemma corr_at_lag_range:
  assumes "length src = length dst"
  shows "\<exists>r. corr_at_lag lib src dst ls = Inr r \<and> \<bar>r\<bar> \<le> 1"
proof -
  define a b where "a = (if ls > 0 then py_drop_last ls src else src)" and "b = (if ls > 0 then drop ls dst else dst)"
  have len: "length a = length b" using assms by (simp add: a_def b_def length_py_drop_last)
  show ?thesis
  proof (cases "length a < 12 \<or> nan_less (np_std lib a) (1 / 1000000000) \<or> nan_less (np_std lib b) (1 / 1000000000)")
    case True
    then show ?thesis by (simp add: corr_at_lag_def a_def b_def Let_def)
  next
    case False
    then have "2 \<le> length a" by simp
    from spearman_range[OF len this] pearson_range[OF len this]
    obtain r where "(if nan_greater (map_option abs (st_skew lib a)) 2 \<or> nan_greater (map_option abs (st_skew lib b)) 2
        then st_spearmanr lib a b else st_pearsonr lib a b) = Inr r" "\<forall>v. r = Some v \<longrightarrow> \<bar>v\<bar> \<le> 1"
      by (metis (full_types))
    with False show ?thesis
      by (auto simp: corr_at_lag_def a_def[symmetric] b_def[symmetric] Let_def split: option.splits)
  qed
qed

lemma lag_profile_range:
  assumes "length src = length dst"
  shows "\<exists>prof. lag_profile lib src dst = Inr prof \<and> (\<forall>(l, r) \<in> set prof. \<bar>r\<bar> \<le> 1)"
proof -
  let ?f = "\<lambda>lag_s. rbind (corr_at_lag lib (znorm lib src) (znorm lib dst) (lag_samples_of lag_s))
        (\<lambda>r. Inr (lag_s, r))"
  have f: "\<exists>r. ?f l = Inr (l, r) \<and> \<bar>r\<bar> \<le> 1" for l
    using corr_at_lag_range[of "znorm lib src" "znorm lib dst"] assms by (metis length_znorm rbind.simps(2))
  then obtain prof where prof: "lag_profile lib src dst = Inr prof"
    unfolding lag_profile_def using rtrav_total[of "usable_lags (length src)" ?f] by blast
  moreover have "\<bar>r\<bar> \<le> 1" if "(l, r) \<in> set prof" for l r
    using rtrav_elem[OF prof[unfolded lag_profile_def] that] f by (metis Pair_inject sum.inject(2))
  ultimately show ?thesis by blast
qed

text \<open>A flat signal correlates with nothing.\<close>

lemma lag_profile_flat:
  assumes flat: "\<And>v. v \<in> set src \<Longrightarrow> v = c" and prof: "lag_profile lib src dst = Inr prof"
    and e: "(l, r) \<in> set prof"
  shows "r = 0"
proof -
  obtain d where d: "\<And>v. v \<in> set (znorm lib src) \<Longrightarrow> v = d"
    using flat by (force simp: znorm_def Let_def)
  have zero: "corr_at_lag lib (znorm lib src) b ls = Inr 0" for b ls
  proof -
    define a where "a = (if ls > 0 then py_drop_last ls (znorm lib src) else znorm lib src)"
    have "np_std lib a = Some 0" if "\<not> length a < 12"
    proof (rule std_const[of _ d])
      show "a \<noteq> []" using that by auto
      show "x = d" if "x \<in> set a" for x
        using that d by (auto simp: a_def py_drop_last_def dest: in_set_takeD split: if_splits)
    qed
    then show ?thesis by (cases "length a < 12") (simp_all add: corr_at_lag_def a_def[symmetric] nan_less_def Let_def)
  qed
  from rtrav_elem[OF prof[unfolded lag_profile_def] e] show ?thesis by (auto simp: zero)
qed

lemma best_directed_peak:
  assumes "srcv \<noteq> []" "dstv \<noteq> []"
  shows "\<exists>d. best_directed lib srcv dstv = Inr d \<and> \<bar>d_r d\<bar> \<le> 1 \<and> 0 \<le> d_lag_s d \<and>
    map fst (d_profile d) = usable_lags (min (length srcv) (length dstv)) \<and>
    (d_profile d \<noteq> [] \<longrightarrow> (d_lag_s d, d_r d) \<in> set (d_profile d)) \<and>
    (\<forall>(l, r) \<in> set (d_profile d). \<bar>r\<bar> \<le> \<bar>d_r d\<bar>)"
proof -
  define n where "n = min (length srcv) (length dstv)"
  let ?s = "py_tail n srcv" and ?d = "py_tail n dstv"
  have len: "length ?s = n" "length ?d = n" using assms by (auto simp: length_py_tail n_def)
  obtain fwd where fwd: "lag_profile lib ?s ?d = Inr fwd" "\<forall>(l, r) \<in> set fwd. \<bar>r\<bar> \<le> 1"
    using lag_profile_range[of ?s ?d] len by auto
  obtain rev where rev: "lag_profile lib ?d ?s = Inr rev" "\<forall>(l, r) \<in> set rev. \<bar>r\<bar> \<le> 1"
    using lag_profile_range[of ?d ?s] len by auto
  have peak: "\<bar>snd (peak_abs p)\<bar> \<le> 1" "0 \<le> fst (peak_abs p)" "map fst p = usable_lags n"
    "p \<noteq> [] \<longrightarrow> (fst (peak_abs p), snd (peak_abs p)) \<in> set p"
    "\<forall>(l, r) \<in> set p. \<bar>r\<bar> \<le> \<bar>snd (peak_abs p)\<bar>"
    if "p = fwd \<or> p = rev" for p
  proof -
    from that have r: "\<forall>(l, r) \<in> set p. \<bar>r\<bar> \<le> 1"
      and k: "\<exists>x y. length x = n \<and> lag_profile lib x y = Inr p" using fwd rev len by blast+
    show "\<bar>snd (peak_abs p)\<bar> \<le> 1" by (rule peak_abs_le) (use r in auto)
    from k show "map fst p = usable_lags n" using lag_profile_keys by blast
    show "0 \<le> fst (peak_abs p)"
      using k peak_abs_in[of p] lag_profile_nonneg
      by (cases "p = []") (auto simp: peak_abs_def py_max_default_def, metis prod.collapse)
    show "p \<noteq> [] \<longrightarrow> (fst (peak_abs p), snd (peak_abs p)) \<in> set p" using peak_abs_in[of p] by simp
    show "\<forall>(l, r) \<in> set p. \<bar>r\<bar> \<le> \<bar>snd (peak_abs p)\<bar>" using peak_abs_ge by blast
  qed
  show ?thesis
    using fwd(1) rev(1) peak[of fwd] peak[of rev]
    by (simp add: best_directed_def Let_def n_def[symmetric])
qed

end

subsection \<open>Adjacent support\<close>

lemma index_of_nth: "x \<in> set xs \<Longrightarrow> index_of xs x < length xs \<and> xs ! index_of xs x = x"
  unfolding index_of_def
  by (induction xs) auto

text \<open>Two lags are adjacent in a profile when no lag of the profile lies strictly between them.\<close>

definition adjacent_lags :: "lagprofile \<Rightarrow> int \<Rightarrow> int \<Rightarrow> bool" where
  "adjacent_lags profile l l' \<longleftrightarrow> l \<in> fst ` set profile \<and> l' \<in> fst ` set profile \<and> l \<noteq> l' \<and>
     (\<forall>m \<in> fst ` set profile. \<not> (min l l' < m \<and> m < max l l'))"

lemma sorted_adjacent_iff:
  assumes xs: "sorted xs" "distinct xs" and i: "i < length xs" and j: "j < length (xs :: int list)"
  shows "(\<exists>m \<in> set xs. min (xs ! i) (xs ! j) < m \<and> m < max (xs ! i) (xs ! j)) \<longleftrightarrow> i + 1 < j \<or> j + 1 < i"
proof -
  have mono: "xs ! p < xs ! q \<longleftrightarrow> p < q" if "p < length xs" "q < length xs" for p q
    using xs that sorted_nth_mono[of xs] nth_eq_iff_index_eq[of xs] by (metis leD le_less linorder_cases)
  have "(\<exists>m \<in> set xs. min (xs ! i) (xs ! j) < m \<and> m < max (xs ! i) (xs ! j))
      \<longleftrightarrow> (\<exists>p < length xs. min (xs ! i) (xs ! j) < xs ! p \<and> xs ! p < max (xs ! i) (xs ! j))"
    by (metis in_set_conv_nth)
  also have "\<dots> \<longleftrightarrow> (\<exists>p < length xs. (i < p \<or> j < p) \<and> (p < i \<or> p < j))"
    using mono i j by (simp add: min_less_iff_disj less_max_iff_disj cong: conj_cong)
  also have "\<dots> \<longleftrightarrow> i + 1 < j \<or> j + 1 < i"
  proof
    assume "i + 1 < j \<or> j + 1 < i"
    then show "\<exists>p < length xs. (i < p \<or> j < p) \<and> (p < i \<or> p < j)"
    proof
      assume "i + 1 < j" then show ?thesis using j by (intro exI[of _ "i + 1"]) simp
    next
      assume "j + 1 < i" then show ?thesis using i by (intro exI[of _ "j + 1"]) simp
    qed
  qed auto
  finally show ?thesis .
qed

lemma adjacent_support_iff:
  assumes "distinct (map fst profile)"
  shows "adjacent_support profile l c \<longleftrightarrow>
    (\<exists>l' r. (l', r) \<in> set profile \<and> adjacent_lags profile l l' \<and> \<bar>r\<bar> \<ge> c)"
proof (cases "l \<in> fst ` set profile")
  case False
  then show ?thesis by (auto simp: adjacent_support_def adjacent_lags_def Let_def)
next
  case True
  define xs where "xs = sort (map fst profile)"
  define i where "i = index_of xs l"
  have xs: "sorted xs" "distinct xs" "set xs = fst ` set profile" using assms by (simp_all add: xs_def)
  have i: "i < length xs" "xs ! i = l" using index_of_nth[of l xs] True xs(3) by (simp_all add: i_def)
  have adj: "adjacent_lags profile l (xs ! j) \<longleftrightarrow> j = i + 1 \<or> i = j + 1" if "j < length xs" for j
    using sorted_adjacent_iff[OF xs(1,2) i(1) that] nth_eq_iff_index_eq[OF xs(2) i(1) that] that i True nth_mem[OF that]
    unfolding adjacent_lags_def xs(3)[symmetric] by (auto simp: not_less)
  have val: "the (map_of profile m) = r \<longleftrightarrow> (m, r) \<in> set profile" if "m \<in> set xs" for m r
  proof -
    from that obtain v where "(m, v) \<in> set profile" using xs(3) by auto
    then have "map_of profile m = Some v" using assms by simp
    then show ?thesis using map_of_eq_Some_iff[OF assms, of m r] by auto
  qed
  have "adjacent_support profile l c \<longleftrightarrow> (\<exists>j < length xs. (j = i + 1 \<or> i = j + 1) \<and> \<bar>the (map_of profile (xs ! j))\<bar> \<ge> c)"
    using True by (auto simp: adjacent_support_def Let_def xs_def[symmetric] i_def[symmetric] xs(3)[symmetric] list_ex_iff)
  also have "\<dots> \<longleftrightarrow> (\<exists>m \<in> set xs. adjacent_lags profile l m \<and> \<bar>the (map_of profile m)\<bar> \<ge> c)"
    unfolding Bex_def in_set_conv_nth using adj by blast
  also have "\<dots> \<longleftrightarrow> (\<exists>l' r. (l', r) \<in> set profile \<and> adjacent_lags profile l l' \<and> \<bar>r\<bar> \<ge> c)"
    (is "?L \<longleftrightarrow> ?R")
  proof
    assume ?L
    then obtain m where m: "m \<in> set xs" "adjacent_lags profile l m" "\<bar>the (map_of profile m)\<bar> \<ge> c" by blast
    with val[of m "the (map_of profile m)"] show ?R by blast
  next
    assume ?R
    then obtain l' r where m: "(l', r) \<in> set profile" "adjacent_lags profile l l'" "\<bar>r\<bar> \<ge> c" by blast
    then have "l' \<in> set xs" using xs(3) by force
    with val[of l' r] m show ?L by blast
  qed
  finally show ?thesis .
qed

subsection \<open>The profile, from the samples\<close>

text \<open>
  The coefficient without slices: the samples \<open>u ! t\<close> against \<open>v ! (t + k)\<close>.  And the profile over the
  lags that leave more than twelve such pairs.
\<close>

definition standard :: "numlib \<Rightarrow> real list \<Rightarrow> real list" where
  "standard lib x = (case np_std lib x of
     Some s \<Rightarrow> if 1 / 1000000000 < s then map (\<lambda>v. (v - np_mean lib x) / s) x else map (\<lambda>v. v - np_mean lib x) x
   | None \<Rightarrow> map (\<lambda>v. v - np_mean lib x) x)"

definition flat :: "numlib \<Rightarrow> real list \<Rightarrow> bool" where
  "flat lib x \<longleftrightarrow> (case np_std lib x of Some s \<Rightarrow> s < 1 / 1000000000 | None \<Rightarrow> False)"

definition heavy_tailed :: "numlib \<Rightarrow> real list \<Rightarrow> bool" where
  "heavy_tailed lib x \<longleftrightarrow> (case st_skew lib x of Some s \<Rightarrow> s < - 2 \<or> 2 < s | None \<Rightarrow> False)"

definition lagged_coeff :: "numlib \<Rightarrow> real list \<Rightarrow> real list \<Rightarrow> nat \<Rightarrow> real" where
  "lagged_coeff lib u v k =
     (let us = map (\<lambda>t. u ! t) [0..<length u - k]; vs = map (\<lambda>t. v ! (t + k)) [0..<length u - k] in
      if flat lib us \<or> flat lib vs then 0
      else case (if heavy_tailed lib us \<or> heavy_tailed lib vs then st_spearmanr lib us vs else st_pearsonr lib us vs) of
        Inr (Some r) \<Rightarrow> r | _ \<Rightarrow> 0)"

definition lagged_profile :: "numlib \<Rightarrow> real list \<Rightarrow> real list \<Rightarrow> lagprofile" where
  "lagged_profile lib u v = map (\<lambda>l. (l, lagged_coeff lib u v (nat l div 5)))
     (filter (\<lambda>l. l + 60 < 5 * int (length u)) [0, 5, 15, 30, 60, 120])"

definition strength :: "lagprofile \<Rightarrow> real" where
  "strength p = Max (insert 0 ((\<lambda>(l, r). \<bar>r\<bar>) ` set p))"

lemma znorm_standard: "znorm lib x = standard lib x"
  by (simp add: znorm_def standard_def Let_def split: option.split)

lemma length_standard [simp]: "length (standard lib x) = length x"
  by (simp add: standard_def split: option.split)

lemma usable_lags_seconds: "usable_lags n = filter (\<lambda>l. l + 60 < 5 * int n) [0, 5, 15, 30, 60, 120]"
proof -
  have "usable_lags n = filter (\<lambda>l. l + 60 < 5 * int n) LAGS_S" unfolding usable_lags_def
    by (intro filter_cong refl) (use lag_samples_mult in fastforce)
  then show ?thesis by (simp add: LAGS_S_def)
qed

lemma strength_peak: "strength p = \<bar>snd (peak_abs p)\<bar>"
  unfolding strength_def
proof (rule Max_eqI)
  show "y \<le> \<bar>snd (peak_abs p)\<bar>" if "y \<in> insert 0 ((\<lambda>(l, r). \<bar>r\<bar>) ` set p)" for y
    using that peak_abs_ge by fastforce
  show "\<bar>snd (peak_abs p)\<bar> \<in> insert 0 ((\<lambda>(l, r). \<bar>r\<bar>) ` set p)"
    using peak_abs_in[of p] by (cases "p = []") (auto simp: peak_abs_def[of "[]"] py_max_default_def split_beta intro: image_eqI[of _ _ "peak_abs p"])
qed simp

lemma peak_abs_first:
  "if p = [] then peak_abs p = (0, 0)
   else \<exists>pre post. p = pre @ peak_abs p # post \<and> (\<forall>(l, r) \<in> set pre. \<bar>r\<bar> < \<bar>snd (peak_abs p)\<bar>)"
proof (cases p)
  case (Cons x xs)
  then show ?thesis using py_max_by_first[of x xs "\<lambda>kv. \<bar>snd kv\<bar>"] by (simp add: peak_abs_def py_max_default_def split_beta)
qed (simp add: peak_abs_def py_max_default_def)

context stats_api begin

lemma corr_at_lag_lagged:
  assumes "length u = length v" "k + 12 < length u"
  shows "corr_at_lag lib u v k = Inr (lagged_coeff lib u v k)"
proof -
  let ?us = "map (\<lambda>t. u ! t) [0..<length u - k]" and ?vs = "map (\<lambda>t. v ! (t + k)) [0..<length u - k]"
  have us: "(if k > 0 then py_drop_last k u else u) = ?us"
    by (rule nth_equalityI) (auto simp: py_drop_last_def)
  have vs: "(if k > 0 then drop k v else v) = ?vs"
    by (rule nth_equalityI) (auto simp: assms(1) add.commute)
  have len: "length ?us = length ?vs" "2 \<le> length ?us" "\<not> length ?us < 12" using assms(2) by simp_all
  have fl: "nan_less (np_std lib x) (1 / 1000000000) \<longleftrightarrow> flat lib x" for x
    by (simp add: nan_less_def flat_def split: option.split)
  have hv: "nan_greater (map_option abs (st_skew lib x)) 2 \<longleftrightarrow> heavy_tailed lib x" for x
    by (auto simp: nan_greater_def heavy_tailed_def split: option.split)
  obtain r where r: "(if heavy_tailed lib ?us \<or> heavy_tailed lib ?vs then st_spearmanr lib ?us ?vs else st_pearsonr lib ?us ?vs) = Inr r"
    using spearman_range[OF len(1,2)] pearson_range[OF len(1,2)] by (metis (full_types))
  show ?thesis
    unfolding corr_at_lag_def us vs lagged_coeff_def fl hv Let_def r using len(3)
    by (cases r) auto
qed

lemma lag_profile_lagged:
  assumes "length u = length v"
  shows "lag_profile lib u v = Inr (lagged_profile lib (standard lib u) (standard lib v))"
proof -
  have "rtrav (\<lambda>l. rbind (corr_at_lag lib (standard lib u) (standard lib v) (lag_samples_of l)) (\<lambda>r. Inr (l, r))) ls =
      Inr (map (\<lambda>l. (l, lagged_coeff lib (standard lib u) (standard lib v) (nat l div 5))) ls)"
    if "set ls \<subseteq> set (usable_lags (length u))" for ls
    using that
  proof (induction ls)
    case (Cons l ls)
    then have l: "lag_samples_of l + 12 < length u" "l = 5 * int (lag_samples_of l)"
      using usable_lagsD[of l "length u"] lag_samples_mult[of l] by auto
    from l(2) have "nat l div 5 = lag_samples_of l" by linarith
    then show ?case using Cons corr_at_lag_lagged[of "standard lib u" "standard lib v" "lag_samples_of l"] l(1) assms by simp
  qed simp
  from this[OF order_refl] show ?thesis
    by (simp add: lag_profile_def lagged_profile_def znorm_standard usable_lags_seconds)
qed

end

subsection \<open>Properties\<close>

text \<open>
  C35. The directed correlation of two non-empty windows, of any two lengths: the windows are cut to the
  latest samples of the shorter one and standardised; at every configured lag that leaves more than twelve
  pairs of samples, a direction has the coefficient of the leader's samples with the follower's that many
  seconds later (Pearson's, Spearman's for a heavy tail, 0 for a flat window).  \<open>best_directed\<close> returns the
  profile of the first argument leading, unless the other direction is stronger by more than \<open>10^-9\<close>; its
  coefficient is the strongest of that profile in absolute value, at the first lag that has it, and lies in \<open>[-1, 1]\<close>.
\<close>

theorem best_directed_correct:
  assumes "stats_api lib" and "srcv \<noteq> []" and "dstv \<noteq> []"
  shows "\<exists>d. best_directed lib srcv dstv = Inr d \<and>
    (let n = min (length srcv) (length dstv);
         a = standard lib (drop (length srcv - n) srcv); b = standard lib (drop (length dstv - n) dstv);
         fwd = lagged_profile lib a b; bwd = lagged_profile lib b a
     in d_profile d = (if d_forward d then fwd else bwd) \<and>
        (d_forward d \<longleftrightarrow> strength bwd \<le> strength fwd + 1 / 1000000000) \<and>
        map fst (d_profile d) = filter (\<lambda>l. l + 60 < 5 * int n) [0, 5, 15, 30, 60, 120]) \<and>
    \<bar>d_r d\<bar> = strength (d_profile d) \<and> \<bar>d_r d\<bar> \<le> 1 \<and> 0 \<le> d_lag_s d \<and>
    (if d_profile d = [] then d_lag_s d = 0 \<and> d_r d = 0
     else \<exists>pre post. d_profile d = pre @ (d_lag_s d, d_r d) # post \<and> (\<forall>(l, r) \<in> set pre. \<bar>r\<bar> < \<bar>d_r d\<bar>))"
proof -
  define n where "n = min (length srcv) (length dstv)"
  define u v where "u = drop (length srcv - n) srcv" and "v = drop (length dstv - n) dstv"
  let ?fwd = "lagged_profile lib (standard lib u) (standard lib v)" and ?bwd = "lagged_profile lib (standard lib v) (standard lib u)"
  have n: "0 < n" "n \<le> length srcv" "n \<le> length dstv" using assms(2,3) by (simp_all add: n_def)
  then have len: "length u = n" "length v = n" and tail: "py_tail n srcv = u" "py_tail n dstv = v"
    by (simp_all add: u_def v_def py_tail_def)
  have prof: "lag_profile lib u v = Inr ?fwd" "lag_profile lib v u = Inr ?bwd"
    using stats_api.lag_profile_lagged[OF assms(1)] len by simp_all
  obtain d where d: "best_directed lib srcv dstv = Inr d" "\<bar>d_r d\<bar> \<le> 1" "0 \<le> d_lag_s d"
    using stats_api.best_directed_peak[OF assms] by blast
  define best where "best = (if strength ?bwd \<le> strength ?fwd + 1 / 1000000000 then ?fwd else ?bwd)"
  have eq: "d = \<lparr>d_forward = (strength ?bwd \<le> strength ?fwd + 1 / 1000000000), d_r = snd (peak_abs best), d_lag_s = fst (peak_abs best),
      d_profile = best\<rparr>"
    using d(1) by (auto simp: best_directed_def Let_def n_def[symmetric] tail prof strength_peak best_def split: if_splits)
  have key: "map fst best = filter (\<lambda>l. l + 60 < 5 * int n) [0, 5, 15, 30, 60, 120]"
    by (simp add: best_def lagged_profile_def comp_def len)
  have tie: "if best = [] then peak_abs best = (0, 0)
      else \<exists>pre post. best = pre @ peak_abs best # post \<and> (\<forall>(l, r) \<in> set pre. \<bar>r\<bar> < \<bar>snd (peak_abs best)\<bar>)"
    by (rule peak_abs_first)
  show ?thesis
  proof (rule exI[of _ d], intro conjI)
    show "let n = min (length srcv) (length dstv);
         a = standard lib (drop (length srcv - n) srcv); b = standard lib (drop (length dstv - n) dstv);
         fwd = lagged_profile lib a b; bwd = lagged_profile lib b a
     in d_profile d = (if d_forward d then fwd else bwd) \<and>
        (d_forward d \<longleftrightarrow> strength bwd \<le> strength fwd + 1 / 1000000000) \<and>
        map fst (d_profile d) = filter (\<lambda>l. l + 60 < 5 * int n) [0, 5, 15, 30, 60, 120]"
      unfolding Let_def n_def[symmetric] u_def[symmetric] v_def[symmetric] using key by (simp add: eq best_def)
    show "\<bar>d_r d\<bar> = strength (d_profile d)" by (simp add: eq strength_peak)
    show "if d_profile d = [] then d_lag_s d = 0 \<and> d_r d = 0
     else \<exists>pre post. d_profile d = pre @ (d_lag_s d, d_r d) # post \<and> (\<forall>(l, r) \<in> set pre. \<bar>r\<bar> < \<bar>d_r d\<bar>)"
      using tie by (simp add: eq split: if_splits)
  qed (use d in simp_all)
qed

text \<open>A burst and the same burst one sample later, the example of the witness.\<close>

definition leading :: "real list" where
  "leading = [0, 5, 0, 0, -5, 1, -1, 1, -1, 1, -1, 0, 0, 0]"

definition following :: "real list" where
  "following = [0, 0, 5, 0, 0, -5, 1, -1, 1, -1, 1, -1, 0, 0]"

lemma example_standard:
  "standard ref_lib leading = map (\<lambda>x. x / 2) leading" "standard ref_lib following = map (\<lambda>x. x / 2) following"
proof -
  have q: "sqrt 4 = 2" by (rule real_sqrt_unique) simp_all
  show "standard ref_lib leading = map (\<lambda>x. x / 2) leading" "standard ref_lib following = map (\<lambda>x. x / 2) following"
    by (simp_all add: standard_def leading_def following_def ref_std_def ref_mean_def devs_def dotp_def q)
qed

lemma ref_coeff:
  assumes "us = map (\<lambda>t. u ! t) [0..<length u - k]" "vs = map (\<lambda>t. v ! (t + k)) [0..<length u - k]" "2 \<le> length us"
    and "sum_list us = 0" "sum_list vs = 0" "sum_list (map (\<lambda>x. x ^ 3) us) = 0" "sum_list (map (\<lambda>x. x ^ 3) vs) = 0"
    and "dotp us us = 14" "dotp vs vs = 14" "length us \<le> 14"
  shows "lagged_coeff ref_lib u v k = dotp us vs / 14"
proof -
  have q: "sqrt (14 * 14) = (14 :: real)" by (rule real_sqrt_unique) simp_all
  have l: "length vs = length us" using assms(1,2) by simp
  have m: "devs us = us" "devs vs = vs" using assms(4,5) by (simp_all add: devs_def ref_mean_def)
  have "1 \<le> 14 / real (length us)" using assms(3,10) by (subst le_divide_eq_1_pos) auto
  then have s: "\<not> sqrt (14 / real (length us)) < 1 / 1000000000" using real_sqrt_ge_one[of "14 / real (length us)"] by linarith
  have "us \<noteq> []" "vs \<noteq> []" using assms(3) l by auto
  then show ?thesis unfolding lagged_coeff_def Let_def assms(1,2)[symmetric]
    using assms(3,6-9) s by (simp add: flat_def heavy_tailed_def ref_std_def ref_skew_def ref_pearsonr_def ref_corr_def m l q)
qed

lemma example_profile:
  "lagged_profile ref_lib (standard ref_lib leading) (standard ref_lib following) = [(0, - (5 / 28)), (5, 1)]"
  "lagged_profile ref_lib (standard ref_lib following) (standard ref_lib leading) = [(0, - (5 / 28)), (5, 9 / 56)]"
proof -
  let ?l = "map (\<lambda>x. x / 2) leading" and ?f = "map (\<lambda>x. x / 2) following"
  have c: "lagged_coeff ref_lib ?l ?f 0 = - (5 / 28)" "lagged_coeff ref_lib ?l ?f 1 = 1"
    "lagged_coeff ref_lib ?f ?l 0 = - (5 / 28)" "lagged_coeff ref_lib ?f ?l 1 = 9 / 56"
    by (subst ref_coeff[OF refl refl]; simp add: leading_def following_def dotp_def upt_rec numeral_nat power3_eq_cube)+
  have "length leading = 14" "length following = 14" by (simp_all add: leading_def following_def)
  then show "lagged_profile ref_lib (standard ref_lib leading) (standard ref_lib following) = [(0, - (5 / 28)), (5, 1)]"
    "lagged_profile ref_lib (standard ref_lib following) (standard ref_lib leading) = [(0, - (5 / 28)), (5, 9 / 56)]"
    using c by (simp_all add: lagged_profile_def example_standard)
qed

theorem best_directed_correct_witness:
  "\<exists>d. best_directed ref_lib (7 # following) leading = Inr d \<and> \<not> d_forward d \<and> d_lag_s d = 5 \<and> d_r d = 1"
proof -
  have ne: "7 # following \<noteq> []" "leading \<noteq> []" by (simp_all add: leading_def)
  have len: "length leading = 14" "length following = 14" by (simp_all add: leading_def following_def)
  have cut: "drop (length (7 # following) - min (length (7 # following)) (length leading)) (7 # following) = following"
    "drop (length leading - min (length (7 # following)) (length leading)) leading = leading" by (simp_all add: len)
  obtain d where d: "best_directed ref_lib (7 # following) leading = Inr d"
    "d_profile d = (if d_forward d then [(0, - (5 / 28)), (5, 9 / 56)] else [(0, - (5 / 28)), (5, 1)])"
    "d_forward d \<longleftrightarrow> strength [(0, - (5 / 28)), (5, 1)] \<le> strength [(0, - (5 / 28)), (5, 9 / 56)] + 1 / 1000000000"
    "\<bar>d_r d\<bar> = strength (d_profile d)" "if d_profile d = [] then d_lag_s d = 0 \<and> d_r d = 0
     else \<exists>pre post. d_profile d = pre @ (d_lag_s d, d_r d) # post \<and> (\<forall>(l, r) \<in> set pre. \<bar>r\<bar> < \<bar>d_r d\<bar>)"
    using best_directed_correct[OF ref.stats_api_axioms ne, unfolded Let_def cut example_profile] by (elim exE conjE) (rule that; assumption)
  have nf: "\<not> d_forward d" using d(3) by (simp add: strength_def)
  then have p: "d_profile d = [(0, - (5 / 28)), (5, 1)]" using d(2) by simp
  then have "\<bar>d_r d\<bar> = 1" using d(4) by (simp add: strength_def)
  moreover have "(d_lag_s d, d_r d) \<in> set (d_profile d)"
  proof -
    have "d_profile d \<noteq> []" using p by simp
    then obtain pre post where e: "d_profile d = pre @ (d_lag_s d, d_r d) # post" using d(5) by auto
    show ?thesis unfolding e by simp
  qed
  ultimately have "d_lag_s d = 5 \<and> d_r d = 1" unfolding p by auto
  with d(1) nf show ?thesis by (intro exI[of _ d]) simp
qed

text \<open>
  Direction is relative to the argument order: evaluating a pair in both orders never yields two
  backward results; when the two results name opposite leaders they carry the same coefficient, lag
  and profile, and when both claim to lead, their strengths differ by at most \<open>10^-9\<close>.
\<close>

theorem best_directed_swap:
  assumes "best_directed lib a b = Inr d" and "best_directed lib b a = Inr e"
  shows "(d_forward d \<or> d_forward e) \<and>
    (d_forward d \<noteq> d_forward e \<longrightarrow> d_r d = d_r e \<and> d_lag_s d = d_lag_s e \<and> d_profile d = d_profile e) \<and>
    (d_forward d \<and> d_forward e \<longrightarrow> \<bar>\<bar>d_r d\<bar> - \<bar>d_r e\<bar>\<bar> \<le> 1 / 1000000000)"
proof -
  let ?n = "min (length a) (length b)"
  obtain fwd rev where p: "lag_profile lib (py_tail ?n a) (py_tail ?n b) = Inr fwd"
    "lag_profile lib (py_tail ?n b) (py_tail ?n a) = Inr rev"
    using assms(1) by (auto simp: best_directed_def Let_def res_simps)
  define eps :: real where "eps = 1 / 1000000000"
  have near: "\<not> x + eps < y \<Longrightarrow> \<not> y + eps < x \<Longrightarrow> \<bar>x - y\<bar> \<le> eps" for x y :: real by arith
  have pos: "0 < eps" by (simp add: eps_def)
  show ?thesis
    using assms pos
    unfolding best_directed_def Let_def min.commute[of "length b"] p rbind.simps eps_def[symmetric]
    by (auto split: if_splits intro: near)
qed

theorem best_directed_swap_witness:
  "\<exists>d e. best_directed ref_lib [1, 2] [3, 4, 5] = Inr d \<and> best_directed ref_lib [3, 4, 5] [1, 2] = Inr e \<and>
     (d_forward d \<or> d_forward e)"
proof -
  have d: "best_directed ref_lib [1, 2] [3, 4, 5] = Inr \<lparr>d_forward = True, d_r = 0, d_lag_s = 0, d_profile = []\<rparr>"
    and e: "best_directed ref_lib [3, 4, 5] [1, 2] = Inr \<lparr>d_forward = True, d_r = 0, d_lag_s = 0, d_profile = []\<rparr>"
    by (simp_all add: best_directed_def Let_def lag_profile_short length_py_tail peak_abs_def py_max_default_def)
  show ?thesis using best_directed_swap[OF d e] d e by blast
qed

text \<open>
  \<open>adjacent_support\<close> decides its specification: with pairwise distinct lags, it holds exactly when
  some lag next to the peak in the profile (no profiled lag strictly between the two) carries an
  absolute coefficient of at least the floor.
\<close>

theorem adjacent_support_spec:
  assumes "distinct (map fst profile)"
  shows "adjacent_support profile peak_lag c \<longleftrightarrow>
    (\<exists>l r. (l, r) \<in> set profile \<and> adjacent_lags profile peak_lag l \<and> \<bar>r\<bar> \<ge> c)"
  by (rule adjacent_support_iff[OF assms])

theorem adjacent_support_spec_witness:
  "adjacent_support [(0, 1/2), (5, 9/10), (15, 1/10)] 5 (4/10)"
proof -
  have d: "distinct (map fst [(0::int, 1/2::real), (5, 9/10), (15, 1/10)])" by simp
  show ?thesis
    by (rule adjacent_support_spec[OF d, THEN iffD2], rule exI[of _ 0], rule exI[of _ "1/2"])
       (simp add: adjacent_lags_def)
qed

text \<open>
  A zero-lag tie is not broken in favour of a lagged pair: when the zero lag is as strong as every
  other entry of both profiles, the answer is "forward at lag 0".
\<close>

theorem zero_lag_tie_is_forward:
  assumes "length a = length b" "lag_profile lib a b = Inr ((0, r0) # fwd)" "lag_profile lib b a = Inr bwd"
    and "\<forall>(l, r) \<in> set fwd \<union> set bwd. \<bar>r\<bar> \<le> \<bar>r0\<bar>"
  shows "best_directed lib a b
    = Inr \<lparr>d_forward = True, d_r = r0, d_lag_s = 0, d_profile = (0, r0) # fwd\<rparr>"
proof -
  have "py_max_by (\<lambda>kv. \<bar>snd kv\<bar>) (0::int, r0) xs = (0, r0)" if "\<forall>(l, r) \<in> set xs. \<bar>r\<bar> \<le> \<bar>r0\<bar>" for xs
    using that by (induction xs) auto
  then have "peak_abs ((0, r0) # fwd) = (0, r0)" using assms(4) by (simp add: peak_abs_def py_max_default_def)
  moreover have "\<bar>snd (peak_abs bwd)\<bar> \<le> \<bar>r0\<bar>" by (rule peak_abs_le) (use assms(4) in auto)
  moreover have "py_tail (length a) b = b" using py_tail_self[of b] assms(1) by simp
  ultimately show ?thesis using assms(2,3) assms(1)[symmetric] by (simp add: best_directed_def Let_def)
qed

end
