(* ===== verification/Gate.thy ===== *)
theory Gate
  imports Lagcorr
begin

text \<open>
  \<open>correlation/engine/gate.py\<close>: the physical witness of a pair of pods and the three-clause gate an
  edge must pass.  The gate is proved to decide the clauses of its module header on positive peaks and to
  reject every negative one, and PSI co-pressure is proved to have no say in it.
\<close>

definition R_PEAK :: real where
  "R_PEAK = 6 / 10"

definition R_ADJ :: real where
  "R_ADJ = 4 / 10"

definition TEMPORAL_TOL_S :: real where
  "TEMPORAL_TOL_S = 10"

definition COUPLING_KINDS :: "string list" where
  "COUPLING_KINDS = [''ebpf'', ''pvc'']"

record witness =
  ebpf_edges :: "(pod \<times> pod) set"
  psi_copressure :: "pod set set"
  shared_relation :: "pod set set"

definition kinds :: "witness \<Rightarrow> pod \<Rightarrow> pod \<Rightarrow> string list" where
  "kinds w src dst =
     (if (src, dst) \<in> ebpf_edges w \<or> (dst, src) \<in> ebpf_edges w then [''ebpf''] else []) @
     (if {src, dst} \<in> psi_copressure w then [''psi''] else []) @
     (if {src, dst} \<in> shared_relation w then [''pvc''] else [])"

definition couples :: "witness \<Rightarrow> pod \<Rightarrow> pod \<Rightarrow> bool" where
  "couples w src dst = list_ex (\<lambda>k. k \<in> set COUPLING_KINDS) (kinds w src dst)"

record edge =
  e_src :: pod
  e_dst :: pod
  e_r :: real
  e_lag_s :: int
  e_evidence :: "string list"

definition accept_edge :: "pod \<Rightarrow> pod \<Rightarrow> real \<Rightarrow> int \<Rightarrow> lagprofile \<Rightarrow> witness \<Rightarrow> (pod \<rightharpoonup> real) \<Rightarrow> edge option" where
  "accept_edge src dst r lag_s profile w onset_s =
     (if r < R_PEAK \<or> \<not> adjacent_support profile lag_s R_ADJ then None
      else let ks = kinds w src dst in
        if \<not> list_ex (\<lambda>k. k \<in> set COUPLING_KINDS) ks then None
        else let t_src = onset_s src; t_dst = onset_s dst;
                 evidence = [''stat''] @ ks @ (if t_src \<noteq> None \<and> t_dst \<noteq> None then [''temporal''] else []);
                 e = \<lparr>e_src = src, e_dst = dst, e_r = round3 r, e_lag_s = lag_s, e_evidence = evidence\<rparr>
             in case (t_src, t_dst) of
                  (Some ts, Some td) \<Rightarrow>
                    if ts > td + TEMPORAL_TOL_S then None
                    else if lag_s > 0 \<and> td - ts > 4 * of_int lag_s + TEMPORAL_TOL_S then None
                    else Some e
                | _ \<Rightarrow> Some e)"

subsection \<open>The witness\<close>

lemma couples_iff:
  "couples w a b \<longleftrightarrow> (a, b) \<in> ebpf_edges w \<or> (b, a) \<in> ebpf_edges w \<or> {a, b} \<in> shared_relation w"
  by (auto simp: couples_def kinds_def COUPLING_KINDS_def)

lemma kinds_sym: "kinds w a b = kinds w b a"
  by (auto simp: kinds_def insert_commute)

lemma couples_sym: "couples w a b = couples w b a"
  by (simp add: couples_def kinds_sym[of w a])

lemma kinds_physical: "set (kinds w a b) \<subseteq> {''ebpf'', ''psi'', ''pvc''}"
  by (auto simp: kinds_def)

lemma couples_psi [simp]: "couples (w\<lparr>psi_copressure := P\<rparr>) a b = couples w a b"
  by (simp add: couples_iff)

lemma accept_edge_couples: "accept_edge a b r l p w os = Some e \<Longrightarrow> couples w a b"
  by (auto simp: accept_edge_def couples_def Let_def split: if_splits)

lemma accept_edge_fields:
  assumes "accept_edge a b r l p w os = Some e"
  shows "e_src e = a" "e_dst e = b" "e_r e = round3 r" "e_lag_s e = l" "R_PEAK \<le> r"
    "e_evidence e = [''stat''] @ kinds w a b @ (if os a \<noteq> None \<and> os b \<noteq> None then [''temporal''] else [])"
  using assms by (auto simp: accept_edge_def Let_def split: if_splits option.splits)

lemma accept_edge_strength:
  assumes "accept_edge a b r l p w os = Some e" "\<bar>r\<bar> \<le> 1"
  shows "R_PEAK \<le> e_r e \<and> e_r e \<le> 1"
  using accept_edge_fields[OF assms(1)] assms(2) round3_ge_milli[of 600 r] round3_le_1[of r]
  by (simp add: R_PEAK_def)

subsection \<open>The contract of the gate\<close>

text \<open>
  The three clauses of the header of \<open>gate.py\<close>, stated without reference to how the code tests them: the
  correlation clause, on the absolute value of the peak and over its neighbourhood in the profile; the coupling
  clause over the witness relations; the temporal clause over the two onsets where both are known, with the slack
  of the constants.  \<open>MASTER_PLAN.md\<close> 1.4.4 differs
  in the second clause: it also takes PSI co-pressure alone for a witness, which the header excludes.
\<close>

definition gate_contract :: "pod \<Rightarrow> pod \<Rightarrow> real \<Rightarrow> int \<Rightarrow> lagprofile \<Rightarrow> witness \<Rightarrow> (pod \<rightharpoonup> real) \<Rightarrow> bool" where
  "gate_contract src dst r lag_s profile w onset_s \<longleftrightarrow>
     (\<bar>r\<bar> \<ge> 6/10 \<and> (\<exists>l' r'. (l', r') \<in> set profile \<and> adjacent_lags profile lag_s l' \<and> \<bar>r'\<bar> \<ge> 4/10)) \<and>
     ((src, dst) \<in> ebpf_edges w \<or> (dst, src) \<in> ebpf_edges w \<or> {src, dst} \<in> shared_relation w) \<and>
     (\<forall>ts td. onset_s src = Some ts \<and> onset_s dst = Some td \<longrightarrow>
        ts \<le> td + 10 \<and> (lag_s > 0 \<longrightarrow> td - ts \<le> 4 * of_int lag_s + 10))"

text \<open>
  C17. What the evidence gate accepts, against the header of its module: on a profile with distinct lags
  \<open>accept_edge\<close> returns an edge exactly when the three clauses of the header hold, the temporal one
  with the slack of the code (ten seconds, and four times the lag), and, which the header does not ask, the peak is positive; an anti-correlated pair is rejected whatever its evidence.  The edge is
  the pair in that direction, with the lag of the peak, the coefficient rounded to three decimals and the
  evidence that was found.
\<close>

theorem accept_edge_decides_contract:
  assumes "distinct (map fst profile)"
  shows "accept_edge src dst r lag_s profile w onset_s =
    (if gate_contract src dst r lag_s profile w onset_s \<and> 0 < r
     then Some \<lparr>e_src = src, e_dst = dst, e_r = round3 r, e_lag_s = lag_s,
            e_evidence = [''stat''] @ kinds w src dst @
              (if onset_s src \<noteq> None \<and> onset_s dst \<noteq> None then [''temporal''] else [])\<rparr>
     else None)"
proof -
  have "adjacent_support profile lag_s (4/10) \<longleftrightarrow>
      (\<exists>l' r'. (l', r') \<in> set profile \<and> adjacent_lags profile lag_s l' \<and> \<bar>r'\<bar> \<ge> 4/10)"
    by (rule adjacent_support_iff[OF assms])
  moreover have "list_ex (\<lambda>k. k \<in> set COUPLING_KINDS) (kinds w src dst) \<longleftrightarrow>
      (src, dst) \<in> ebpf_edges w \<or> (dst, src) \<in> ebpf_edges w \<or> {src, dst} \<in> shared_relation w"
    using couples_iff[of w src dst] by (simp add: couples_def)
  ultimately show ?thesis
    unfolding accept_edge_def gate_contract_def R_PEAK_def R_ADJ_def TEMPORAL_TOL_S_def Let_def
    by (cases "onset_s src"; cases "onset_s dst") (auto simp: not_less not_le)
qed

theorem accept_edge_decides_contract_witness:
  "accept_edge ''a'' ''b'' (9/10) 15 [(5, 1/2), (15, 9/10)] \<lparr>ebpf_edges = {(''a'', ''b'')},
       psi_copressure = {}, shared_relation = {}\<rparr> [''a'' \<mapsto> 300, ''b'' \<mapsto> 315]
   = Some \<lparr>e_src = ''a'', e_dst = ''b'', e_r = 9/10, e_lag_s = 15,
       e_evidence = [''stat'', ''ebpf'', ''temporal'']\<rparr>"
proof -
  let ?p = "[(5::int, 1/2::real), (15, 9/10)]"
  have d: "distinct (map fst ?p)" by simp
  have "adjacent_lags ?p 15 5" by (auto simp: adjacent_lags_def)
  then have "gate_contract ''a'' ''b'' (9/10) 15 ?p \<lparr>ebpf_edges = {(''a'', ''b'')},
       psi_copressure = {}, shared_relation = {}\<rparr> [''a'' \<mapsto> 300, ''b'' \<mapsto> 315]"
    unfolding gate_contract_def by (intro conjI exI[of _ 5] exI[of _ "1/2"]) auto
  moreover have "round3 (9/10) = 9/10" using round3_milli[of 900] by simp
  ultimately show ?thesis
    using accept_edge_decides_contract[OF d] by (simp add: kinds_def)
qed

text \<open>
  PSI co-pressure only corroborates: whatever set of co-pressure pairs the witness carries, the
  gate accepts the same pairs, and the accepted edge differs at most in its evidence list.
\<close>

theorem psi_only_corroborates:
  "(accept_edge src dst r lag_s profile (w\<lparr>psi_copressure := P\<rparr>) onset_s = None) =
     (accept_edge src dst r lag_s profile w onset_s = None) \<and>
   map_option (\<lambda>e. e\<lparr>e_evidence := filter (\<lambda>k. k \<noteq> ''psi'') (e_evidence e)\<rparr>)
       (accept_edge src dst r lag_s profile (w\<lparr>psi_copressure := P\<rparr>) onset_s) =
   map_option (\<lambda>e. e\<lparr>e_evidence := filter (\<lambda>k. k \<noteq> ''psi'') (e_evidence e)\<rparr>)
       (accept_edge src dst r lag_s profile w onset_s)"
proof -
  have ex: "list_ex (\<lambda>k. k \<in> set COUPLING_KINDS) (kinds (w\<lparr>psi_copressure := P\<rparr>) src dst)
      = list_ex (\<lambda>k. k \<in> set COUPLING_KINDS) (kinds w src dst)"
    using couples_psi[of P w src dst] by (simp add: couples_def)
  have fl: "filter (\<lambda>k. k \<noteq> ''psi'') (kinds (w\<lparr>psi_copressure := P\<rparr>) src dst)
      = filter (\<lambda>k. k \<noteq> ''psi'') (kinds w src dst)"
    by (simp add: kinds_def)
  show ?thesis
    unfolding accept_edge_def Let_def ex by (auto simp: fl split: option.splits)
qed

end
