(* ===== verification/Source.thy ===== *)
theory Source
  imports Gate
begin

text \<open>
  The source-attribution helpers of \<open>correlation/engine/pipeline.py\<close>: \<open>_edge_pref\<close>, \<open>_writer_edge\<close>
  and the de-duplication of the collected edges.  A source edge is fixed in direction, needs a disk
  or network coupling, a positive coefficient with adjacent support and onsets in order; a flat write
  signal never yields one.  De-duplication keeps one edge of every unordered pair, and a
  write-evidenced edge always beats a stall-to-stall edge.
\<close>

definition R_SRC :: real where
  "R_SRC = 5 / 10"

definition edge_pref :: "edge \<Rightarrow> nat \<times> real" where
  "edge_pref e = (if ''write'' \<in> set (e_evidence e) then 1 else 0, \<bar>e_r e\<bar>)"

definition writer_edge :: "numlib \<Rightarrow> pod \<Rightarrow> pod \<Rightarrow> real list \<Rightarrow> real list \<Rightarrow> witness \<Rightarrow>
    real option \<Rightarrow> real option \<Rightarrow> edge option res" where
  "writer_edge lib src dst wsrc vdst w w_onset v_onset =
     (let ks = filter (\<lambda>k. k \<in> {''ebpf'', ''pvc''}) (kinds w src dst) in
      if ks = [] then Inr None
      else rbind (lag_profile lib wsrc vdst) (\<lambda>prof.
        case prof of [] \<Rightarrow> Inr None
        | p # ps \<Rightarrow>
            (let best = py_max_by snd p ps; lag = fst best; r = snd best in
             if r < R_SRC \<or> \<not> adjacent_support prof lag R_ADJ then Inr None
             else if (case (w_onset, v_onset) of (Some a, Some b) \<Rightarrow> a > b + TEMPORAL_TOL_S | _ \<Rightarrow> False)
             then Inr None
             else let temporal = (w_onset \<noteq> None \<and> v_onset \<noteq> None) in
               Inr (Some \<lparr>e_src = src, e_dst = dst, e_r = round3 r, e_lag_s = lag,
                 e_evidence = [''write''] @ ks @ (if temporal then [''temporal''] else [])\<rparr>))))"

definition pair_of :: "edge \<Rightarrow> pod set" where
  "pair_of e = {e_src e, e_dst e}"

text \<open>The loop over \<open>chosen\<close>, a dictionary with frozensets as keys: lines 186 to 191.\<close>

definition keep_edge :: "(pod set \<times> edge) list \<Rightarrow> edge \<Rightarrow> (pod set \<times> edge) list" where
  "keep_edge chosen e = (case map_of chosen (pair_of e) of
     None \<Rightarrow> AList.update (pair_of e) e chosen
   | Some c \<Rightarrow> if edge_pref c < edge_pref e then AList.update (pair_of e) e chosen else chosen)"

definition dedup_edges :: "edge list \<Rightarrow> edge list" where
  "dedup_edges es = sort_key (\<lambda>e. (e_src e, e_dst e)) (map snd (foldl keep_edge [] es))"

subsection \<open>Lemmas\<close>

lemma source_kinds: "filter (\<lambda>k. k \<in> {''ebpf'', ''pvc''}) (kinds w a b) = [] \<longleftrightarrow> \<not> couples w a b"
  by (auto simp: filter_empty_conv couples_def COUPLING_KINDS_def list_ex_iff)

lemma writer_edge_fields:
  assumes "writer_edge lib a b wa vb w ow ov = Inr (Some e)"
  obtains prof p ps where "couples w a b" "lag_profile lib wa vb = Inr prof" "prof = p # ps"
    "e_src e = a" "e_dst e = b" "e_lag_s e = fst (py_max_by snd p ps)"
    "e_r e = round3 (snd (py_max_by snd p ps))" "R_SRC \<le> snd (py_max_by snd p ps)"
    "adjacent_support prof (fst (py_max_by snd p ps)) R_ADJ"
    "\<And>s t. ow = Some s \<Longrightarrow> ov = Some t \<Longrightarrow> s \<le> t + TEMPORAL_TOL_S"
    "''write'' \<in> set (e_evidence e)"
proof -
  obtain prof where prof: "lag_profile lib wa vb = Inr prof" and c: "couples w a b"
    using assms source_kinds[of w a b] by (auto simp: writer_edge_def res_simps Let_def split: if_splits)
  obtain p ps where ne: "prof = p # ps" using assms prof
    by (cases prof) (auto simp: writer_edge_def Let_def split: if_splits)
  show ?thesis
    using assms that[OF c prof ne] prof
    by (auto simp: writer_edge_def Let_def ne not_less split: if_splits option.splits)
qed

lemma writer_edge_strength:
  assumes "writer_edge lib a b wa vb w ow ov = Inr (Some e)" "stats_api lib" "length wa = length vb"
  shows "R_SRC \<le> e_r e \<and> e_r e \<le> 1"
proof -
  from assms(1) obtain prof p ps where prof: "lag_profile lib wa vb = Inr prof" "prof = p # ps"
    and r: "e_r e = round3 (snd (py_max_by snd p ps))" "R_SRC \<le> snd (py_max_by snd p ps)"
    by (rule writer_edge_fields)
  let ?b = "py_max_by snd p ps"
  have "?b \<in> set prof" using py_max_by_in[of snd p ps] prof(2) by simp
  then have "(fst ?b, snd ?b) \<in> set prof" by simp
  then have "\<bar>snd ?b\<bar> \<le> 1"
    using stats_api.lag_profile_range[OF assms(2,3)] prof(1) by (metis (no_types, lifting) case_prodD sum.inject(2))
  then show ?thesis using r round3_ge_milli[of 500 "snd ?b"] round3_le_1[of "snd ?b"] by (simp add: R_SRC_def)
qed

lemma writer_edge_total:
  "stats_api lib \<Longrightarrow> length wa = length vb \<Longrightarrow> \<exists>o'. writer_edge lib a b wa vb w ow ov = Inr o'"
  using stats_api.lag_profile_range[of lib wa vb]
  by (auto simp: writer_edge_def Let_def split: list.splits option.splits)

lemma keep_edge_inv:
  "distinct (map fst (foldl keep_edge [] es)) \<and>
   (\<forall>k e. map_of (foldl keep_edge [] es) k = Some e \<longrightarrow> k = pair_of e \<and> e \<in> set es) \<and>
   (\<forall>e \<in> set es. \<exists>c. map_of (foldl keep_edge [] es) (pair_of e) = Some c \<and> edge_pref e \<le> edge_pref c)"
proof (induction es rule: rev_induct)
  case (snoc x es)
  let ?ch = "foldl keep_edge [] es"
  have eq: "foldl keep_edge [] (es @ [x]) = keep_edge ?ch x" by simp
  show ?case
  proof (cases "\<exists>c. map_of ?ch (pair_of x) = Some c \<and> \<not> edge_pref c < edge_pref x")
    case True
    then have same: "keep_edge ?ch x = ?ch" by (auto simp: keep_edge_def)
    from True have "\<exists>c. map_of ?ch (pair_of x) = Some c \<and> edge_pref x \<le> edge_pref c" by (simp add: not_less)
    then show ?thesis unfolding eq same using snoc.IH by auto
  next
    case False
    then have upd: "keep_edge ?ch x = AList.update (pair_of x) x ?ch"
      by (auto simp: keep_edge_def split: option.splits)
    have pref: "edge_pref c \<le> edge_pref x" if "map_of ?ch (pair_of x) = Some c" for c
      using False that by (auto intro: less_imp_le)
    have rep: "\<exists>c. map_of (AList.update (pair_of x) x ?ch) (pair_of e) = Some c \<and> edge_pref e \<le> edge_pref c"
      if "e \<in> set (es @ [x])" for e
    proof (cases "pair_of e = pair_of x")
      case True
      have "edge_pref e \<le> edge_pref x" if e: "e \<in> set es"
      proof -
        obtain c where "map_of ?ch (pair_of x) = Some c" "edge_pref e \<le> edge_pref c"
          using snoc.IH e True by auto
        then show ?thesis using pref order_trans by blast
      qed
      then have "edge_pref e \<le> edge_pref x" using that by auto
      then show ?thesis using True by (simp add: update_conv')
    next
      case False
      then show ?thesis using snoc.IH that by (auto simp: update_conv')
    qed
    then show ?thesis unfolding eq upd using snoc.IH by (auto simp: distinct_update update_conv')
  qed
qed simp

lemma dedup_set: "e \<in> set (dedup_edges es) \<longleftrightarrow> map_of (foldl keep_edge [] es) (pair_of e) = Some e"
proof -
  have inv: "distinct (map fst (foldl keep_edge [] es))"
    "\<And>k e. map_of (foldl keep_edge [] es) k = Some e \<Longrightarrow> k = pair_of e" using keep_edge_inv[of es] by blast+
  have "e \<in> set (dedup_edges es) \<longleftrightarrow> (\<exists>k. (k, e) \<in> set (foldl keep_edge [] es))"
    by (force simp: dedup_edges_def)
  also have "\<dots> \<longleftrightarrow> (\<exists>k. map_of (foldl keep_edge [] es) k = Some e)" using inv(1) by simp
  also have "\<dots> \<longleftrightarrow> map_of (foldl keep_edge [] es) (pair_of e) = Some e" using inv(2) by blast
  finally show ?thesis .
qed

lemma dedup_subset: "e \<in> set (dedup_edges es) \<Longrightarrow> e \<in> set es"
  using keep_edge_inv[of es] by (auto simp: dedup_set)

lemma dedup_nonempty: "es \<noteq> [] \<Longrightarrow> dedup_edges es \<noteq> []"
proof -
  assume "es \<noteq> []"
  then obtain c where "map_of (foldl keep_edge [] es) (pair_of (hd es)) = Some c"
    using keep_edge_inv[of es] by (meson list.set_sel(1))
  then have "c \<in> set (dedup_edges es)" using keep_edge_inv[of es] by (auto simp: dedup_set)
  then show ?thesis by auto
qed

lemma dedup_distinct: "distinct (map pair_of (dedup_edges es))"
proof -
  let ?ch = "foldl keep_edge [] es"
  have inv: "distinct (map fst ?ch)" "\<And>k e. map_of ?ch k = Some e \<Longrightarrow> k = pair_of e"
    using keep_edge_inv[of es] by blast+
  have "map pair_of (map snd ?ch) = map fst ?ch" using inv by (auto simp: map_of_eq_Some_iff)
  then have "distinct (map pair_of (map snd ?ch))" using inv(1) by (simp only:)
  then show ?thesis by (simp add: dedup_edges_def distinct_sort_key_fst)
qed

subsection \<open>Properties\<close>

definition strongest :: "lagprofile \<Rightarrow> int \<Rightarrow> real \<Rightarrow> bool" where
  "strongest prof l r \<longleftrightarrow> (l, r) \<in> set prof \<and> (\<forall>(l', r') \<in> set prof. r' \<le> r)"

definition supported :: "lagprofile \<Rightarrow> int \<Rightarrow> real \<Rightarrow> bool" where
  "supported prof l r \<longleftrightarrow> r \<ge> 5/10 \<and>
     (\<exists>l' r'. (l', r') \<in> set prof \<and> adjacent_lags prof l l' \<and> \<bar>r'\<bar> \<ge> 4/10)"

lemma strongest_max: "strongest (p # ps) (fst (py_max_by snd p ps)) (snd (py_max_by snd p ps))"
  using py_max_by_in[of snd p ps] py_max_by_ge_base[of snd p ps] py_max_by_ge[of _ ps snd p]
  by (auto simp: strongest_def)

definition in_order :: "real option \<Rightarrow> real option \<Rightarrow> bool" where
  "in_order w_onset v_onset \<longleftrightarrow> (\<forall>s t. w_onset = Some s \<and> v_onset = Some t \<longrightarrow> s \<le> t + 10)"

lemma supported_iff:
  assumes "lag_profile lib a b = Inr prof"
  shows "supported prof l r \<longleftrightarrow> R_SRC \<le> r \<and> adjacent_support prof l R_ADJ"
proof -
  have "distinct (map fst prof)" using lag_profile_keys[OF assms] distinct_usable_lags by simp
  from adjacent_support_iff[OF this] show ?thesis by (simp add: supported_def R_SRC_def R_ADJ_def)
qed

text \<open>
  C36. The source rule decides its contract: on windows of one length it returns; an edge it returns
  runs from the writer to the staller, joins coupled pods, carries the write evidence, and its lag is
  that of a largest coefficient of the profile of the writer leading the staller, which is at least
  one half and has adjacent support, with the writer's onset at most ten seconds after the staller's.
  Conversely, for coupled pods with onsets in that order, an edge is returned when every largest
  coefficient is at least one half and has adjacent support.
\<close>

theorem writer_edge_contract:
  assumes "stats_api lib" and "length wsrc = length vdst"
  shows "\<exists>prof. lag_profile lib wsrc vdst = Inr prof \<and>
    (\<exists>o'. writer_edge lib src dst wsrc vdst w ow ov = Inr o') \<and>
    (\<forall>e. writer_edge lib src dst wsrc vdst w ow ov = Inr (Some e) \<longrightarrow>
       couples w src dst \<and> in_order ow ov \<and> e_src e = src \<and> e_dst e = dst \<and>
       ''write'' \<in> set (e_evidence e) \<and>
       (\<exists>r. strongest prof (e_lag_s e) r \<and> supported prof (e_lag_s e) r \<and> e_r e = round3 r)) \<and>
    (couples w src dst \<and> in_order ow ov \<and> prof \<noteq> [] \<and>
       (\<forall>l r. strongest prof l r \<longrightarrow> supported prof l r) \<longrightarrow>
     (\<exists>e. writer_edge lib src dst wsrc vdst w ow ov = Inr (Some e)))"
proof -
  obtain prof where prof: "lag_profile lib wsrc vdst = Inr prof"
    using stats_api.lag_profile_range[OF assms] by blast
  note sup = supported_iff[OF prof]
  have sound: "couples w src dst \<and> in_order ow ov \<and> e_src e = src \<and> e_dst e = dst \<and>
       ''write'' \<in> set (e_evidence e) \<and>
       (\<exists>r. strongest prof (e_lag_s e) r \<and> supported prof (e_lag_s e) r \<and> e_r e = round3 r)"
    if "writer_edge lib src dst wsrc vdst w ow ov = Inr (Some e)" for e
    using that
  proof (cases rule: writer_edge_fields)
    case (1 prof' p ps)
    then have "prof = p # ps" using prof by simp
    then have "strongest prof (e_lag_s e) (snd (py_max_by snd p ps))"
      "supported prof (e_lag_s e) (snd (py_max_by snd p ps))"
      using strongest_max[of p ps] 1 prof unfolding sup by auto
    then show ?thesis using 1 by (auto simp: in_order_def TEMPORAL_TOL_S_def)
  qed
  have complete: "\<exists>e. writer_edge lib src dst wsrc vdst w ow ov = Inr (Some e)"
    if h: "couples w src dst" "in_order ow ov" "prof \<noteq> []" "\<forall>l r. strongest prof l r \<longrightarrow> supported prof l r"
  proof -
    obtain p ps where ne: "prof = p # ps" using h(3) by (cases prof) auto
    have "R_SRC \<le> snd (py_max_by snd p ps)" "adjacent_support prof (fst (py_max_by snd p ps)) R_ADJ"
      using h(4) strongest_max[of p ps] sup unfolding ne by blast+
    then show ?thesis using h(1,2) source_kinds[of w src dst] prof
      by (auto simp: writer_edge_def Let_def ne in_order_def TEMPORAL_TOL_S_def not_less split: option.splits)
  qed
  show ?thesis using prof sound complete writer_edge_total[OF assms] by blast
qed

theorem writer_edge_contract_witness:
  "\<exists>prof. lag_profile ref_lib [1, 2] [3, 4] = Inr prof \<and>
    (\<exists>o'. writer_edge ref_lib ''a'' ''b'' [1, 2] [3, 4]
       \<lparr>ebpf_edges = {(''a'', ''b'')}, psi_copressure = {}, shared_relation = {}\<rparr> None None = Inr o')"
proof -
  have "length [1, 2 :: real] = length [3, 4 :: real]" by simp
  from writer_edge_contract[OF ref.stats_api_axioms this] show ?thesis by blast
qed

text \<open>
  An idle writer is never a source: on windows of one length, a constant write signal yields no
  edge, whatever the staller's signal, the witness and the onsets.
\<close>

theorem idle_writer_no_edge:
  assumes "stats_api lib" and "length wsrc = length vdst" and "\<And>v. v \<in> set wsrc \<Longrightarrow> v = c"
  shows "writer_edge lib src dst wsrc vdst w ow ov = Inr None"
proof -
  obtain o' where o': "writer_edge lib src dst wsrc vdst w ow ov = Inr o'"
    using writer_edge_total[OF assms(1,2)] by blast
  show ?thesis
  proof (cases o')
    case (Some e)
    with o' have e: "writer_edge lib src dst wsrc vdst w ow ov = Inr (Some e)" by simp
    then show ?thesis
    proof (cases rule: writer_edge_fields)
      case (1 prof p ps)
      have "py_max_by snd p ps \<in> set prof" using py_max_by_in[of snd p ps] 1(3) by simp
      then have "snd (py_max_by snd p ps) = 0"
        using stats_api.lag_profile_flat[OF assms(1) assms(3) 1(2)] by (metis prod.collapse)
      with 1(8) show ?thesis by (simp add: R_SRC_def)
    qed
  qed (simp add: o')
qed

theorem idle_writer_no_edge_witness:
  "writer_edge ref_lib ''a'' ''b'' (replicate 20 7) (map real [0..<20])
     \<lparr>ebpf_edges = {(''a'', ''b'')}, psi_copressure = {}, shared_relation = {}\<rparr> None None = Inr None"
  by (rule idle_writer_no_edge[OF ref.stats_api_axioms, where c = 7]) auto

text \<open>
  C37. De-duplication keeps the best edge of every pair: the result is a subset of the collected edges
  with at most one edge per unordered pair, sorted by source and target; every collected edge is
  represented by one of its pair that is preferred at least as much, so a pair with a
  write-evidenced edge is represented by a write-evidenced edge.
\<close>

theorem dedup_edges_spec:
  "set (dedup_edges es) \<subseteq> set es \<and> distinct (map pair_of (dedup_edges es)) \<and>
   sorted (map (\<lambda>e. (e_src e, e_dst e)) (dedup_edges es)) \<and>
   (\<forall>e \<in> set es. \<exists>c \<in> set (dedup_edges es). pair_of c = pair_of e \<and> edge_pref e \<le> edge_pref c \<and>
      (''write'' \<in> set (e_evidence e) \<longrightarrow> ''write'' \<in> set (e_evidence c)))"
proof (intro conjI ballI subsetI)
  let ?ch = "foldl keep_edge [] es"
  have inv: "distinct (map fst ?ch)" "\<And>k e. map_of ?ch k = Some e \<Longrightarrow> k = pair_of e \<and> e \<in> set es"
    "\<And>e. e \<in> set es \<Longrightarrow> \<exists>c. map_of ?ch (pair_of e) = Some c \<and> edge_pref e \<le> edge_pref c"
    using keep_edge_inv[of es] by blast+
  show "e \<in> set es" if "e \<in> set (dedup_edges es)" for e using that by (rule dedup_subset)
  show "distinct (map pair_of (dedup_edges es))" by (rule dedup_distinct)
  show "sorted (map (\<lambda>e. (e_src e, e_dst e)) (dedup_edges es))" by (simp add: dedup_edges_def)
  fix e assume "e \<in> set es"
  then obtain c where c: "map_of ?ch (pair_of e) = Some c" "edge_pref e \<le> edge_pref c" using inv(3) by blast
  then have "pair_of c = pair_of e" using inv(2) by metis
  moreover have "''write'' \<in> set (e_evidence e) \<longrightarrow> ''write'' \<in> set (e_evidence c)"
    using c(2) by (auto simp: edge_pref_def split: if_splits)
  ultimately show "\<exists>c \<in> set (dedup_edges es). pair_of c = pair_of e \<and> edge_pref e \<le> edge_pref c \<and>
      (''write'' \<in> set (e_evidence e) \<longrightarrow> ''write'' \<in> set (e_evidence c))"
    using c by (intro bexI[of _ c]) (auto simp: dedup_set)
qed

theorem dedup_edges_spec_witness:
  "\<exists>c \<in> set (dedup_edges [\<lparr>e_src = ''a'', e_dst = ''b'', e_r = 1, e_lag_s = 5, e_evidence = [''stat'']\<rparr>,
       \<lparr>e_src = ''b'', e_dst = ''a'', e_r = 1/2, e_lag_s = 5, e_evidence = [''write'']\<rparr>]).
     ''write'' \<in> set (e_evidence c)"
  using dedup_edges_spec[of "[\<lparr>e_src = ''a'', e_dst = ''b'', e_r = 1, e_lag_s = 5, e_evidence = [''stat'']\<rparr>,
       \<lparr>e_src = ''b'', e_dst = ''a'', e_r = 1/2, e_lag_s = 5, e_evidence = [''write'']\<rparr>]"] by simp blast

end
