(* ===== verification/Digraph.thy ===== *)
theory Digraph
  imports Prelude
begin

text \<open>
  The interface to \<open>networkx.DiGraph\<close>, which is not part of the repository.  The engine builds a
  graph with \<open>add_edge\<close> and reads it with \<open>nodes\<close>, \<open>in\<close>, \<open>out_edges(data=True)\<close>,
  \<open>in_degree\<close> and \<open>number_of_edges\<close>; the model takes these operations as one record.  The
  locale \<open>digraph_api\<close> states what networkx documents of them over \<open>G.adj\<close>, the dictionary of
  dictionaries that represents a graph: \<open>add_edge\<close> inserts the missing end points, source first,
  and then stores the attributes under the target, every dictionary keeping insertion order.
  \<open>ref_nx\<close> is that representation itself.
\<close>

record eattr =
  a_weight :: real
  a_lag_s :: int
  a_evidence :: "string list"

type_synonym adjacency = "(pod \<times> (pod \<times> eattr) list) list"

record 'g nx =
  nx_new :: 'g
  nx_add_edge :: "'g \<Rightarrow> pod \<Rightarrow> pod \<Rightarrow> eattr \<Rightarrow> 'g"
  nx_adj :: "'g \<Rightarrow> adjacency"
  nx_nodes :: "'g \<Rightarrow> pod list"
  nx_has_node :: "'g \<Rightarrow> pod \<Rightarrow> bool"
  nx_out_edges :: "'g \<Rightarrow> pod \<Rightarrow> (pod \<times> pod \<times> eattr) list"
  nx_in_degree :: "'g \<Rightarrow> pod \<Rightarrow> nat"
  nx_number_of_edges :: "'g \<Rightarrow> nat"

definition adj_node :: "pod \<Rightarrow> adjacency \<Rightarrow> adjacency" where
  "adj_node n adj = (if n \<in> fst ` set adj then adj else adj @ [(n, [])])"

definition adj_put :: "pod \<Rightarrow> pod \<Rightarrow> eattr \<Rightarrow> adjacency \<Rightarrow> adjacency" where
  "adj_put u v a adj = (let adj' = adj_node v (adj_node u adj) in
     AList.update u (AList.update v a (dget adj' u [])) adj')"

definition adj_row :: "adjacency \<Rightarrow> pod \<Rightarrow> (pod \<times> pod \<times> eattr) list" where
  "adj_row adj n = map (\<lambda>(v, a). (n, v, a)) (dget adj n [])"

definition adj_in_degree :: "adjacency \<Rightarrow> pod \<Rightarrow> nat" where
  "adj_in_degree adj n = length (filter (\<lambda>(u, row). n \<in> fst ` set row) adj)"

definition adj_size :: "adjacency \<Rightarrow> nat" where
  "adj_size adj = sum_list (map (\<lambda>(u, row). length row) adj)"

locale digraph_api =
  fixes nx :: "'g nx"
  assumes adj_new: "nx_adj nx (nx_new nx) = []"
    and adj_add_edge: "nx_adj nx (nx_add_edge nx g u v a) = adj_put u v a (nx_adj nx g)"
    and nodes_adj: "nx_nodes nx g = map fst (nx_adj nx g)"
    and has_node_adj: "nx_has_node nx g n \<longleftrightarrow> n \<in> fst ` set (nx_adj nx g)"
    and out_edges_adj: "n \<in> fst ` set (nx_adj nx g) \<Longrightarrow> nx_out_edges nx g n = adj_row (nx_adj nx g) n"
    and in_degree_adj: "n \<in> fst ` set (nx_adj nx g) \<Longrightarrow> nx_in_degree nx g n = adj_in_degree (nx_adj nx g) n"
    and number_of_edges_adj: "nx_number_of_edges nx g = adj_size (nx_adj nx g)"

definition ref_nx :: "adjacency nx" where
  "ref_nx = \<lparr>nx_new = [], nx_add_edge = (\<lambda>g u v a. adj_put u v a g), nx_adj = (\<lambda>g. g),
     nx_nodes = map fst, nx_has_node = (\<lambda>g n. n \<in> fst ` set g), nx_out_edges = adj_row,
     nx_in_degree = adj_in_degree, nx_number_of_edges = adj_size\<rparr>"

interpretation rnx: digraph_api ref_nx
  by unfold_locales (simp_all add: ref_nx_def)

subsection \<open>Well-formed adjacency\<close>

definition wf_adj :: "adjacency \<Rightarrow> bool" where
  "wf_adj adj \<longleftrightarrow> distinct (map fst adj) \<and>
     (\<forall>(u, row) \<in> set adj. distinct (map fst row) \<and> fst ` set row \<subseteq> fst ` set adj)"

definition adj_edges :: "adjacency \<Rightarrow> (pod \<times> pod \<times> eattr) set" where
  "adj_edges adj = {(u, v, a). \<exists>row. (u, row) \<in> set adj \<and> (v, a) \<in> set row}"

lemma wf_adj_Nil [simp]: "wf_adj []"
  by (simp add: wf_adj_def)

lemma wf_adjI:
  "distinct (map fst adj) \<Longrightarrow> (\<And>u row. (u, row) \<in> set adj \<Longrightarrow> distinct (map fst row)) \<Longrightarrow>
   (\<And>u row v a. (u, row) \<in> set adj \<Longrightarrow> (v, a) \<in> set row \<Longrightarrow> v \<in> fst ` set adj) \<Longrightarrow> wf_adj adj"
  unfolding wf_adj_def by fastforce

lemma wf_adjD:
  assumes "wf_adj adj"
  shows "distinct (map fst adj)"
    and "(u, row) \<in> set adj \<Longrightarrow> distinct (map fst row)"
    and "(u, row) \<in> set adj \<Longrightarrow> (v, a) \<in> set row \<Longrightarrow> v \<in> fst ` set adj"
  using assms unfolding wf_adj_def by (simp, blast, force)

lemma in_adj_edges: "(u, v, a) \<in> adj_edges adj \<longleftrightarrow> (\<exists>row. (u, row) \<in> set adj \<and> (v, a) \<in> set row)"
  by (simp add: adj_edges_def)

lemma adj_row_edges:
  assumes "wf_adj adj"
  shows "(u, v, a) \<in> set (adj_row adj n) \<longleftrightarrow> u = n \<and> (n, v, a) \<in> adj_edges adj"
proof (cases "map_of adj n")
  case None
  then have "n \<notin> fst ` set adj" by (simp add: map_of_eq_None_iff)
  then have "(n, row) \<notin> set adj" for row by force
  with None show ?thesis by (simp add: adj_row_def dget_def in_adj_edges)
next
  case (Some row)
  then have "(n, row') \<in> set adj \<longleftrightarrow> row' = row" for row'
    using wf_adjD(1)[OF assms] by (metis map_of_eq_Some_iff option.inject)
  with Some show ?thesis by (auto simp: adj_row_def dget_def in_adj_edges)
qed

lemma adj_edges_nodes:
  "wf_adj adj \<Longrightarrow> (u, v, a) \<in> adj_edges adj \<Longrightarrow> u \<in> fst ` set adj \<and> v \<in> fst ` set adj"
  unfolding in_adj_edges using wf_adjD(3) by (metis fst_conv image_eqI)

lemma adj_node_keys [simp]: "fst ` set (adj_node n adj) = insert n (fst ` set adj)"
  by (auto simp: adj_node_def)

lemma adj_node_edges [simp]: "adj_edges (adj_node n adj) = adj_edges adj"
  by (auto simp: adj_edges_def adj_node_def)

lemma set_adj_node: "(u, row) \<in> set (adj_node n adj) \<Longrightarrow> (u, row) \<in> set adj \<or> row = []"
  by (auto simp: adj_node_def split: if_splits)

lemma wf_adj_node:
  assumes "wf_adj adj"
  shows "wf_adj (adj_node n adj)"
proof (rule wf_adjI)
  show "distinct (map fst (adj_node n adj))" using wf_adjD(1)[OF assms] by (simp add: adj_node_def)
  fix u row assume u: "(u, row) \<in> set (adj_node n adj)"
  then show "distinct (map fst row)" using set_adj_node wf_adjD(2)[OF assms] by fastforce
  fix v a assume "(v, a) \<in> set row"
  with u have "(u, row) \<in> set adj" using set_adj_node by fastforce
  then show "v \<in> fst ` set (adj_node n adj)" using wf_adjD(3)[OF assms] \<open>(v, a) \<in> set row\<close> by simp
qed

lemma adj_put_keys: "fst ` set (adj_put u v a adj) = insert u (insert v (fst ` set adj))"
  by (auto simp: adj_put_def Let_def dict_simps)

lemma dget_row:
  assumes "distinct (map fst adj)" "(w, b) \<in> set (dget adj u [])"
  shows "\<exists>row. (u, row) \<in> set adj \<and> (w, b) \<in> set row"
  using assms by (auto simp: dget_def split: option.splits dest: map_of_SomeD)

lemma wf_adj_put:
  assumes "wf_adj adj"
  shows "wf_adj (adj_put u v a adj)"
proof (rule wf_adjI)
  let ?adj = "adj_node v (adj_node u adj)" and ?row = "AList.update v a (dget (adj_node v (adj_node u adj)) u [])"
  have wf: "wf_adj ?adj" using assms by (intro wf_adj_node)
  have keys: "fst ` set (adj_put u v a adj) = insert u (insert v (fst ` set adj))" by (rule adj_put_keys)
  have eq: "adj_put u v a adj = AList.update u ?row ?adj" by (simp add: adj_put_def Let_def)
  have dr: "distinct (map fst (dget ?adj u []))"
    using wf_adjD(2)[OF wf] by (auto simp: dget_def split: option.splits dest: map_of_SomeD)
  show "distinct (map fst (adj_put u v a adj))" unfolding eq by (rule distinct_upd[OF wf_adjD(1)[OF wf]])
  fix w row assume "(w, row) \<in> set (adj_put u v a adj)"
  then consider "w = u" "row = ?row" | "(w, row) \<in> set ?adj" unfolding eq by (auto dest: upd_in_setD)
  note c = this
  from c show "distinct (map fst row)"
    by cases (auto intro!: distinct_upd[OF dr] dest: wf_adjD(2)[OF wf])
  fix x b assume x: "(x, b) \<in> set row"
  from c show "x \<in> fst ` set (adj_put u v a adj)"
  proof cases
    case 1
    with x have "(x, b) = (v, a) \<or> (x, b) \<in> set (dget ?adj u [])" by (auto dest: upd_in_setD)
    then have "x = v \<or> x \<in> fst ` set ?adj"
    proof
      assume "(x, b) \<in> set (dget ?adj u [])"
      from dget_row[OF wf_adjD(1)[OF wf] this] wf_adjD(3)[OF wf] show ?thesis by blast
    qed simp
    then show ?thesis using keys by auto
  next
    case 2
    from wf_adjD(3)[OF wf this x] keys show ?thesis by auto
  qed
qed

lemma adj_put_edges:
  assumes "wf_adj adj" "(x, y, b) \<in> adj_edges (adj_put u v a adj)"
  shows "(x, y, b) = (u, v, a) \<or> (x, y, b) \<in> adj_edges adj"
proof -
  let ?adj = "adj_node v (adj_node u adj)"
  have wf: "wf_adj ?adj" using assms(1) by (intro wf_adj_node)
  obtain row where row: "(x, row) \<in> set (AList.update u (AList.update v a (dget ?adj u [])) ?adj)" "(y, b) \<in> set row"
    using assms(2) by (auto simp: in_adj_edges adj_put_def Let_def)
  from upd_in_setD[OF row(1)] show ?thesis
  proof
    assume "(x, row) = (u, AList.update v a (dget ?adj u []))"
    with row(2) have "x = u" "(y, b) = (v, a) \<or> (y, b) \<in> set (dget ?adj u [])" by (auto dest: upd_in_setD)
    then show ?thesis
    proof (elim disjE)
      assume "(y, b) \<in> set (dget ?adj u [])"
      from dget_row[OF wf_adjD(1)[OF wf] this] have "(u, y, b) \<in> adj_edges ?adj" by (simp only: in_adj_edges)
      then show ?thesis using \<open>x = u\<close> by simp
    qed simp
  next
    assume "(x, row) \<in> set ?adj"
    with row(2) have "(x, y, b) \<in> adj_edges ?adj" unfolding in_adj_edges by blast
    then show ?thesis by simp
  qed
qed

lemma adj_put_has:
  "wf_adj adj \<Longrightarrow> (u, v, a) \<in> adj_edges (adj_put u v a adj)"
proof -
  assume wf: "wf_adj adj"
  let ?adj = "adj_node v (adj_node u adj)"
  let ?row = "AList.update v a (dget ?adj u [])"
  have "map_of (AList.update u ?row ?adj) u = Some ?row" by (simp add: dict_simps)
  then have "(u, ?row) \<in> set (AList.update u ?row ?adj)" by (rule map_of_SomeD)
  moreover have "map_of ?row v = Some a" by (simp add: dict_simps)
  then have "(v, a) \<in> set ?row" by (rule map_of_SomeD)
  ultimately show ?thesis unfolding in_adj_edges adj_put_def Let_def by blast
qed

lemma adj_put_keeps:
  assumes wf: "wf_adj adj" and e: "(x, y, b) \<in> adj_edges adj"
  shows "\<exists>b'. (x, y, b') \<in> adj_edges (adj_put u v a adj)"
proof -
  let ?adj = "adj_node v (adj_node u adj)"
  let ?row = "AList.update v a (dget ?adj u [])"
  have wf': "wf_adj ?adj" using wf by (intro wf_adj_node)
  from e have "(x, y, b) \<in> adj_edges ?adj" by simp
  then obtain row where row: "(x, row) \<in> set ?adj" "(y, b) \<in> set row" unfolding in_adj_edges by blast
  then have m: "map_of ?adj x = Some row" using wf_adjD(1)[OF wf'] by simp
  show ?thesis
  proof (cases "x = u")
    case True
    have "y \<in> fst ` set ?row" using m row(2) True by (auto simp: dget_def dict_simps rev_image_eqI)
    then obtain b' where "(y, b') \<in> set ?row" by auto
    moreover have "(u, ?row) \<in> set (AList.update u ?row ?adj)"
      by (rule map_of_SomeD) (simp add: dict_simps)
    ultimately show ?thesis using True unfolding in_adj_edges adj_put_def Let_def by blast
  next
    case False
    then have "(x, row) \<in> set (AList.update u ?row ?adj)" by (intro map_of_SomeD) (simp add: dict_simps m)
    with row(2) show ?thesis unfolding in_adj_edges adj_put_def Let_def by blast
  qed
qed

lemma adj_size_pos: "(u, v, a) \<in> adj_edges adj \<Longrightarrow> 0 < adj_size adj"
proof -
  assume "(u, v, a) \<in> adj_edges adj"
  then obtain row where row: "(u, row) \<in> set adj" "(v, a) \<in> set row" by (auto simp: in_adj_edges)
  then have "0 < length row" by auto
  also have "length row \<le> adj_size adj" unfolding adj_size_def
    using row(1) by (induction adj) auto
  finally show ?thesis .
qed

lemma adj_size_0: "adj_size adj = 0 \<Longrightarrow> adj_edges adj = {}"
  using adj_size_pos by fastforce

lemma adj_in_degree_pos:
  "0 < adj_in_degree adj n \<longleftrightarrow> (\<exists>u a. (u, n, a) \<in> adj_edges adj)"
  unfolding adj_in_degree_def in_adj_edges length_greater_0_conv filter_empty_conv by force

end
