(* ===== verification/Impact.thy ===== *)
theory Impact
  imports Digraph Gate "HOL-Library.Multiset"
begin

text \<open>
  The first half of \<open>correlation/engine/ranking.py\<close>: the graph of accepted edges and the decayed
  forward walk \<open>_forward_impact\<close>.  The walk is a label-correcting loop over a frontier; it is a
  \<open>partial_function\<close>, so that returning is a theorem.  The main lemma of the theory is its total
  correctness: with weights in \<open>[0, 1]\<close> the loop returns, and the dictionary it returns maps a node
  to the largest decayed product over all paths from the root, or omits it when that is below the
  cut.  Termination is by the multiset of the levels of the frontier: an entry of weight \<open>w\<close> has as
  many levels as it can still be decayed without falling below the cut, and every entry it is
  replaced by has fewer.
\<close>

definition DECAY :: real where
  "DECAY = 7 / 10"

definition CUT :: real where
  "CUT = 15 / 100"

definition UPSTREAM_PENALTY :: real where
  "UPSTREAM_PENALTY = 1 / 2"

definition edge_attr :: "'a edge_scheme \<Rightarrow> eattr" where
  "edge_attr e = \<lparr>a_weight = \<bar>e_r e\<bar>, a_lag_s = e_lag_s e, a_evidence = e_evidence e\<rparr>"

definition build_graph :: "'g nx \<Rightarrow> 'a edge_scheme list \<Rightarrow> 'g" where
  "build_graph nx edges =
     foldl (\<lambda>g e. nx_add_edge nx g (e_src e) (e_dst e) (edge_attr e)) (nx_new nx) edges"

text \<open>The inner loop over the out-edges of the popped node; the frontier grows at its end.\<close>

fun relax :: "real \<Rightarrow> (pod \<times> pod \<times> eattr) list \<Rightarrow> real pdict \<Rightarrow> (pod \<times> real) list \<Rightarrow>
    real pdict \<times> (pod \<times> real) list" where
  "relax w [] impact frontier = (impact, frontier)"
| "relax w ((u, nxt, data) # es) impact frontier =
     (let nw = w * a_weight data * DECAY in
      if nw < CUT \<or> nw \<le> dget impact nxt 0 then relax w es impact frontier
      else relax w es (AList.update nxt nw impact) (frontier @ [(nxt, nw)]))"

partial_function (option) impact_loop ::
  "'g nx \<Rightarrow> 'g \<Rightarrow> (pod \<times> real) list \<Rightarrow> real pdict \<Rightarrow> real pdict option" where
  "impact_loop nx g frontier impact =
     (case frontier of [] \<Rightarrow> Some impact
      | p # rest \<Rightarrow> (let st = relax (snd p) (nx_out_edges nx g (fst p)) impact rest in
          impact_loop nx g (snd st) (fst st)))"

definition forward_impact :: "'g nx \<Rightarrow> 'g \<Rightarrow> pod \<Rightarrow> real pdict option" where
  "forward_impact nx g origin = impact_loop nx g [(origin, 1)] []"

declare impact_loop.simps [code]

subsection \<open>Graphs of accepted edges\<close>

definition wf_graph :: "'g nx \<Rightarrow> 'g \<Rightarrow> bool" where
  "wf_graph nx g \<longleftrightarrow> wf_adj (nx_adj nx g)"

definition unit_weights :: "adjacency \<Rightarrow> bool" where
  "unit_weights adj \<longleftrightarrow> (\<forall>u v a. (u, v, a) \<in> adj_edges adj \<longrightarrow> 0 \<le> a_weight a \<and> a_weight a \<le> 1)"

context digraph_api begin

lemma adj_build_graph_snoc:
  "nx_adj nx (build_graph nx (es @ [e])) =
     adj_put (e_src e) (e_dst e) (edge_attr e) (nx_adj nx (build_graph nx es))"
  by (simp add: build_graph_def adj_add_edge)

lemma build_graph_wf: "wf_graph nx (build_graph nx es)"
  unfolding wf_graph_def
proof (induction es rule: rev_induct)
  case Nil
  then show ?case by (simp add: build_graph_def adj_new)
next
  case (snoc e es)
  then show ?case by (simp only: adj_build_graph_snoc wf_adj_put)
qed

lemma build_graph_edges:
  "(u, v, a) \<in> adj_edges (nx_adj nx (build_graph nx es)) \<Longrightarrow>
   \<exists>e \<in> set es. e_src e = u \<and> e_dst e = v \<and> a = edge_attr e"
proof (induction es rule: rev_induct)
  case Nil
  then show ?case by (simp add: build_graph_def adj_new in_adj_edges)
next
  case (snoc e es)
  from adj_put_edges[OF build_graph_wf[unfolded wf_graph_def] snoc.prems[unfolded adj_build_graph_snoc]]
  show ?case using snoc.IH by auto
qed

lemma build_graph_has:
  "e \<in> set es \<Longrightarrow> \<exists>a. (e_src e, e_dst e, a) \<in> adj_edges (nx_adj nx (build_graph nx es))"
proof (induction es rule: rev_induct)
  case (snoc x es)
  show ?case
  proof (cases "e \<in> set es")
    case True
    from snoc.IH[OF this] show ?thesis
      unfolding adj_build_graph_snoc using adj_put_keeps[OF build_graph_wf[unfolded wf_graph_def]] by blast
  next
    case False
    with snoc.prems have "e = x" by simp
    then show ?thesis
      unfolding adj_build_graph_snoc using adj_put_has[OF build_graph_wf[unfolded wf_graph_def]] by blast
  qed
qed simp

lemma build_graph_unit:
  "(\<And>e. e \<in> set es \<Longrightarrow> \<bar>e_r e\<bar> \<le> 1) \<Longrightarrow> unit_weights (nx_adj nx (build_graph nx es))"
  unfolding unit_weights_def using build_graph_edges by (fastforce simp: edge_attr_def)

lemma build_graph_nodes:
  "n \<in> set (nx_nodes nx (build_graph nx es)) \<longleftrightarrow> (\<exists>e \<in> set es. n = e_src e \<or> n = e_dst e)"
  unfolding nodes_adj set_map
proof (induction es rule: rev_induct)
  case Nil
  then show ?case by (simp add: build_graph_def adj_new)
next
  case (snoc e es)
  then show ?case by (auto simp: adj_build_graph_snoc adj_put_keys)
qed

lemma out_edges_iff:
  "wf_graph nx g \<Longrightarrow> n \<in> fst ` set (nx_adj nx g) \<Longrightarrow>
   (u, v, a) \<in> set (nx_out_edges nx g n) \<longleftrightarrow> u = n \<and> (n, v, a) \<in> adj_edges (nx_adj nx g)"
  by (simp add: out_edges_adj wf_graph_def adj_row_edges)

end

subsection \<open>Decayed paths\<close>

text \<open>\<open>decayed adj origin n v\<close>: a non-empty path from the root to \<open>n\<close> has the decayed product \<open>v\<close>.\<close>

inductive decayed :: "adjacency \<Rightarrow> pod \<Rightarrow> pod \<Rightarrow> real \<Rightarrow> bool" for adj origin where
  first: "(origin, v, a) \<in> adj_edges adj \<Longrightarrow> decayed adj origin v (1 * a_weight a * DECAY)"
| extend: "decayed adj origin u w \<Longrightarrow> (u, v, a) \<in> adj_edges adj \<Longrightarrow>
     decayed adj origin v (w * a_weight a * DECAY)"

lemma decayed_bounds:
  assumes "decayed adj origin n v" "unit_weights adj"
  shows "0 \<le> v \<and> v \<le> 1"
  using assms(1)
proof (induction rule: decayed.induct)
  case (first v a)
  then show ?case using assms(2) by (force simp: unit_weights_def DECAY_def)
next
  case (extend u w v a)
  then have "0 \<le> a_weight a" "a_weight a \<le> 1" using assms(2) by (auto simp: unit_weights_def)
  then have "0 \<le> w * a_weight a" "w * a_weight a \<le> 1" using extend.IH by (simp_all add: mult_le_one)
  then show ?case by (simp add: DECAY_def)
qed

lemma decayed_node: "wf_adj adj \<Longrightarrow> decayed adj origin n v \<Longrightarrow> n \<in> fst ` set adj"
  by (erule decayed.cases) (blast dest: adj_edges_nodes)+

subsection \<open>Levels\<close>

definition level :: "real \<Rightarrow> nat" where
  "level w = card {k. 1 \<le> k \<and> CUT \<le> w * DECAY ^ k}"

lemma level_finite: "w \<le> 1 \<Longrightarrow> finite {k. 1 \<le> k \<and> CUT \<le> w * DECAY ^ k}"
proof (rule finite_subset[of _ "{..<6}"])
  assume w: "w \<le> 1"
  show "{k. 1 \<le> k \<and> CUT \<le> w * DECAY ^ k} \<subseteq> {..<6}"
  proof (clarsimp, rule ccontr)
    fix k assume "CUT \<le> w * DECAY ^ k" "\<not> k < 6"
    then have "w * DECAY ^ k \<le> 1 * DECAY ^ k" using w by (intro mult_right_mono) (auto simp: DECAY_def)
    also have "\<dots> \<le> DECAY ^ 6" using \<open>\<not> k < 6\<close> by (simp add: DECAY_def power_decreasing)
    also have "\<dots> < CUT" by (simp add: DECAY_def CUT_def power_numeral_reduce)
    finally show False using \<open>CUT \<le> w * DECAY ^ k\<close> by simp
  qed
qed simp

lemma level_less:
  assumes w: "0 \<le> w" "w \<le> 1" and a: "a \<le> 1" and cut: "CUT \<le> w * a * DECAY"
  shows "level (w * a * DECAY) < level w"
proof -
  let ?S = "\<lambda>w. {k. 1 \<le> k \<and> CUT \<le> w * DECAY ^ k}"
  have "w * a \<le> w" by (rule mult_left_le[OF a w(1)])
  then have le: "w * a * DECAY \<le> w * DECAY" by (intro mult_right_mono) (auto simp: DECAY_def)
  have sub: "Suc ` ?S (w * a * DECAY) \<subseteq> ?S w - {1}"
  proof (clarsimp)
    fix k assume k: "Suc 0 \<le> k" "CUT \<le> w * a * DECAY * DECAY ^ k"
    have "w * a * DECAY * DECAY ^ k \<le> w * DECAY * DECAY ^ k"
      by (rule mult_right_mono[OF le]) (simp add: DECAY_def)
    with k show "CUT \<le> w * (DECAY * DECAY ^ k)" by (simp add: mult.assoc)
  qed
  have one: "1 \<in> ?S w" using cut le by simp
  have fin: "finite (?S w)" by (rule level_finite[OF w(2)])
  have "level (w * a * DECAY) = card (Suc ` ?S (w * a * DECAY))"
    unfolding level_def by (rule card_image[symmetric]) simp
  also have "\<dots> \<le> card (?S w - {1})" by (rule card_mono[OF finite_Diff[OF fin] sub])
  also have "\<dots> < card (?S w)" by (rule card_Diff1_less[OF fin one])
  also have "\<dots> = level w" by (simp only: level_def)
  finally show ?thesis .
qed

subsection \<open>One relaxation\<close>

definition passed :: "real \<Rightarrow> (pod \<times> pod \<times> eattr) list \<Rightarrow> pod \<Rightarrow> real \<Rightarrow> bool" where
  "passed w es n v \<longleftrightarrow> (\<exists>u a. (u, n, a) \<in> set es \<and> v = w * a_weight a * DECAY \<and> CUT \<le> v)"

lemma dget_upd0: "dget (AList.update k v d) n 0 = (if n = k then v else dget d n 0)"
  by (simp add: dget_def dict_simps)

lemma relax_frontier:
  "\<exists>new. snd (relax w es imp fr) = fr @ new \<and> (\<forall>(n, v) \<in> set new. passed w es n v)"
proof (induction es arbitrary: imp fr)
  case (Cons e es)
  obtain u nxt data where e: "e = (u, nxt, data)" by (cases e)
  let ?nw = "w * a_weight data * DECAY"
  have mono: "passed w es n v \<Longrightarrow> passed w (e # es) n v" for n v by (auto simp: passed_def)
  show ?case
  proof (cases "?nw < CUT \<or> ?nw \<le> dget imp nxt 0")
    case True
    then show ?thesis using Cons.IH[of imp fr] mono by (fastforce simp: e Let_def)
  next
    case False
    then have "passed w (e # es) nxt ?nw" unfolding passed_def e by force
    then show ?thesis using Cons.IH[of "AList.update nxt ?nw imp" "fr @ [(nxt, ?nw)]"] False mono
      by (fastforce simp: e Let_def)
  qed
qed simp

lemma relax_distinct: "distinct (map fst imp) \<Longrightarrow> distinct (map fst (fst (relax w es imp fr)))"
  by (induction w es imp fr rule: relax.induct) (auto simp: Let_def dict_simps)

lemma relax_grows: "dget imp n 0 \<le> dget (fst (relax w es imp fr)) n 0"
proof (induction es arbitrary: imp fr)
  case (Cons e es)
  obtain u nxt data where e: "e = (u, nxt, data)" by (cases e)
  let ?nw = "w * a_weight data * DECAY"
  show ?case
  proof (cases "?nw < CUT \<or> ?nw \<le> dget imp nxt 0")
    case True
    then show ?thesis using Cons.IH by (simp add: e Let_def)
  next
    case False
    then have "dget imp n 0 \<le> dget (AList.update nxt ?nw imp) n 0" by (simp add: dget_upd0)
    also note Cons.IH
    finally show ?thesis using False by (simp add: e Let_def)
  qed
qed simp

lemma relax_label:
  "map_of (fst (relax w es imp fr)) n = Some v \<Longrightarrow>
   map_of imp n = Some v \<or> passed w es n v \<and> (n, v) \<in> set (snd (relax w es imp fr))"
proof (induction es arbitrary: imp fr)
  case (Cons e es)
  obtain u nxt data where e: "e = (u, nxt, data)" by (cases e)
  let ?nw = "w * a_weight data * DECAY"
  have mono: "passed w es n v \<Longrightarrow> passed w (e # es) n v" by (auto simp: passed_def)
  show ?case
  proof (cases "?nw < CUT \<or> ?nw \<le> dget imp nxt 0")
    case True
    then have r: "relax w (e # es) imp fr = relax w es imp fr" by (simp add: e Let_def)
    show ?thesis using Cons.IH[of imp fr] Cons.prems mono unfolding r by blast
  next
    case False
    let ?imp = "AList.update nxt ?nw imp" and ?fr = "fr @ [(nxt, ?nw)]"
    have r: "relax w (e # es) imp fr = relax w es ?imp ?fr" using False by (simp add: e Let_def)
    have "set ?fr \<subseteq> set (snd (relax w es ?imp ?fr))" using relax_frontier[of w es ?imp ?fr] by auto
    moreover have "passed w (e # es) nxt ?nw" using False unfolding passed_def e by force
    ultimately show ?thesis
      using Cons.IH[of ?imp ?fr] Cons.prems mono unfolding r by (auto simp: dict_simps split: if_splits)
  qed
qed simp

lemma relax_covers:
  "(u, n, a) \<in> set es \<Longrightarrow> w * a_weight a * DECAY < CUT \<or>
     w * a_weight a * DECAY \<le> dget (fst (relax w es imp fr)) n 0"
proof (induction es arbitrary: imp fr)
  case (Cons e es)
  obtain x nxt data where e: "e = (x, nxt, data)" by (cases e)
  let ?nw = "w * a_weight data * DECAY"
  let ?imp = "if ?nw < CUT \<or> ?nw \<le> dget imp nxt 0 then imp else AList.update nxt ?nw imp"
  let ?fr = "if ?nw < CUT \<or> ?nw \<le> dget imp nxt 0 then fr else fr @ [(nxt, ?nw)]"
  have r: "relax w (e # es) imp fr = relax w es ?imp ?fr" by (simp add: e Let_def)
  show ?case
  proof (cases "(u, n, a) \<in> set es")
    case True
    from Cons.IH[OF this, of ?imp ?fr] show ?thesis unfolding r .
  next
    case False
    with Cons.prems have eq: "nxt = n" "data = a" by (auto simp: e)
    have "?nw < CUT \<or> ?nw \<le> dget ?imp n 0" by (auto simp: eq dget_upd0)
    with relax_grows[of ?imp n w es ?fr] show ?thesis unfolding r eq by auto
  qed
qed simp

subsection \<open>The loop\<close>

definition impact_label :: "pod \<Rightarrow> real pdict \<Rightarrow> pod \<Rightarrow> real \<Rightarrow> bool" where
  "impact_label origin imp m w \<longleftrightarrow> (m, w) = (origin, 1) \<or> map_of imp m = Some w"

definition closed_at :: "adjacency \<Rightarrow> real pdict \<Rightarrow> pod \<Rightarrow> real \<Rightarrow> bool" where
  "closed_at adj imp m w \<longleftrightarrow> (\<forall>n a. (m, n, a) \<in> adj_edges adj \<longrightarrow>
     w * a_weight a * DECAY < CUT \<or> w * a_weight a * DECAY \<le> dget imp n 0)"

definition impact_inv :: "adjacency \<Rightarrow> pod \<Rightarrow> (pod \<times> real) list \<Rightarrow> real pdict \<Rightarrow> bool" where
  "impact_inv adj origin fr imp \<longleftrightarrow> distinct (map fst imp) \<and>
     (\<forall>n v. map_of imp n = Some v \<longrightarrow> decayed adj origin n v \<and> CUT \<le> v) \<and>
     (\<forall>(n, w) \<in> set fr. (n, w) = (origin, 1) \<or> decayed adj origin n w) \<and>
     (\<forall>m w. impact_label origin imp m w \<longrightarrow> (m, w) \<in> set fr \<or> closed_at adj imp m w)"

lemma impact_invD:
  assumes "impact_inv adj origin fr imp"
  shows "distinct (map fst imp)"
    and "map_of imp n = Some v \<Longrightarrow> decayed adj origin n v \<and> CUT \<le> v"
    and "(n, w) \<in> set fr \<Longrightarrow> (n, w) = (origin, 1) \<or> decayed adj origin n w"
    and "impact_label origin imp m w \<Longrightarrow> (m, w) \<in> set fr \<or> closed_at adj imp m w"
  using assms unfolding impact_inv_def by (blast, blast, fast, blast)

lemma impact_inv_init: "impact_inv adj origin [(origin, 1)] []"
  by (simp add: impact_inv_def impact_label_def)

lemma passed_decayed:
  assumes "(m, w) = (origin, 1) \<or> decayed adj origin m w"
    and "\<And>u n a. (u, n, a) \<in> set es \<Longrightarrow> (m, n, a) \<in> adj_edges adj" and "passed w es n v"
  shows "decayed adj origin n v \<and> CUT \<le> v"
proof -
  obtain u a where "(u, n, a) \<in> set es" and v: "v = w * a_weight a * DECAY" "CUT \<le> v"
    using assms(3) by (auto simp: passed_def)
  then have "(m, n, a) \<in> adj_edges adj" using assms(2) by blast
  then show ?thesis using assms(1) v by (auto intro: decayed.intros)
qed

lemma impact_inv_step:
  assumes inv: "impact_inv adj origin ((m, w) # rest) imp"
    and es: "\<And>u n a. (u, n, a) \<in> set es \<longleftrightarrow> u = m \<and> (m, n, a) \<in> adj_edges adj"
  shows "impact_inv adj origin (snd (relax w es imp rest)) (fst (relax w es imp rest))"
proof -
  let ?imp = "fst (relax w es imp rest)" and ?fr = "snd (relax w es imp rest)"
  have mw: "(m, w) = (origin, 1) \<or> decayed adj origin m w" by (rule impact_invD(3)[OF inv]) simp
  note new = passed_decayed[OF mw, of es]
  obtain nf where fr: "?fr = rest @ nf" "\<forall>(n, v) \<in> set nf. passed w es n v" using relax_frontier by blast
  have lift: "closed_at adj imp k x \<Longrightarrow> closed_at adj ?imp k x" for k x
    unfolding closed_at_def using relax_grows order_trans by blast
  have here: "closed_at adj ?imp m w"
    unfolding closed_at_def using relax_covers[of m _ _ es w imp rest] es by blast
  show ?thesis
    unfolding impact_inv_def
  proof (intro conjI allI impI ballI)
    show "distinct (map fst ?imp)" by (rule relax_distinct[OF impact_invD(1)[OF inv]])
  next
    fix n v assume "map_of ?imp n = Some v"
    from relax_label[OF this] show "decayed adj origin n v" "CUT \<le> v"
      using impact_invD(2)[OF inv] new es by blast+
  next
    fix p assume p: "p \<in> set ?fr"
    obtain n v where nv: "p = (n, v)" by (cases p)
    have "(n, v) \<in> set ((m, w) # rest) \<or> passed w es n v" using p fr unfolding nv by auto
    then show "case p of (n, v) \<Rightarrow> (n, v) = (origin, 1) \<or> decayed adj origin n v"
      unfolding nv prod.case using impact_invD(3)[OF inv] new es by blast
  next
    fix k x assume "impact_label origin ?imp k x"
    then consider "impact_label origin imp k x" | "(k, x) \<in> set ?fr"
      unfolding impact_label_def using relax_label by blast
    then show "(k, x) \<in> set ?fr \<or> closed_at adj ?imp k x"
    proof cases
      case 1
      from impact_invD(4)[OF inv this] show ?thesis using lift here fr(1) by auto
    qed simp
  qed
qed

definition frontier_measure :: "(pod \<times> real) list \<Rightarrow> nat multiset" where
  "frontier_measure fr = mset (map (\<lambda>p. level (snd p)) fr)"

lemma frontier_decreases:
  assumes "0 \<le> w" "w \<le> 1" and "\<And>u n a. (u, n, a) \<in> set es \<Longrightarrow> a_weight a \<le> 1"
  shows "(frontier_measure (snd (relax w es imp rest)), frontier_measure ((m, w) # rest)) \<in> mult less_than"
proof -
  obtain nf where fr: "snd (relax w es imp rest) = rest @ nf" "\<forall>(n, v) \<in> set nf. passed w es n v"
    using relax_frontier by blast
  have "level v < level w" if "(n, v) \<in> set nf" for n v
    using that fr(2) level_less[OF assms(1,2)] assms(3) by (fastforce simp: passed_def)
  then have "\<forall>k \<in># frontier_measure nf. \<exists>j \<in># {#level w#}. (k, j) \<in> less_than"
    by (auto simp: frontier_measure_def)
  then have "(frontier_measure rest + frontier_measure nf, frontier_measure rest + {#level w#}) \<in> mult less_than"
    by (intro one_step_implies_mult) auto
  then show ?thesis by (simp add: fr(1) frontier_measure_def)
qed

text \<open>The largest decayed product, when it reaches the cut.\<close>

definition best_impact :: "adjacency \<Rightarrow> pod \<Rightarrow> pod \<Rightarrow> real \<Rightarrow> bool" where
  "best_impact adj origin n v \<longleftrightarrow>
     decayed adj origin n v \<and> CUT \<le> v \<and> (\<forall>v'. decayed adj origin n v' \<longrightarrow> v' \<le> v)"

lemma closed_dominates:
  assumes inv: "impact_inv adj origin [] imp" and unit: "unit_weights adj"
    and d: "decayed adj origin n v" "CUT \<le> v"
  shows "v \<le> dget imp n 0"
  using d
proof (induction rule: decayed.induct)
  case (first v a)
  have "closed_at adj imp origin 1" using impact_invD(4)[OF inv, of origin 1] by (simp add: impact_label_def)
  then show ?case using first unfolding closed_at_def by fastforce
next
  case (extend u w v a)
  have a: "0 \<le> a_weight a" "a_weight a \<le> 1" using extend.hyps(2) unit by (auto simp: unit_weights_def)
  have w: "0 \<le> w" using decayed_bounds[OF extend.hyps(1) unit] by simp
  have "w * a_weight a \<le> w" by (rule mult_left_le[OF a(2) w])
  moreover have "0 \<le> w * a_weight a" using w a by simp
  ultimately have "w * a_weight a * DECAY \<le> w" unfolding DECAY_def by linarith
  with extend.prems have "CUT \<le> w" by linarith
  then have le: "w \<le> dget imp u 0" by (rule extend.IH)
  have "0 < w" using \<open>CUT \<le> w\<close> by (simp add: CUT_def)
  with le obtain x where x: "map_of imp u = Some x" "w \<le> x"
    by (cases "map_of imp u") (auto simp: dget_def)
  then have "closed_at adj imp u x" using impact_invD(4)[OF inv, of u x] by (simp add: impact_label_def)
  moreover have "w * a_weight a * DECAY \<le> x * a_weight a * DECAY"
    using x(2) a by (intro mult_right_mono) (auto simp: DECAY_def)
  ultimately show ?case using extend.hyps(2) extend.prems unfolding closed_at_def by (meson le_less_trans not_le order_trans)
qed

lemma impact_inv_final:
  assumes inv: "impact_inv adj origin [] imp" and unit: "unit_weights adj"
  shows "map_of imp n = Some v \<longleftrightarrow> best_impact adj origin n v"
proof
  assume v: "map_of imp n = Some v"
  have cut: "0 < CUT" by (simp add: CUT_def)
  have "v' \<le> v" if "decayed adj origin n v'" for v'
    using closed_dominates[OF inv unit that] impact_invD(2)[OF inv v] v
    by (cases "CUT \<le> v'") (auto simp: dget_def)
  then show "best_impact adj origin n v" using impact_invD(2)[OF inv v] by (simp add: best_impact_def)
next
  assume b: "best_impact adj origin n v"
  then have le: "v \<le> dget imp n 0" using closed_dominates[OF inv unit] by (simp add: best_impact_def)
  have "0 < v" using b by (auto simp: best_impact_def CUT_def)
  with le obtain x where x: "map_of imp n = Some x" "v \<le> x"
    by (cases "map_of imp n") (auto simp: dget_def)
  moreover have "x \<le> v" using impact_invD(2)[OF inv x(1)] b by (simp add: best_impact_def)
  ultimately show "map_of imp n = Some v" by simp
qed

context digraph_api begin

lemma impact_loop_total:
  assumes wf: "wf_graph nx g" and unit: "unit_weights (nx_adj nx g)"
    and origin: "origin \<in> fst ` set (nx_adj nx g)"
    and inv: "impact_inv (nx_adj nx g) origin fr imp"
  shows "\<exists>imp'. impact_loop nx g fr imp = Some imp' \<and> impact_inv (nx_adj nx g) origin [] imp'"
  using inv
proof (induction "frontier_measure fr" arbitrary: fr imp rule: wf_induct_rule[OF wf_mult[OF wf_less_than]])
  case (1 fr imp)
  show ?case
  proof (cases fr)
    case Nil
    then show ?thesis using "1.prems" by (subst impact_loop.simps) simp
  next
    case (Cons p rest)
    obtain m w where p: "p = (m, w)" by (cases p)
    let ?es = "nx_out_edges nx g m"
    let ?st = "relax w ?es imp rest"
    have inv: "impact_inv (nx_adj nx g) origin ((m, w) # rest) imp" using "1.prems" Cons p by simp
    have mw: "(m, w) = (origin, 1) \<or> decayed (nx_adj nx g) origin m w"
      by (rule impact_invD(3)[OF inv]) simp
    then have m: "m \<in> fst ` set (nx_adj nx g)" and w: "0 \<le> w" "w \<le> 1"
      using origin decayed_node[OF wf[unfolded wf_graph_def]] decayed_bounds[OF _ unit] by auto
    note es = out_edges_iff[OF wf m]
    have "impact_inv (nx_adj nx g) origin (snd ?st) (fst ?st)" by (rule impact_inv_step[OF inv es])
    moreover have "(frontier_measure (snd ?st), frontier_measure fr) \<in> mult less_than"
      unfolding Cons p
      by (rule frontier_decreases[OF w]) (use es unit in \<open>auto simp: unit_weights_def\<close>)
    ultimately have "\<exists>imp'. impact_loop nx g (snd ?st) (fst ?st) = Some imp' \<and>
        impact_inv (nx_adj nx g) origin [] imp'" by (rule "1.hyps"[rotated])
    moreover have "impact_loop nx g fr imp = impact_loop nx g (snd ?st) (fst ?st)"
      unfolding Cons p by (subst impact_loop.simps) (simp add: Let_def)
    ultimately show ?thesis by simp
  qed
qed

lemma forward_impact_total:
  assumes "wf_graph nx g" "unit_weights (nx_adj nx g)" "origin \<in> fst ` set (nx_adj nx g)"
  shows "\<exists>imp. forward_impact nx g origin = Some imp \<and> distinct (map fst imp) \<and>
    (\<forall>n v. map_of imp n = Some v \<longleftrightarrow> best_impact (nx_adj nx g) origin n v)"
proof -
  obtain imp where imp: "forward_impact nx g origin = Some imp" "impact_inv (nx_adj nx g) origin [] imp"
    using impact_loop_total[OF assms impact_inv_init] by (auto simp: forward_impact_def)
  with impact_inv_final[OF imp(2) assms(2)] impact_invD(1)[OF imp(2)] show ?thesis by blast
qed

end

subsection \<open>Properties\<close>

lemma forward_impact_best:
  assumes "digraph_api nx" and "\<And>e. e \<in> set edges \<Longrightarrow> \<bar>e_r e\<bar> \<le> 1"
    and "origin \<in> set (nx_nodes nx (build_graph nx edges))"
  shows "\<exists>imp. forward_impact nx (build_graph nx edges) origin = Some imp \<and> distinct (map fst imp) \<and>
    (\<forall>n v. map_of imp n = Some v \<longleftrightarrow> best_impact (nx_adj nx (build_graph nx edges)) origin n v)"
proof (rule digraph_api.forward_impact_total[OF assms(1)])
  show "wf_graph nx (build_graph nx edges)" by (rule digraph_api.build_graph_wf[OF assms(1)])
  show "unit_weights (nx_adj nx (build_graph nx edges))"
    by (rule digraph_api.build_graph_unit[OF assms(1,2)])
  show "origin \<in> fst ` set (nx_adj nx (build_graph nx edges))"
    using assms(3) by (simp add: digraph_api.nodes_adj[OF assms(1)])
qed

text \<open>
  C18. The forward walk terminates and computes the best decayed impact: on the graph of any edges
  whose coefficients lie in \<open>[-1, 1]\<close>, started at any node of the graph, \<open>_forward_impact\<close> returns a
  dictionary without repeated keys in which a node has the value \<open>v\<close> exactly when \<open>v\<close> is the largest
  product of weight times decay over all paths from the root to it, cycles included, and \<open>v\<close> reaches
  the cut.
\<close>

theorem forward_impact_best_path:
  assumes "digraph_api nx" and "\<And>e. e \<in> set edges \<Longrightarrow> \<bar>e_r e\<bar> \<le> 1"
    and "origin \<in> set (nx_nodes nx (build_graph nx edges))"
  shows "\<exists>imp. forward_impact nx (build_graph nx edges) origin = Some imp \<and> distinct (map fst imp) \<and>
    (\<forall>n v. map_of imp n = Some v \<longleftrightarrow> best_impact (nx_adj nx (build_graph nx edges)) origin n v)"
  by (rule forward_impact_best[OF assms])

text \<open>A cycle of two nodes: the walk comes back to the root and stops.\<close>

theorem forward_impact_best_path_witness:
  "\<exists>imp. forward_impact ref_nx (build_graph ref_nx
      [\<lparr>e_src = ''a'', e_dst = ''b'', e_r = 1, e_lag_s = 5, e_evidence = []\<rparr>,
       \<lparr>e_src = ''b'', e_dst = ''a'', e_r = 1, e_lag_s = 5, e_evidence = []\<rparr>]) ''a'' = Some imp \<and>
     distinct (map fst imp)"
proof -
  let ?es = "[\<lparr>e_src = ''a'', e_dst = ''b'', e_r = 1, e_lag_s = 5, e_evidence = []\<rparr>,
       \<lparr>e_src = ''b'', e_dst = ''a'', e_r = 1, e_lag_s = 5, e_evidence = []\<rparr>]"
  have "''a'' \<in> set (nx_nodes ref_nx (build_graph ref_nx ?es))"
    unfolding rnx.build_graph_nodes by simp
  moreover have "\<bar>e_r e\<bar> \<le> 1" if "e \<in> set ?es" for e using that by auto
  ultimately obtain imp where "forward_impact ref_nx (build_graph ref_nx ?es) ''a'' = Some imp \<and>
      distinct (map fst imp)"
    using forward_impact_best_path[OF rnx.digraph_api_axioms, of ?es "''a''"] by blast
  then show ?thesis by (rule exI)
qed

end
