(* ===== verification/Ranking.thy ===== *)
theory Ranking
  imports Impact
begin

text \<open>
  The second half of \<open>correlation/engine/ranking.py\<close>: the ranking of root causes by explanatory reach
  and the blast radius of a cause.  Both rest on the loops of the forward walk, so both are values of
  the sum type with \<open>Diverges\<close> for a loop that does not return; the theorems show that on a graph of
  accepted edges they return, that the ranking names an existing pod whenever the graph has an edge,
  that its head has the largest explanatory reach, and that every predicted victim is justified by a
  path from the cause and the reported arrival time is the sum of the lags along it.
\<close>

record cause =
  c_pod :: pod
  c_score :: real
  c_onset_s :: "real option"

record victim =
  v_pod :: pod
  v_impact :: real
  v_eta_s :: int

subsection \<open>Ranking\<close>

definition seed_set :: "'g nx \<Rightarrow> 'g \<Rightarrow> pod list \<Rightarrow> pod set" where
  "seed_set nx g seeds = (let s = filter (nx_has_node nx g) seeds in
     if s = [] then set (nx_nodes nx g) else set s)"

text \<open>One iteration of the scoring loop: lines 52 to 57.\<close>

definition explain :: "'g nx \<Rightarrow> 'g \<Rightarrow> pod set \<Rightarrow> pod \<Rightarrow> real res" where
  "explain nx g seeds n = rbind (res_of_option Diverges (forward_impact nx g n)) (\<lambda>imp.
     let reach = sum_list (map snd (filter (\<lambda>p. fst p \<in> seeds) imp));
         own = (if n \<in> seeds \<and> nx_in_degree nx g n = 0 then reach + 1 else reach)
     in Inr (if nx_in_degree nx g n > 0 then own * UPSTREAM_PENALTY else own))"

definition score_all :: "'g nx \<Rightarrow> 'g \<Rightarrow> pod set \<Rightarrow> (pod \<times> real) list res" where
  "score_all nx g seeds = rbind
     (rtrav (\<lambda>n. rbind (explain nx g seeds n) (\<lambda>e. Inr (n, e))) (nx_nodes nx g))
     (\<lambda>ps. Inr (filter (\<lambda>p. snd p > 0) ps))"

definition rank_key :: "(pod \<rightharpoonup> real) \<Rightarrow> pod \<times> real \<Rightarrow> real \<times> xfloat" where
  "rank_key onset_s kv = (- snd kv, case onset_s (fst kv) of None \<Rightarrow> PInf | Some t \<Rightarrow> Fin t)"

definition rank_root_causes :: "'g nx \<Rightarrow> 'g \<Rightarrow> pod list \<Rightarrow> (pod \<rightharpoonup> real) \<Rightarrow> nat \<Rightarrow> cause list res" where
  "rank_root_causes nx g seeds onset_s limit =
     (let seeds' = seed_set nx g seeds in
      if nx_number_of_edges nx g = 0 then Inr []
      else rbind (score_all nx g seeds') (\<lambda>scores.
        if scores = [] then Inr []
        else let total = sum_list (map snd scores);
                 ranked = sort_key (rank_key onset_s) scores
             in Inr (map (\<lambda>kv. \<lparr>c_pod = fst kv, c_score = round3 (snd kv / total),
                                c_onset_s = onset_s (fst kv)\<rparr>) (take limit ranked))))"

subsection \<open>Blast radius\<close>

type_synonym front = "(pod \<times> real \<times> int) list"

fun spread :: "real \<Rightarrow> int \<Rightarrow> (pod \<times> pod \<times> eattr) list \<Rightarrow> pod set \<Rightarrow> victim list \<Rightarrow> front \<Rightarrow>
    pod set \<times> victim list \<times> front" where
  "spread w eta [] seen out fr = (seen, out, fr)"
| "spread w eta ((u, nxt, data) # es) seen out fr =
     (let nw = w * a_weight data * DECAY in
      if nxt \<in> seen \<or> nw < CUT then spread w eta es seen out fr
      else let neta = eta + a_lag_s data in
        spread w eta es (insert nxt seen)
          (out @ [\<lparr>v_pod = nxt, v_impact = round3 nw, v_eta_s = neta\<rparr>]) (fr @ [(nxt, nw, neta)]))"

partial_function (option) blast_loop ::
  "'g nx \<Rightarrow> 'g \<Rightarrow> pod set \<Rightarrow> victim list \<Rightarrow> front \<Rightarrow> victim list option" where
  "blast_loop nx g seen out fr =
     (case fr of [] \<Rightarrow> Some out
      | p # rest \<Rightarrow>
          (let st = spread (fst (snd p)) (snd (snd p)) (nx_out_edges nx g (fst p)) seen out rest in
           blast_loop nx g (fst st) (fst (snd st)) (snd (snd st))))"

declare blast_loop.simps [code]

definition blast_radius :: "'g nx \<Rightarrow> 'g \<Rightarrow> pod \<Rightarrow> victim list res" where
  "blast_radius nx g origin =
     (if \<not> nx_has_node nx g origin then Inr []
      else rbind (res_of_option Diverges (blast_loop nx g {origin} [] [(origin, 1, 0)]))
        (\<lambda>out. Inr (sort_key (\<lambda>v. - v_impact v) out)))"

subsection \<open>Scores\<close>

definition good_graph :: "'g nx \<Rightarrow> 'g \<Rightarrow> bool" where
  "good_graph nx g \<longleftrightarrow> wf_graph nx g \<and> unit_weights (nx_adj nx g)"

lemma sum_list_filter_pos:
  assumes "\<And>p. p \<in> set ps \<Longrightarrow> 0 < snd p"
  shows "0 \<le> sum_list (map snd (filter P ps) :: real list)"
    and "p \<in> set ps \<Longrightarrow> P p \<Longrightarrow> snd p \<le> sum_list (map snd (filter P ps) :: real list)"
proof -
  have "0 \<le> snd q" if "q \<in> set (filter P ps)" for q using assms[of q] that by simp
  then have nn: "0 \<le> x" if "x \<in> set (map snd (filter P ps))" for x using that by auto
  show "0 \<le> sum_list (map snd (filter P ps))" by (rule sum_list_nonneg[OF nn])
  assume "p \<in> set ps" "P p"
  then have "snd p \<in> set (map snd (filter P ps))" by force
  then show "snd p \<le> sum_list (map snd (filter P ps))" using nn by (intro member_le_sum_list) auto
qed

lemma best_impact_pos: "best_impact adj origin n v \<Longrightarrow> 0 < v"
  by (auto simp: best_impact_def CUT_def)

context digraph_api begin

lemma good_build_graph: "(\<And>e. e \<in> set es \<Longrightarrow> \<bar>e_r e\<bar> \<le> 1) \<Longrightarrow> good_graph nx (build_graph nx es)"
  unfolding good_graph_def by (intro conjI build_graph_wf build_graph_unit)

lemma explain_total:
  assumes g: "good_graph nx g" and n: "n \<in> set (nx_nodes nx g)"
  shows "\<exists>e. explain nx g S n = Inr e \<and> 0 \<le> e \<and>
    (nx_in_degree nx g n = 0 \<and> n \<in> S \<longrightarrow> 0 < e) \<and>
    (\<forall>m v. best_impact (nx_adj nx g) n m v \<and> m \<in> S \<longrightarrow> 0 < e)"
proof -
  have "n \<in> fst ` set (nx_adj nx g)" using n by (simp add: nodes_adj)
  then obtain imp where imp: "forward_impact nx g n = Some imp" "distinct (map fst imp)"
    "\<And>m v. map_of imp m = Some v \<longleftrightarrow> best_impact (nx_adj nx g) n m v"
    using forward_impact_total g unfolding good_graph_def by blast
  have pos: "0 < snd p" if "p \<in> set imp" for p
  proof -
    have "map_of imp (fst p) = Some (snd p)" using that imp(2) by simp
    then show ?thesis using imp(3) best_impact_pos by blast
  qed
  let ?r = "sum_list (map snd (filter (\<lambda>p. fst p \<in> S) imp))"
  have r: "0 \<le> ?r" by (rule sum_list_filter_pos(1)[OF pos])
  have r_pos: "0 < ?r" if "best_impact (nx_adj nx g) n m v" "m \<in> S" for m v
  proof -
    have "(m, v) \<in> set imp" using imp(3) that(1) map_of_SomeD by metis
    from sum_list_filter_pos(2)[OF pos this, of "\<lambda>p. fst p \<in> S"] that best_impact_pos show ?thesis by fastforce
  qed
  define d where "d = nx_in_degree nx g n"
  have "explain nx g S n = Inr (if d > 0 then (if n \<in> S \<and> d = 0 then ?r + 1 else ?r) * UPSTREAM_PENALTY
      else if n \<in> S \<and> d = 0 then ?r + 1 else ?r)"
    by (simp add: explain_def imp(1) Let_def d_def)
  moreover have "0 \<le> ?r * UPSTREAM_PENALTY" "0 < ?r \<Longrightarrow> 0 < ?r * UPSTREAM_PENALTY"
    using r by (simp_all add: UPSTREAM_PENALTY_def)
  ultimately show ?thesis using r r_pos unfolding d_def[symmetric] by (cases "d = 0") (auto intro: add_nonneg_pos)
qed

lemma score_all_total:
  assumes g: "good_graph nx g"
  shows "\<exists>scores. score_all nx g S = Inr scores \<and> distinct (map fst scores) \<and>
    (\<forall>n e. (n, e) \<in> set scores \<longleftrightarrow> n \<in> set (nx_nodes nx g) \<and> explain nx g S n = Inr e \<and> 0 < e)"
proof -
  let ?e = "\<lambda>n. case explain nx g S n of Inl _ \<Rightarrow> 0 | Inr e \<Rightarrow> e"
  let ?ps = "map (\<lambda>n. (n, ?e n)) (nx_nodes nx g)"
  have ex: "explain nx g S n = Inr (?e n)" if "n \<in> set (nx_nodes nx g)" for n
    using explain_total[OF g that, of S] by auto
  have "rtrav (\<lambda>n. rbind (explain nx g S n) (\<lambda>e. Inr (n, e))) (nx_nodes nx g) = Inr ?ps"
    by (rule rtrav_Inr) (subst ex, simp_all)
  then have "score_all nx g S = Inr (filter (\<lambda>p. snd p > 0) ?ps)" by (simp add: score_all_def)
  moreover have "distinct (map fst ?ps)"
    using g by (simp add: good_graph_def wf_graph_def nodes_adj comp_def wf_adjD(1))
  moreover have "(n, e) \<in> set (filter (\<lambda>p. snd p > 0) ?ps)
      \<longleftrightarrow> n \<in> set (nx_nodes nx g) \<and> explain nx g S n = Inr e \<and> 0 < e" for n e
    using ex[of n] by auto
  ultimately show ?thesis by (intro exI[of _ "filter (\<lambda>p. snd p > 0) ?ps"]) (simp add: distinct_map_filter)
qed

lemma best_impact_exists:
  assumes g: "good_graph nx g" and n: "n \<in> set (nx_nodes nx g)"
    and d: "decayed (nx_adj nx g) n m v" "CUT \<le> v"
  shows "\<exists>b. best_impact (nx_adj nx g) n m b"
proof -
  let ?adj = "nx_adj nx g"
  have wf: "wf_graph nx g" and unit: "unit_weights ?adj" using g by (simp_all add: good_graph_def)
  have "n \<in> fst ` set ?adj" using n by (simp add: nodes_adj)
  from impact_loop_total[OF wf unit this impact_inv_init]
  obtain imp where imp: "impact_inv ?adj n [] imp" by blast
  have "v \<le> dget imp m 0" by (rule closed_dominates[OF imp unit d])
  moreover have "0 < v" using d(2) by (simp add: CUT_def)
  ultimately obtain b where "map_of imp m = Some b" by (cases "map_of imp m") (auto simp: dget_def)
  then show ?thesis using impact_inv_final[OF imp unit] by blast
qed

lemma seed_set_node: "n \<in> seed_set nx g seeds \<Longrightarrow> n \<in> set (nx_nodes nx g)"
  by (auto simp: seed_set_def Let_def nodes_adj has_node_adj split: if_splits)

lemma seed_set_nonempty: "n \<in> set (nx_nodes nx g) \<Longrightarrow> \<exists>s. s \<in> seed_set nx g seeds"
  by (cases "filter (nx_has_node nx g) seeds") (auto simp: seed_set_def)

text \<open>The ranking, once the scores are known.\<close>

lemma rank_root_causes_cases:
  assumes g: "good_graph nx g"
  obtains "nx_number_of_edges nx g = 0" "rank_root_causes nx g seeds onset_s limit = Inr []"
  | scores where "nx_number_of_edges nx g \<noteq> 0" "distinct (map fst scores)"
    "\<And>n e. (n, e) \<in> set scores \<longleftrightarrow>
       n \<in> set (nx_nodes nx g) \<and> explain nx g (seed_set nx g seeds) n = Inr e \<and> 0 < e"
    "rank_root_causes nx g seeds onset_s limit = Inr (map (\<lambda>kv. \<lparr>c_pod = fst kv,
       c_score = round3 (snd kv / sum_list (map snd scores)), c_onset_s = onset_s (fst kv)\<rparr>)
       (take limit (sort_key (rank_key onset_s) scores)))"
proof (cases "nx_number_of_edges nx g = 0")
  case True
  then show ?thesis using that(1) by (simp add: rank_root_causes_def)
next
  case False
  obtain scores where sc: "score_all nx g (seed_set nx g seeds) = Inr scores" "distinct (map fst scores)"
    "\<And>n e. (n, e) \<in> set scores \<longleftrightarrow>
       n \<in> set (nx_nodes nx g) \<and> explain nx g (seed_set nx g seeds) n = Inr e \<and> 0 < e"
    using score_all_total[OF g] by blast
  have "rank_root_causes nx g seeds onset_s limit = Inr (map (\<lambda>kv. \<lparr>c_pod = fst kv,
       c_score = round3 (snd kv / sum_list (map snd scores)), c_onset_s = onset_s (fst kv)\<rparr>)
       (take limit (sort_key (rank_key onset_s) scores)))"
    using False by (cases "scores = []") (simp_all add: rank_root_causes_def sc(1) Let_def)
  then show ?thesis by (rule that(2)[OF False sc(2,3)])
qed

lemma scores_nonempty:
  assumes g: "good_graph nx g" and e: "nx_number_of_edges nx g \<noteq> 0"
    and floor: "\<And>u v a. (u, v, a) \<in> adj_edges (nx_adj nx g) \<Longrightarrow> CUT \<le> a_weight a * DECAY"
  shows "\<exists>n x. n \<in> set (nx_nodes nx g) \<and> explain nx g (seed_set nx g seeds) n = Inr x \<and> 0 < x"
proof -
  have wf: "wf_adj (nx_adj nx g)" using g by (simp add: good_graph_def wf_graph_def)
  have "nx_adj nx g \<noteq> []" using e by (auto simp: number_of_edges_adj adj_size_def)
  then obtain n where "n \<in> set (nx_nodes nx g)" by (cases "nx_adj nx g") (auto simp: nodes_adj)
  then obtain s where s: "s \<in> seed_set nx g seeds" using seed_set_nonempty by blast
  then have sn: "s \<in> set (nx_nodes nx g)" by (rule seed_set_node)
  show ?thesis
  proof (cases "nx_in_degree nx g s = 0")
    case True
    then show ?thesis using explain_total[OF g sn, of "seed_set nx g seeds"] s sn by blast
  next
    case False
    then have "0 < adj_in_degree (nx_adj nx g) s" using sn by (simp add: in_degree_adj nodes_adj)
    then obtain u a where ua: "(u, s, a) \<in> adj_edges (nx_adj nx g)" by (auto simp: adj_in_degree_pos)
    have u: "u \<in> set (nx_nodes nx g)" using adj_edges_nodes[OF wf ua] by (simp add: nodes_adj)
    have "CUT \<le> 1 * a_weight a * DECAY" using floor[OF ua] by simp
    from best_impact_exists[OF g u decayed.first[OF ua] this] obtain b
      where "best_impact (nx_adj nx g) u s b" by blast
    then show ?thesis using explain_total[OF g u, of "seed_set nx g seeds"] s u by blast
  qed
qed

end

lemma rank_key_le: "rank_key os p \<le> rank_key os q \<Longrightarrow> snd q \<le> snd p"
  by (auto simp: rank_key_def)

lemma sorted_rank: "sorted_wrt (\<lambda>p q. rank_key os p \<le> rank_key os q) (sort_key (rank_key os) xs)"
  using sorted_sort_key[of "rank_key os" xs] by (simp add: sorted_map)

subsection \<open>Properties of the ranking\<close>

lemma rank_sound:
  assumes api: "digraph_api nx" and r: "\<And>e. e \<in> set edges \<Longrightarrow> \<bar>e_r e\<bar> \<le> 1"
  shows "\<exists>rk. rank_root_causes nx (build_graph nx edges) seeds onset_s limit = Inr rk \<and>
    length rk \<le> limit \<and> distinct (map c_pod rk) \<and>
    sorted_wrt (\<lambda>a b. c_score b \<le> c_score a) rk \<and>
    (\<forall>c \<in> set rk. c_pod c \<in> set (nx_nodes nx (build_graph nx edges)) \<and>
       0 \<le> c_score c \<and> c_score c \<le> 1 \<and> c_onset_s c = onset_s (c_pod c))"
proof -
  let ?g = "build_graph nx edges"
  have g: "good_graph nx ?g" by (rule digraph_api.good_build_graph[OF api r])
  show ?thesis
  proof (cases rule: digraph_api.rank_root_causes_cases[OF api g, of seeds onset_s limit])
    case 1
    then show ?thesis by simp
  next
    case (2 scores)
    let ?t = "sum_list (map snd scores)" and ?rk = "take limit (sort_key (rank_key onset_s) scores)"
    have pos: "0 < snd p" if "p \<in> set scores" for p using 2(3)[of "fst p" "snd p"] that by simp
    then have nn: "0 \<le> x" if "x \<in> set (map snd scores)" for x using that by force
    have t: "0 \<le> ?t" by (rule sum_list_nonneg[OF nn])
    have sub: "set ?rk \<subseteq> set scores" using set_take_subset[of limit "sort_key (rank_key onset_s) scores"] by simp
    have unit: "0 \<le> snd p / ?t \<and> snd p / ?t \<le> 1" if "p \<in> set scores" for p
    proof -
      have "snd p \<le> ?t" using that nn by (intro member_le_sum_list) auto
      then show ?thesis using pos[OF that] t by (simp add: divide_le_eq)
    qed
    have "sorted_wrt (\<lambda>p q. rank_key onset_s p \<le> rank_key onset_s q) ?rk"
      by (rule sorted_wrt_take[OF sorted_rank])
    then have "sorted_wrt (\<lambda>p q. round3 (snd q / ?t) \<le> round3 (snd p / ?t)) ?rk"
      by (rule sorted_wrt_mono_rel[rotated]) (auto intro!: round3_mono divide_right_mono t dest: rank_key_le)
    moreover have "distinct (map fst ?rk)"
      using 2(2) by (simp add: take_map[symmetric] distinct_sort_key_fst)
    ultimately show ?thesis using sub unit 2(3)
      by (fastforce simp: 2(4) sorted_wrt_map comp_def intro: round3_nonneg round3_le_1)
  qed
qed

text \<open>
  C20. Ranking returns on every graph of edges with coefficients in \<open>[-1, 1]\<close>, whatever the seeds and
  the onsets: at most \<open>top\<close> distinct pods of the graph, each with its own onset, with scores between
  0 and 1 in descending order.
\<close>

theorem rank_root_causes_sound:
  assumes api: "digraph_api nx" and r: "\<And>e. e \<in> set edges \<Longrightarrow> \<bar>e_r e\<bar> \<le> 1"
  shows "\<exists>rk. rank_root_causes nx (build_graph nx edges) seeds onset_s limit = Inr rk \<and>
    length rk \<le> limit \<and> distinct (map c_pod rk) \<and>
    sorted_wrt (\<lambda>a b. c_score b \<le> c_score a) rk \<and>
    (\<forall>c \<in> set rk. c_pod c \<in> set (nx_nodes nx (build_graph nx edges)) \<and>
       0 \<le> c_score c \<and> c_score c \<le> 1 \<and> c_onset_s c = onset_s (c_pod c))"
  by (rule rank_sound[OF assms])

theorem rank_root_causes_sound_witness:
  "\<exists>rk. rank_root_causes ref_nx (build_graph ref_nx
      [\<lparr>e_src = ''a'', e_dst = ''b'', e_r = 3/4, e_lag_s = 5, e_evidence = []\<rparr>]) [''b''] Map.empty 3 = Inr rk \<and>
     length rk \<le> 3"
proof -
  let ?es = "[\<lparr>e_src = ''a'', e_dst = ''b'', e_r = 3/4, e_lag_s = 5, e_evidence = []\<rparr>]"
  have "\<bar>e_r e\<bar> \<le> 1" if "e \<in> set ?es" for e using that by auto
  from rank_root_causes_sound[OF rnx.digraph_api_axioms this, where seeds = "[''b'']" and limit = 3]
  show ?thesis by blast
qed

text \<open>
  C19. The head of the ranking is the best explanation: no node of the graph has a larger explanatory
  reach over the seeds, and among nodes with the same reach none has an earlier onset (a node without
  an onset counting as later than every other).
\<close>

theorem rank_head_explains_most:
  assumes api: "digraph_api nx" and r: "\<And>e. e \<in> set edges \<Longrightarrow> \<bar>e_r e\<bar> \<le> 1"
    and rk: "rank_root_causes nx (build_graph nx edges) seeds onset_s limit = Inr (c # cs)"
    and n: "n \<in> set (nx_nodes nx (build_graph nx edges))"
  shows "\<exists>x y. explain nx (build_graph nx edges) (seed_set nx (build_graph nx edges) seeds) (c_pod c) = Inr x \<and>
    explain nx (build_graph nx edges) (seed_set nx (build_graph nx edges) seeds) n = Inr y \<and>
    y \<le> x \<and> (y = x \<longrightarrow> snd (rank_key onset_s (c_pod c, x)) \<le> snd (rank_key onset_s (n, y)))"
proof -
  let ?g = "build_graph nx edges"
  let ?S = "seed_set nx ?g seeds"
  have g: "good_graph nx ?g" by (rule digraph_api.good_build_graph[OF api r])
  obtain y where y: "explain nx ?g ?S n = Inr y" "0 \<le> y" using digraph_api.explain_total[OF api g n] by blast
  show ?thesis
  proof (cases rule: digraph_api.rank_root_causes_cases[OF api g, of seeds onset_s limit])
    case 1
    with rk show ?thesis by simp
  next
    case (2 scores)
    define sk where "sk = sort_key (rank_key onset_s) scores"
    obtain p ps where sk: "sk = p # ps" and c: "c_pod c = fst p"
      using rk unfolding 2(4) sk_def[symmetric] by (cases sk; cases limit) auto
    have "p \<in> set sk" by (simp add: sk)
    then have p: "(fst p, snd p) \<in> set scores" by (simp add: sk_def)
    have least: "rank_key onset_s p \<le> rank_key onset_s q" if "q \<in> set scores" for q
    proof -
      have "q \<in> set sk" using that by (simp add: sk_def)
      then show ?thesis using sorted_rank[of onset_s scores] unfolding sk_def[symmetric] sk by auto
    qed
    have x: "explain nx ?g ?S (c_pod c) = Inr (snd p)" "0 < snd p"
      unfolding c using iffD1[OF 2(3) p] by auto
    have "y \<le> snd p \<and> (y = snd p \<longrightarrow> snd (rank_key onset_s (c_pod c, snd p)) \<le> snd (rank_key onset_s (n, y)))"
    proof (cases "0 < y")
      case True
      with n y(1) have "(n, y) \<in> set scores" using 2(3) by blast
      from least[OF this] show ?thesis by (auto simp: rank_key_def c)
    qed (use x(2) in auto)
    with x(1) y(1) show ?thesis by blast
  qed
qed

lemma rank_nonempty:
  assumes api: "digraph_api nx" and e: "edges \<noteq> []" and limit: "0 < limit"
    and r: "\<And>e. e \<in> set edges \<Longrightarrow> 3 / 14 \<le> \<bar>e_r e\<bar> \<and> \<bar>e_r e\<bar> \<le> 1"
  shows "\<exists>c cs. rank_root_causes nx (build_graph nx edges) seeds onset_s limit = Inr (c # cs)"
proof -
  let ?g = "build_graph nx edges"
  have g: "good_graph nx ?g" by (rule digraph_api.good_build_graph[OF api]) (simp add: r)
  obtain e es where "edges = e # es" using e by (cases edges) auto
  then obtain a where a: "(e_src e, e_dst e, a) \<in> adj_edges (nx_adj nx ?g)"
    using digraph_api.build_graph_has[OF api, of e edges] by auto
  then have num: "nx_number_of_edges nx ?g \<noteq> 0"
    using adj_size_pos[OF a] by (simp add: digraph_api.number_of_edges_adj[OF api])
  have floor: "CUT \<le> a_weight b * DECAY" if "(u, v, b) \<in> adj_edges (nx_adj nx ?g)" for u v b
    using digraph_api.build_graph_edges[OF api that] r by (force simp: edge_attr_def CUT_def DECAY_def)
  have some: "\<exists>n x. n \<in> set (nx_nodes nx ?g) \<and> explain nx ?g (seed_set nx ?g seeds) n = Inr x \<and> 0 < x"
    by (rule digraph_api.scores_nonempty[OF api g num]) (rule floor)
  show ?thesis
  proof (cases rule: digraph_api.rank_root_causes_cases[OF api g, of seeds onset_s limit])
    case 1
    with num show ?thesis by simp
  next
    case (2 scores)
    from some obtain n x where "(n, x) \<in> set scores" using 2(3) by blast
    then have "sort_key (rank_key onset_s) scores \<noteq> []"
      by (metis length_greater_0_conv length_pos_if_in_set sort_key_perm(2))
    then show ?thesis using limit unfolding 2(4)
      by (cases "sort_key (rank_key onset_s) scores"; cases limit) auto
  qed
qed

text \<open>
  A disturbed graph always has a suspect: when there is at least one edge and every coefficient is
  in absolute value between \<open>3/14\<close> (a floor every accepted edge clears) and 1, the ranking of one or
  more places is not empty, for every set of seeds.
\<close>

theorem rank_names_a_cause:
  assumes api: "digraph_api nx" and e: "edges \<noteq> []" and limit: "0 < limit"
    and r: "\<And>e. e \<in> set edges \<Longrightarrow> 3 / 14 \<le> \<bar>e_r e\<bar> \<and> \<bar>e_r e\<bar> \<le> 1"
  shows "\<exists>c cs. rank_root_causes nx (build_graph nx edges) seeds onset_s limit = Inr (c # cs)"
  by (rule rank_nonempty[OF assms])

theorem rank_names_a_cause_witness:
  "\<exists>c cs. rank_root_causes ref_nx (build_graph ref_nx
      [\<lparr>e_src = ''a'', e_dst = ''b'', e_r = 3/4, e_lag_s = 5, e_evidence = []\<rparr>]) [''b''] Map.empty 1 = Inr (c # cs)"
  by (rule rank_names_a_cause[OF rnx.digraph_api_axioms]) auto

text \<open>The head of a ranking exists there, so it explains at least as much as the victim does.\<close>

theorem rank_head_explains_most_witness:
  "\<exists>c x y. explain ref_nx (build_graph ref_nx
      [\<lparr>e_src = ''a'', e_dst = ''b'', e_r = 3/4, e_lag_s = 5, e_evidence = []\<rparr>]) {''b''} c = Inr x \<and>
     explain ref_nx (build_graph ref_nx
      [\<lparr>e_src = ''a'', e_dst = ''b'', e_r = 3/4, e_lag_s = 5, e_evidence = []\<rparr>]) {''b''} ''b'' = Inr y \<and> y \<le> x"
proof -
  let ?es = "[\<lparr>e_src = ''a'', e_dst = ''b'', e_r = 3/4, e_lag_s = 5, e_evidence = []\<rparr>]"
  let ?g = "build_graph ref_nx ?es"
  have r: "\<bar>e_r e\<bar> \<le> 1" if "e \<in> set ?es" for e using that by auto
  have s: "seed_set ref_nx ?g [''b''] = {''b''}" by code_simp
  have n: "''b'' \<in> set (nx_nodes ref_nx ?g)" unfolding rnx.build_graph_nodes by simp
  have rk: "rank_root_causes ref_nx ?g [''b''] Map.empty 3 =
      Inr [\<lparr>c_pod = ''a'', c_score = 1, c_onset_s = None\<rparr>]" by code_simp
  from rank_head_explains_most[OF rnx.digraph_api_axioms r rk n] show ?thesis unfolding s by auto
qed

subsection \<open>The blast radius\<close>

text \<open>\<open>route adj origin n w t\<close>: a path from the root to \<open>n\<close> has the decayed product \<open>w\<close> and the total lag \<open>t\<close>.\<close>

inductive route :: "adjacency \<Rightarrow> pod \<Rightarrow> pod \<Rightarrow> real \<Rightarrow> int \<Rightarrow> bool" for adj origin where
  start: "route adj origin origin 1 0"
| hop: "route adj origin u w t \<Longrightarrow> (u, v, a) \<in> adj_edges adj \<Longrightarrow>
     route adj origin v (w * a_weight a * DECAY) (t + a_lag_s a)"

lemma route_decayed: "route adj origin n w t \<Longrightarrow> (n, w, t) = (origin, 1, 0) \<or> decayed adj origin n w"
  by (induction rule: route.induct) (auto intro: decayed.intros)

fun victim_of :: "pod \<times> real \<times> int \<Rightarrow> victim" where
  "victim_of (n, w, t) = \<lparr>v_pod = n, v_impact = round3 w, v_eta_s = t\<rparr>"

lemma v_pod_victim_of [simp]: "v_pod (victim_of p) = fst p"
  by (cases p) simp

text \<open>What one expansion appends to the frontier.\<close>

definition fresh :: "real \<Rightarrow> int \<Rightarrow> (pod \<times> pod \<times> eattr) list \<Rightarrow> pod set \<Rightarrow> front \<Rightarrow> bool" where
  "fresh w t es seen new \<longleftrightarrow> distinct (map fst new) \<and> fst ` set new \<inter> seen = {} \<and>
     (\<forall>n v s. (n, v, s) \<in> set new \<longrightarrow> CUT \<le> v \<and>
        (\<exists>u a. (u, n, a) \<in> set es \<and> v = w * a_weight a * DECAY \<and> s = t + a_lag_s a)) \<and>
     (\<forall>u n a. (u, n, a) \<in> set es \<longrightarrow> w * a_weight a * DECAY < CUT \<or> n \<in> seen \<union> fst ` set new)"

lemma fresh_skip:
  assumes "fresh w t es seen new" "nxt \<in> seen \<or> w * a_weight data * DECAY < CUT"
  shows "fresh w t ((u, nxt, data) # es) seen new"
  unfolding fresh_def
proof (intro conjI allI impI)
  fix n v s assume "(n, v, s) \<in> set new"
  then have "CUT \<le> v \<and> (\<exists>u a. (u, n, a) \<in> set es \<and> v = w * a_weight a * DECAY \<and> s = t + a_lag_s a)"
    using assms(1) unfolding fresh_def by blast
  then show "CUT \<le> v" "\<exists>u' a. (u', n, a) \<in> set ((u, nxt, data) # es) \<and>
      v = w * a_weight a * DECAY \<and> s = t + a_lag_s a" by (blast, auto)
next
  fix x n a assume "(x, n, a) \<in> set ((u, nxt, data) # es)"
  then have "n = nxt \<and> a = data \<or> (x, n, a) \<in> set es" by auto
  then show "w * a_weight a * DECAY < CUT \<or> n \<in> seen \<union> fst ` set new"
    using assms unfolding fresh_def by blast
qed (use assms(1) in \<open>simp_all add: fresh_def\<close>)

lemma fresh_take:
  assumes new: "fresh w t es (insert nxt seen) new" and out: "nxt \<notin> seen"
    and cut: "CUT \<le> w * a_weight data * DECAY"
  shows "fresh w t ((u, nxt, data) # es) seen ((nxt, w * a_weight data * DECAY, t + a_lag_s data) # new)"
    (is "fresh w t ?es seen ?new")
  unfolding fresh_def
proof (intro conjI allI impI)
  have n: "distinct (map fst new)" "fst ` set new \<inter> insert nxt seen = {}" using new by (simp_all add: fresh_def)
  show "distinct (map fst ?new)" using n by auto
  show "fst ` set ?new \<inter> seen = {}" using n out by auto
next
  fix n v s assume "(n, v, s) \<in> set ?new"
  then consider "n = nxt" "v = w * a_weight data * DECAY" "s = t + a_lag_s data" | "(n, v, s) \<in> set new" by auto
  then have "CUT \<le> v \<and> (\<exists>u' a. (u', n, a) \<in> set ?es \<and> v = w * a_weight a * DECAY \<and> s = t + a_lag_s a)"
  proof cases
    case 1
    then show ?thesis using cut by auto
  next
    case 2
    then have "CUT \<le> v \<and> (\<exists>u a. (u, n, a) \<in> set es \<and> v = w * a_weight a * DECAY \<and> s = t + a_lag_s a)"
      using new unfolding fresh_def by blast
    then show ?thesis by auto
  qed
  then show "CUT \<le> v" "\<exists>u' a. (u', n, a) \<in> set ?es \<and> v = w * a_weight a * DECAY \<and> s = t + a_lag_s a"
    by blast+
next
  fix x n a assume "(x, n, a) \<in> set ?es"
  then have "n = nxt \<or> (x, n, a) \<in> set es" by auto
  then have "n = nxt \<or> w * a_weight a * DECAY < CUT \<or> n \<in> insert nxt seen \<union> fst ` set new"
    using new unfolding fresh_def by blast
  then show "w * a_weight a * DECAY < CUT \<or> n \<in> seen \<union> fst ` set ?new" by auto
qed

lemma spread_spec:
  "\<exists>new. spread w t es seen out fr = (seen \<union> fst ` set new, out @ map victim_of new, fr @ new) \<and>
     fresh w t es seen new"
proof (induction es arbitrary: seen out fr)
  case Nil
  show ?case by (rule exI[of _ "[]"]) (simp add: fresh_def)
next
  case (Cons e es)
  obtain u nxt data where e: "e = (u, nxt, data)" by (cases e)
  let ?nw = "w * a_weight data * DECAY"
  show ?case
  proof (cases "nxt \<in> seen \<or> ?nw < CUT")
    case True
    then have "spread w t (e # es) seen out fr = spread w t es seen out fr" by (simp add: e Let_def)
    with Cons.IH[of seen out fr] fresh_skip[OF _ True] show ?thesis unfolding e by metis
  next
    case False
    let ?p = "(nxt, ?nw, t + a_lag_s data)"
    obtain new where new: "spread w t es (insert nxt seen) (out @ [victim_of ?p]) (fr @ [?p])
        = (insert nxt seen \<union> fst ` set new, (out @ [victim_of ?p]) @ map victim_of new, (fr @ [?p]) @ new)"
      "fresh w t es (insert nxt seen) new"
      using Cons.IH by blast
    have "spread w t (e # es) seen out fr = (seen \<union> fst ` set (?p # new),
          out @ map victim_of (?p # new), fr @ ?p # new)"
      using new(1) False by (simp add: e Let_def)
    moreover have "fresh w t (e # es) seen (?p # new)"
      unfolding e by (rule fresh_take[OF new(2)]) (use False in auto)
    ultimately show ?thesis by blast
  qed
qed

text \<open>
  The invariant of the breadth-first loop, over the labels handed out so far: those already expanded
  and the frontier.
\<close>

definition blast_inv :: "adjacency \<Rightarrow> pod \<Rightarrow> front \<Rightarrow> pod set \<Rightarrow> victim list \<Rightarrow> front \<Rightarrow> bool" where
  "blast_inv adj origin old seen out fr \<longleftrightarrow>
     (\<exists>lab. old @ fr = (origin, 1, 0) # lab \<and> out = map victim_of lab \<and>
        (\<forall>(n, w, t) \<in> set lab. CUT \<le> w)) \<and>
     seen = fst ` set (old @ fr) \<and> distinct (map fst (old @ fr)) \<and>
     (\<forall>(n, w, t) \<in> set (old @ fr). route adj origin n w t) \<and>
     (\<forall>(n, w, t) \<in> set old. \<forall>m a. (n, m, a) \<in> adj_edges adj \<longrightarrow>
        w * a_weight a * DECAY < CUT \<or> m \<in> seen)"

lemma blast_inv_init: "blast_inv adj origin [] {origin} [] [(origin, 1, 0)]"
  by (simp add: blast_inv_def route.start)

lemma blast_inv_step:
  assumes inv: "blast_inv adj origin old seen out ((n, w, t) # rest)"
    and es: "\<And>u m a. (u, m, a) \<in> set es \<longleftrightarrow> u = n \<and> (n, m, a) \<in> adj_edges adj"
    and st: "spread w t es seen out rest = (seen', out', fr')"
  shows "blast_inv adj origin (old @ [(n, w, t)]) seen' out' fr'"
    and "\<exists>new. fr' = rest @ new \<and> seen' = seen \<union> fst ` set new \<and> fst ` set new \<inter> seen = {} \<and>
      distinct (map fst new) \<and> (\<forall>m \<in> fst ` set new. \<exists>a. (n, m, a) \<in> adj_edges adj)"
proof -
  obtain new where eq: "(seen', out', fr') = (seen \<union> fst ` set new, out @ map victim_of new, rest @ new)"
    and f: "fresh w t es seen new" using spread_spec[of w t es seen out rest] unfolding st by blast
  have new1: "seen' = seen \<union> fst ` set new" "out' = out @ map victim_of new" "fr' = rest @ new"
    using eq by simp_all
  have new4: "distinct (map fst new)" "fst ` set new \<inter> seen = {}"
    using f by (simp_all add: fresh_def)
  have new6: "CUT \<le> v \<and> (\<exists>a. (n, m, a) \<in> adj_edges adj \<and> v = w * a_weight a * DECAY \<and> s = t + a_lag_s a)"
    if "(m, v, s) \<in> set new" for m v s
    using f that unfolding fresh_def es by meson
  have new7: "w * a_weight a * DECAY < CUT \<or> m \<in> seen'" if "(n, m, a) \<in> adj_edges adj" for m a
    using f that unfolding fresh_def es new1 by blast
  note new = new1 new4 new6 new7
  obtain lab where lab: "old @ (n, w, t) # rest = (origin, 1, 0) # lab" "out = map victim_of lab"
    "\<forall>(n, w, t) \<in> set lab. CUT \<le> w"
    using inv by (auto simp: blast_inv_def)
  have seen: "seen = fst ` set (old @ (n, w, t) # rest)" "distinct (map fst (old @ (n, w, t) # rest))"
    and rt: "\<And>m v s. (m, v, s) \<in> set (old @ (n, w, t) # rest) \<Longrightarrow> route adj origin m v s"
    and cl: "\<And>k v s m a. (k, v, s) \<in> set old \<Longrightarrow> (k, m, a) \<in> adj_edges adj \<Longrightarrow>
        v * a_weight a * DECAY < CUT \<or> m \<in> seen"
    using inv unfolding blast_inv_def by blast+
  have all: "(old @ [(n, w, t)]) @ fr' = (old @ (n, w, t) # rest) @ new" by (simp add: new(3))
  have rt': "route adj origin m v s" if "(m, v, s) \<in> set new" for m v s
    using new(6)[OF that] rt[of n w t] by (auto intro: route.hop)
  show "blast_inv adj origin (old @ [(n, w, t)]) seen' out' fr'"
    unfolding blast_inv_def all
  proof (intro conjI exI[of _ "lab @ new"])
    show "(old @ (n, w, t) # rest) @ new = (origin, 1, 0) # lab @ new" by (simp add: lab(1))
    show "out' = map victim_of (lab @ new)" by (simp add: new(2) lab(2))
    show "\<forall>(n, w, t) \<in> set (lab @ new). CUT \<le> w" using lab(3) new(6) by fastforce
    show "seen' = fst ` set ((old @ (n, w, t) # rest) @ new)" by (simp add: new(1) seen(1) image_Un Un_assoc)
    show "distinct (map fst ((old @ (n, w, t) # rest) @ new))"
      using seen(2) new(4,5) unfolding seen(1) by auto
    show "\<forall>(m, v, s) \<in> set ((old @ (n, w, t) # rest) @ new). route adj origin m v s"
      using rt rt' by (metis (no_types, lifting) Un_iff case_prodI2 set_append)
    show "\<forall>(k, v, s) \<in> set (old @ [(n, w, t)]). \<forall>m a. (k, m, a) \<in> adj_edges adj \<longrightarrow>
        v * a_weight a * DECAY < CUT \<or> m \<in> seen'"
      using cl new(1,7) by fastforce
  qed
  show "\<exists>new. fr' = rest @ new \<and> seen' = seen \<union> fst ` set new \<and> fst ` set new \<inter> seen = {} \<and>
      distinct (map fst new) \<and> (\<forall>m \<in> fst ` set new. \<exists>a. (n, m, a) \<in> adj_edges adj)"
    using new by (intro exI[of _ new]) fastforce
qed

lemma blast_inv_done:
  assumes "blast_inv adj origin ((origin, 1, 0) # lab) seen out []"
  shows "(n, w, t) \<in> set lab \<Longrightarrow> CUT \<le> w"
    and "(n, w, t) \<in> set lab \<Longrightarrow> route adj origin n w t"
    and "(n, w, t) \<in> set ((origin, 1, 0) # lab) \<Longrightarrow> (n, m, a) \<in> adj_edges adj \<Longrightarrow>
      w * a_weight a * DECAY < CUT \<or> m \<in> insert origin (fst ` set lab)"
    and "origin \<notin> fst ` set lab" and "distinct (map fst lab)"
proof -
  have i: "\<forall>(n, w, t) \<in> set lab. CUT \<le> w" "\<forall>(n, w, t) \<in> set lab. route adj origin n w t"
    "seen = insert origin (fst ` set lab)"
    "\<forall>(n, w, t) \<in> set ((origin, 1, 0) # lab). \<forall>m a. (n, m, a) \<in> adj_edges adj \<longrightarrow>
        w * a_weight a * DECAY < CUT \<or> m \<in> seen"
    "origin \<notin> fst ` set lab" "distinct (map fst lab)"
    using assms unfolding blast_inv_def append_Nil2 by (simp, simp, simp, blast, simp, simp)
  show "(n, w, t) \<in> set lab \<Longrightarrow> CUT \<le> w" using i(1) by blast
  show "(n, w, t) \<in> set lab \<Longrightarrow> route adj origin n w t" using i(2) by blast
  show "(n, w, t) \<in> set ((origin, 1, 0) # lab) \<Longrightarrow> (n, m, a) \<in> adj_edges adj \<Longrightarrow>
      w * a_weight a * DECAY < CUT \<or> m \<in> insert origin (fst ` set lab)"
    using i(4) unfolding i(3) by blast
  show "origin \<notin> fst ` set lab" "distinct (map fst lab)" using i(5,6) .
qed

context digraph_api begin

lemma blast_loop_total:
  assumes wf: "wf_graph nx g"
    and inv: "blast_inv (nx_adj nx g) origin old seen out fr" "seen \<subseteq> fst ` set (nx_adj nx g)"
  shows "\<exists>old' seen' out'. blast_loop nx g seen out fr = Some out' \<and>
    blast_inv (nx_adj nx g) origin old' seen' out' []"
  using inv
proof (induction "card (fst ` set (nx_adj nx g) - seen) + length fr" arbitrary: old seen out fr
    rule: less_induct)
  case less
  let ?N = "fst ` set (nx_adj nx g)"
  show ?case
  proof (cases fr)
    case Nil
    then have "blast_loop nx g seen out fr = Some out" by (subst blast_loop.simps) simp
    with less.prems(1) Nil show ?thesis by blast
  next
    case (Cons p rest)
    obtain n w t where p: "p = (n, w, t)" by (cases p)
    obtain seen' out' fr' where st: "spread w t (nx_out_edges nx g n) seen out rest = (seen', out', fr')"
      by (cases "spread w t (nx_out_edges nx g n) seen out rest")
    have inv: "blast_inv (nx_adj nx g) origin old seen out ((n, w, t) # rest)"
      using less.prems(1) by (simp add: Cons p)
    then have "n \<in> seen" by (simp add: blast_inv_def)
    then have n: "n \<in> ?N" using less.prems(2) by blast
    note es = out_edges_iff[OF wf n]
    have inv': "blast_inv (nx_adj nx g) origin (old @ [(n, w, t)]) seen' out' fr'"
      by (rule blast_inv_step(1)[OF inv es st])
    obtain new where new: "fr' = rest @ new" "seen' = seen \<union> fst ` set new" "fst ` set new \<inter> seen = {}"
      "distinct (map fst new)" "\<forall>m \<in> fst ` set new. \<exists>a. (n, m, a) \<in> adj_edges (nx_adj nx g)"
      using blast_inv_step(2)[OF inv es st] by blast
    have sub: "fst ` set new \<subseteq> ?N"
      using new(5) adj_edges_nodes[OF wf[unfolded wf_graph_def]] by blast
    then have sub': "seen' \<subseteq> ?N" using new(2) less.prems(2) by blast
    have "card (fst ` set new) = length new" using distinct_card[OF new(4)] by simp
    moreover have "?N - seen' = (?N - seen) - fst ` set new" using new(2) by blast
    moreover have "fst ` set new \<subseteq> ?N - seen" using sub new(3) by blast
    ultimately have "card (?N - seen') + length new = card (?N - seen)"
      using card_Diff_subset[of "fst ` set new" "?N - seen"] card_mono[of "?N - seen" "fst ` set new"]
      by simp
    then have "card (?N - seen') + length fr' < card (?N - seen) + length fr"
      by (simp add: new(1) Cons)
    from less.hyps[OF this inv' sub'] show ?thesis
      unfolding Cons p by (subst blast_loop.simps) (simp add: Let_def st)
  qed
qed

lemma blast_radius_total:
  assumes wf: "wf_graph nx g" and origin: "origin \<in> set (nx_nodes nx g)"
  shows "\<exists>old lab. blast_radius nx g origin = Inr (sort_key (\<lambda>v. - v_impact v) (map victim_of lab)) \<and>
    old = (origin, 1, 0) # lab \<and>
    blast_inv (nx_adj nx g) origin old (fst ` set old) (map victim_of lab) []"
proof -
  have "{origin} \<subseteq> fst ` set (nx_adj nx g)" using origin by (simp add: nodes_adj)
  from blast_loop_total[OF wf blast_inv_init this] obtain old seen out where
    o: "blast_loop nx g {origin} [] [(origin, 1, 0)] = Some out"
      "blast_inv (nx_adj nx g) origin old seen out []" by blast
  then obtain lab where "old = (origin, 1, 0) # lab" "out = map victim_of lab" "seen = fst ` set old"
    by (auto simp: blast_inv_def)
  moreover have "nx_has_node nx g origin" using origin by (simp add: has_node_adj nodes_adj)
  ultimately show ?thesis using o
    by (intro exI[of _ old] exI[of _ lab]) (simp add: blast_radius_def)
qed

end

subsection \<open>Properties of the blast radius\<close>

text \<open>
  C21. The blast radius is a pruned spanning tree of the cause's reach, sorted by impact: the search
  returns for every root; the victims are distinct pods other than the root in descending order of
  impact; there are unrounded weights, at least the cut, such that each victim's impact is the rounded
  decayed product and its arrival time the sum of the lags along one path from the root; and the list
  is closed, every out-edge of the root or of a victim leading to the root, to a victim, or below the
  cut.
\<close>

theorem blast_radius_tree:
  assumes api: "digraph_api nx" and origin: "origin \<in> set (nx_nodes nx (build_graph nx edges))"
  shows "\<exists>vs lab. blast_radius nx (build_graph nx edges) origin = Inr vs \<and>
    mset vs = mset (map (\<lambda>(n, w, t). \<lparr>v_pod = n, v_impact = round3 w, v_eta_s = t\<rparr>) lab) \<and>
    distinct (origin # map v_pod vs) \<and> sorted_wrt (\<lambda>a b. v_impact b \<le> v_impact a) vs \<and>
    (\<forall>(n, w, t) \<in> set lab. CUT \<le> w \<and> route (nx_adj nx (build_graph nx edges)) origin n w t) \<and>
    (\<forall>(n, w, t) \<in> set ((origin, 1, 0) # lab). \<forall>m a.
       (n, m, a) \<in> adj_edges (nx_adj nx (build_graph nx edges)) \<longrightarrow>
       w * a_weight a * DECAY < CUT \<or> m \<in> set (origin # map v_pod vs))"
proof -
  let ?g = "build_graph nx edges"
  let ?adj = "nx_adj nx ?g"
  have wf: "wf_graph nx ?g" by (rule digraph_api.build_graph_wf[OF api])
  obtain lab where vs: "blast_radius nx ?g origin = Inr (sort_key (\<lambda>v. - v_impact v) (map victim_of lab))"
    (is "_ = Inr ?vs")
    and inv: "blast_inv ?adj origin ((origin, 1, 0) # lab) (fst ` set ((origin, 1, 0) # lab)) (map victim_of lab) []"
    using digraph_api.blast_radius_total[OF api wf origin] by blast
  have pods: "set (map v_pod ?vs) = fst ` set lab" by (simp add: image_image)
  have dist: "distinct (map v_pod ?vs) = distinct (map fst lab)"
    by (simp add: distinct_sort_key_fst comp_def)
  note fin = blast_inv_done[OF inv]
  show ?thesis
  proof (intro exI[of _ ?vs] exI[of _ lab] conjI)
    have "(\<lambda>(n, w, t). \<lparr>v_pod = n, v_impact = round3 w, v_eta_s = t\<rparr>) = victim_of" by auto
    then show "mset ?vs = mset (map (\<lambda>(n, w, t). \<lparr>v_pod = n, v_impact = round3 w, v_eta_s = t\<rparr>) lab)" by simp
    show "distinct (origin # map v_pod ?vs)"
      using fin(4,5) pods dist by simp
    show "sorted_wrt (\<lambda>a b. v_impact b \<le> v_impact a) ?vs"
      using sorted_sort_key[of "\<lambda>v. - v_impact v" "map victim_of lab"] by (simp add: sorted_map)
    show "\<forall>(n, w, t) \<in> set lab. CUT \<le> w \<and> route ?adj origin n w t"
      using fin(1,2) by blast
    have keys: "set (origin # map v_pod ?vs) = insert origin (fst ` set lab)" by (simp add: image_image)
    show "\<forall>(n, w, t) \<in> set ((origin, 1, 0) # lab). \<forall>m a. (n, m, a) \<in> adj_edges ?adj \<longrightarrow>
       w * a_weight a * DECAY < CUT \<or> m \<in> set (origin # map v_pod ?vs)"
      unfolding keys using fin(3) by blast
  qed (rule vs)
qed

theorem blast_radius_tree_witness:
  "\<exists>vs. blast_radius ref_nx (build_graph ref_nx
      [\<lparr>e_src = ''a'', e_dst = ''b'', e_r = 3/4, e_lag_s = 5, e_evidence = []\<rparr>]) ''a'' = Inr vs \<and>
     distinct (''a'' # map v_pod vs)"
proof -
  let ?es = "[\<lparr>e_src = ''a'', e_dst = ''b'', e_r = 3/4, e_lag_s = 5, e_evidence = []\<rparr>]"
  have "''a'' \<in> set (nx_nodes ref_nx (build_graph ref_nx ?es))" unfolding rnx.build_graph_nodes by simp
  from blast_radius_tree[OF rnx.digraph_api_axioms this] show ?thesis by blast
qed

text \<open>
  The blast radius stays within the forward walk: every predicted victim is a key of the
  dictionary \<open>_forward_impact\<close> computes from the same root, and its reported impact is at most that
  value, rounded.
\<close>

theorem blast_within_forward_impact:
  assumes api: "digraph_api nx" and r: "\<And>e. e \<in> set edges \<Longrightarrow> \<bar>e_r e\<bar> \<le> 1"
    and vs: "blast_radius nx (build_graph nx edges) origin = Inr vs" and v: "v \<in> set vs"
  shows "\<exists>imp b. forward_impact nx (build_graph nx edges) origin = Some imp \<and>
    map_of imp (v_pod v) = Some b \<and> v_impact v \<le> round3 b"
proof -
  let ?g = "build_graph nx edges"
  let ?adj = "nx_adj nx ?g"
  have g: "good_graph nx ?g" by (rule digraph_api.good_build_graph[OF api r])
  have origin: "origin \<in> set (nx_nodes nx ?g)"
    using vs v digraph_api.has_node_adj[OF api] digraph_api.nodes_adj[OF api]
    by (auto simp: blast_radius_def split: if_splits)
  obtain lab where lab: "vs = sort_key (\<lambda>v. - v_impact v) (map victim_of lab)"
    and inv: "blast_inv ?adj origin ((origin, 1, 0) # lab) (fst ` set ((origin, 1, 0) # lab)) (map victim_of lab) []"
    using digraph_api.blast_radius_total[OF api _ origin] g vs by (auto simp: good_graph_def)
  obtain n w t where l: "(n, w, t) \<in> set lab" "v = victim_of (n, w, t)"
    using v unfolding lab by auto
  note fin = blast_inv_done[OF inv]
  have "n \<noteq> origin" using fin(4) l(1) by force
  with route_decayed[OF fin(2)[OF l(1)]] have d: "decayed ?adj origin n w" by simp
  have "CUT \<le> w" by (rule fin(1)[OF l(1)])
  from digraph_api.best_impact_exists[OF api g origin d this] obtain b where
    b: "best_impact ?adj origin n b" by blast
  then have "w \<le> b" using d by (simp add: best_impact_def)
  moreover obtain imp where "forward_impact nx ?g origin = Some imp" "map_of imp n = Some b"
    using forward_impact_best[OF api r origin] b by blast
  ultimately show ?thesis using l(2) round3_mono by auto
qed

definition two_routes :: "edge list" where
  "two_routes =
    [\<lparr>e_src = ''r'', e_dst = ''x'', e_r = 3/10, e_lag_s = 5, e_evidence = []\<rparr>,
     \<lparr>e_src = ''r'', e_dst = ''y'', e_r = 1, e_lag_s = 5, e_evidence = []\<rparr>,
     \<lparr>e_src = ''y'', e_dst = ''x'', e_r = 1, e_lag_s = 5, e_evidence = []\<rparr>,
     \<lparr>e_src = ''x'', e_dst = ''z'', e_r = 9/10, e_lag_s = 5, e_evidence = []\<rparr>]"

lemma two_routes_blast:
  "blast_radius ref_nx (build_graph ref_nx two_routes) ''r'' =
     Inr [\<lparr>v_pod = ''y'', v_impact = 7/10, v_eta_s = 5\<rparr>, \<lparr>v_pod = ''x'', v_impact = 21/100, v_eta_s = 5\<rparr>]"
  by code_simp

lemma two_routes_unit: "e \<in> set two_routes \<Longrightarrow> \<bar>e_r e\<bar> \<le> 1"
  by (auto simp: two_routes_def)

theorem blast_within_forward_impact_witness:
  "\<exists>imp b. forward_impact ref_nx (build_graph ref_nx two_routes) ''r'' = Some imp \<and>
     map_of imp ''x'' = Some b \<and> 21/100 \<le> round3 b"
  using blast_within_forward_impact[OF rnx.digraph_api_axioms two_routes_unit two_routes_blast,
    of "\<lparr>v_pod = ''x'', v_impact = 21/100, v_eta_s = 5\<rparr>"] by simp

text \<open>
  The inclusion is strict: the search keeps the label of the first visit and does not relax it, so a
  pod that the forward walk reaches with an impact above the cut can be missing from the blast radius.
\<close>

theorem blast_misses_reachable_pod:
  "\<exists>imp vs. forward_impact ref_nx (build_graph ref_nx two_routes) ''r'' = Some imp \<and>
     map_of imp ''z'' = Some (3087/10000) \<and> CUT \<le> 3087/10000 \<and>
     blast_radius ref_nx (build_graph ref_nx two_routes) ''r'' = Inr vs \<and> ''z'' \<notin> set (map v_pod vs)"
proof -
  have "map_option (\<lambda>imp. map_of imp ''z'') (forward_impact ref_nx (build_graph ref_nx two_routes) ''r'')
      = Some (Some (3087/10000))" by code_simp
  then obtain imp where "forward_impact ref_nx (build_graph ref_nx two_routes) ''r'' = Some imp"
    "map_of imp ''z'' = Some (3087/10000)" by auto
  then show ?thesis using two_routes_blast by (auto simp: CUT_def)
qed

end
