(* ===== verification/Pipeline.thy ===== *)
theory Pipeline
  imports Source Ranking
begin

text \<open>
  \<open>correlation/engine/pipeline.py\<close>, \<open>run_pass\<close>: one correlation pass from the signal vectors to the
  causal graph, stage by stage as the function has them: the gated onsets, the event centre, the
  findings, the write onsets, the slice around the event, the stall edges, the source edges, and the
  ranking with the blast radius.  Every stage that can raise is a value of the sum type.  The
  theorems say that a pass on well-formed input returns, that it is silent while every pod stays
  within its own band, what every reported edge and finding guarantees, and that the ranking and the
  blast radius belong to the reported edges.
\<close>

record finding =
  f_pod :: pod
  f_class :: shape
  f_onset_s :: real
  f_severity :: real
  f_n_onsets :: nat

record pass_result =
  p_findings :: "finding list"
  p_edges :: "edge list"
  p_ranking :: "cause list"
  p_blast :: "victim list"
  p_pods :: nat
  p_active :: nat
  p_accepted :: nat

type_synonym baselines = "real option pdict option"

text \<open>A loop that appends what its body yields, if anything.\<close>

definition collect :: "('a \<Rightarrow> 'b option res) \<Rightarrow> 'a list \<Rightarrow> 'b list res" where
  "collect f xs = rbind (rtrav f xs) (\<lambda>ys. Inr (concat (map (\<lambda>y. case y of None \<Rightarrow> [] | Some e \<Rightarrow> [e]) ys)))"

subsection \<open>Onsets\<close>

definition strong_onsets :: "numlib \<Rightarrow> signal_vec \<Rightarrow> onset list res" where
  "strong_onsets lib vec =
     rbind (cusum_default lib vec) (\<lambda>ons. Inr (filter (\<lambda>e. \<bar>o_zpeak e\<bar> \<ge> 3) ons))"

text \<open>\<open>baselines.get(pod)\<close> is None for a pod without a baseline and for an immature one.\<close>

definition within_band :: "numlib \<Rightarrow> baselines \<Rightarrow> pod \<Rightarrow> signal_vec \<Rightarrow> bool" where
  "within_band lib baselines pod vec = (case baselines of None \<Rightarrow> False
     | Some b \<Rightarrow> (case map_of b pod of Some (Some thr) \<Rightarrow> np_percentile lib vec 90 \<le> thr | _ \<Rightarrow> True))"

definition pod_onsets :: "numlib \<Rightarrow> baselines \<Rightarrow> pod \<times> signal_vec \<Rightarrow> (pod \<times> onset list) res" where
  "pod_onsets lib baselines pv = rbind (strong_onsets lib (snd pv)) (\<lambda>ons.
     Inr (fst pv, if ons \<noteq> [] \<and> within_band lib baselines (fst pv) (snd pv) then [] else ons))"

definition raw_onsets :: "numlib \<Rightarrow> baselines \<Rightarrow> signal_vec pdict \<Rightarrow> onset list pdict res" where
  "raw_onsets lib baselines vectors = rbind (rtrav (pod_onsets lib baselines) vectors)
     (\<lambda>ps. Inr (filter (\<lambda>p. snd p \<noteq> []) ps))"

subsection \<open>The event\<close>

definition peak_onset :: "onset list \<Rightarrow> onset res" where
  "peak_onset ons = (case ons of [] \<Rightarrow> Inl ValueError
     | e # es \<Rightarrow> Inr (py_max_by (\<lambda>e. \<bar>o_zpeak e\<bar>) e es))"

definition coupled_onsets :: "witness \<Rightarrow> onset list pdict \<Rightarrow> onset list pdict" where
  "coupled_onsets w raw =
     filter (\<lambda>p. list_ex (\<lambda>q. fst q \<noteq> fst p \<and> couples w (fst p) (fst q)) raw) raw"

fun strongest_event :: "onset list pdict \<Rightarrow> real \<Rightarrow> nat option \<Rightarrow> nat option res" where
  "strongest_event [] best center = Inr center"
| "strongest_event ((p, ons) # raw) best center = rbind (peak_onset ons) (\<lambda>e.
     if \<bar>o_zpeak e\<bar> > best then strongest_event raw \<bar>o_zpeak e\<bar> (Some (o_idx e))
     else strongest_event raw best center)"

definition event_center :: "witness \<Rightarrow> onset list pdict \<Rightarrow> nat option res" where
  "event_center w raw = (let c = coupled_onsets w raw in
     strongest_event (if c = [] then raw else c) (-1) None)"

definition event_onset :: "nat option \<Rightarrow> onset list \<Rightarrow> onset res" where
  "event_onset center ons = (case (center, ons) of
     (Some c, []) \<Rightarrow> Inl ValueError
   | (None, []) \<Rightarrow> Inl IndexError
   | (Some c, e # es) \<Rightarrow> Inr (py_min_by (\<lambda>e. \<bar>int (o_idx e) - int c\<bar>) e es)
   | (None, e # es) \<Rightarrow> Inr e)"

definition mk_finding :: "numlib \<Rightarrow> signal_vec pdict \<Rightarrow> real pdict \<Rightarrow> nat option \<Rightarrow>
    pod \<times> onset list \<Rightarrow> finding res" where
  "mk_finding lib vectors caps center p =
     rbind (event_onset center (snd p)) (\<lambda>ev.
     rbind (res_of_option KeyError (map_of vectors (fst p))) (\<lambda>vec.
     rbind (classify lib vec (o_idx ev) (map_of caps (fst p))) (\<lambda>cls.
       Inr \<lparr>f_pod = fst p, f_class = cls, f_onset_s = real (o_idx ev) * DT_S,
            f_severity = min (\<bar>o_zpeak ev\<bar> / 10) 1, f_n_onsets = length (snd p)\<rparr>)))"

definition write_onset :: "numlib \<Rightarrow> nat option \<Rightarrow> pod \<times> signal_vec \<Rightarrow> (pod \<times> real) option res" where
  "write_onset lib center pv = rbind (strong_onsets lib (snd pv)) (\<lambda>wons.
     if wons = [] then Inr None
     else rbind (event_onset center wons) (\<lambda>ev. Inr (Some (fst pv, real (o_idx ev) * DT_S))))"

definition write_onsets :: "numlib \<Rightarrow> nat option \<Rightarrow> signal_vec pdict \<Rightarrow> real pdict res" where
  "write_onsets lib center wvs = collect (write_onset lib center) wvs"

subsection \<open>The slice\<close>

definition slice_start :: "nat \<Rightarrow> nat \<Rightarrow> nat \<Rightarrow> nat" where
  "slice_start c window n = nat (max 0 (min (int c - int (window div 3)) (int n - int window)))"

definition slice_all :: "nat \<Rightarrow> nat \<Rightarrow> signal_vec pdict \<Rightarrow> signal_vec pdict" where
  "slice_all lo window d = map (\<lambda>(p, v). (p, py_slice lo window v)) d"

definition event_slices :: "nat option \<Rightarrow> nat option \<Rightarrow> signal_vec pdict \<Rightarrow> signal_vec pdict \<Rightarrow>
    (signal_vec pdict \<times> signal_vec pdict) res" where
  "event_slices window center vectors wvs = (case (window, center) of
     (Some n, Some c) \<Rightarrow>
       if n = 0 then Inr (vectors, wvs)
       else (case vectors of [] \<Rightarrow> Inl StopIteration
         | pv # _ \<Rightarrow> let lo = slice_start c n (length (snd pv)) in
             Inr (slice_all lo n vectors, slice_all lo n wvs))
   | _ \<Rightarrow> Inr (vectors, wvs))"

subsection \<open>Edges\<close>

fun combinations2 :: "'a list \<Rightarrow> ('a \<times> 'a) list" where
  "combinations2 [] = []"
| "combinations2 (x # xs) = map (Pair x) xs @ combinations2 xs"

definition psi_edge :: "numlib \<Rightarrow> witness \<Rightarrow> signal_vec pdict \<Rightarrow> (pod \<rightharpoonup> real) \<Rightarrow> pod set \<Rightarrow>
    pod \<times> pod \<Rightarrow> edge option res" where
  "psi_edge lib w cvec onset_s active ab =
     (let a = fst ab; b = snd ab; disturbed = (active \<noteq> {}) in
      if \<not> couples w a b then Inr None
      else if a \<notin> active \<and> b \<notin> active \<and> \<not> disturbed then Inr None
      else rbind (res_of_option KeyError (map_of cvec a)) (\<lambda>va.
           rbind (res_of_option KeyError (map_of cvec b)) (\<lambda>vb.
           rbind (best_directed lib va vb) (\<lambda>d.
             let src = (if d_forward d then a else b); dst = (if d_forward d then b else a) in
             Inr (accept_edge src dst (d_r d) (d_lag_s d) (d_profile d) w onset_s)))))"

definition np_max_abs :: "real list \<Rightarrow> real res" where
  "np_max_abs v = (if v = [] then Inl ValueError else Inr (np_max (map abs v)))"

definition write_activity :: "signal_vec pdict \<Rightarrow> real pdict res" where
  "write_activity wcvec = rtrav (\<lambda>pv. rbind (np_max_abs (snd pv)) (\<lambda>m. Inr (fst pv, m))) wcvec"

definition source_edge :: "numlib \<Rightarrow> witness \<Rightarrow> signal_vec pdict \<Rightarrow> signal_vec pdict \<Rightarrow> (pod \<rightharpoonup> real) \<Rightarrow>
    (pod \<rightharpoonup> real) \<Rightarrow> real pdict \<Rightarrow> pod set \<Rightarrow> pod \<times> pod \<Rightarrow> edge option res" where
  "source_edge lib w cvec wcvec onset_s w_onset_s act active sv =
     (let s = fst sv; v = snd sv; disturbed = (active \<noteq> {}) in
      if w_onset_s s = None then Inr None
      else if v = s \<or> \<not> couples w s v then Inr None
      else if v \<notin> active \<and> \<not> disturbed then Inr None
      else if dget act s 0 \<le> dget act v 0 then Inr None
      else rbind (res_of_option KeyError (map_of wcvec s)) (\<lambda>wv.
           rbind (res_of_option KeyError (map_of cvec v)) (\<lambda>vv.
             writer_edge lib s v wv vv w (w_onset_s s) (onset_s v))))"

definition psi_edges :: "numlib \<Rightarrow> witness \<Rightarrow> signal_vec pdict \<Rightarrow> (pod \<rightharpoonup> real) \<Rightarrow> pod set \<Rightarrow> edge list res" where
  "psi_edges lib w cvec onset_s active =
     collect (psi_edge lib w cvec onset_s active) (combinations2 (sort (map fst cvec)))"

definition source_edges :: "numlib \<Rightarrow> witness \<Rightarrow> signal_vec pdict \<Rightarrow> signal_vec pdict \<Rightarrow> (pod \<rightharpoonup> real) \<Rightarrow>
    (pod \<rightharpoonup> real) \<Rightarrow> pod set \<Rightarrow> edge list res" where
  "source_edges lib w cvec wcvec onset_s w_onset_s active =
     rbind (write_activity wcvec) (\<lambda>act.
       collect (source_edge lib w cvec wcvec onset_s w_onset_s act active)
         (List.product (sort (map fst wcvec)) (sort (map fst cvec))))"

subsection \<open>The pass\<close>

definition all_edges :: "numlib \<Rightarrow> witness \<Rightarrow> signal_vec pdict \<Rightarrow> signal_vec pdict \<Rightarrow> (pod \<rightharpoonup> real) \<Rightarrow>
    (pod \<rightharpoonup> real) \<Rightarrow> pod set \<Rightarrow> edge list res" where
  "all_edges lib w cvec wcvec onset_s w_onset_s active =
     rbind (psi_edges lib w cvec onset_s active) (\<lambda>es.
       if wcvec = [] then Inr es
       else rbind (source_edges lib w cvec wcvec onset_s w_onset_s active) (\<lambda>ss.
         Inr (dedup_edges (es @ ss))))"

definition attribute :: "'g nx \<Rightarrow> edge list \<Rightarrow> pod list \<Rightarrow> (pod \<rightharpoonup> real) \<Rightarrow>
    (cause list \<times> victim list) res" where
  "attribute nx edges seeds onset_s =
     (let g = build_graph nx edges in
      rbind (rank_root_causes nx g seeds onset_s 3) (\<lambda>ranking.
      rbind (case ranking of [] \<Rightarrow> Inr [] | c # _ \<Rightarrow> blast_radius nx g (c_pod c)) (\<lambda>blast.
        Inr (ranking, blast))))"

definition run_pass :: "numlib \<Rightarrow> 'g nx \<Rightarrow> signal_vec pdict \<Rightarrow> witness \<Rightarrow> pod list option \<Rightarrow>
    real pdict option \<Rightarrow> nat option \<Rightarrow> signal_vec pdict option \<Rightarrow> baselines \<Rightarrow> pass_result res" where
  "run_pass lib nx vectors w slo_breach caps window write_vectors baselines =
     (let caps' = (case caps of None \<Rightarrow> [] | Some c \<Rightarrow> c);
          wvs = (case write_vectors of None \<Rightarrow> [] | Some d \<Rightarrow> d) in
      rbind (raw_onsets lib baselines vectors) (\<lambda>raw.
      rbind (event_center w raw) (\<lambda>center.
      rbind (rtrav (mk_finding lib vectors caps' center) raw) (\<lambda>findings.
      rbind (write_onsets lib center wvs) (\<lambda>won.
      rbind (event_slices window center vectors wvs) (\<lambda>(cvec, wcvec).
        let onset_s = map_of (map (\<lambda>f. (f_pod f, f_onset_s f)) findings);
            active = set (map f_pod findings) in
        rbind (all_edges lib w cvec wcvec onset_s (map_of won) active) (\<lambda>edges.
          let seeds = (case slo_breach of Some (s # ss) \<Rightarrow> s # ss | _ \<Rightarrow> sort (map f_pod findings)) in
          rbind (attribute nx edges seeds onset_s) (\<lambda>(ranking, blast).
            Inr \<lparr>p_findings = sort_key f_onset_s findings, p_edges = edges,
                 p_ranking = ranking, p_blast = blast, p_pods = length vectors,
                 p_active = length findings, p_accepted = length edges\<rparr>))))))))"

subsection \<open>Each stage returns\<close>

definition uniform :: "nat \<Rightarrow> signal_vec pdict \<Rightarrow> bool" where
  "uniform n d \<longleftrightarrow> distinct (map fst d) \<and> (\<forall>(p, v) \<in> set d. length v = n)"

lemma uniformD: "uniform n d \<Longrightarrow> map_of d p = Some v \<Longrightarrow> length v = n"
  unfolding uniform_def by (auto dest: map_of_SomeD)

lemma uniform_lookup: "uniform n d \<Longrightarrow> p \<in> fst ` set d \<Longrightarrow> \<exists>v. map_of d p = Some v \<and> length v = n"
  unfolding uniform_def by force

lemma collect_total: "(\<And>x. x \<in> set xs \<Longrightarrow> \<exists>y. f x = Inr y) \<Longrightarrow> \<exists>ys. collect f xs = Inr ys"
  using rtrav_total[of xs f] by (auto simp: collect_def)

lemma collect_elem: "collect f xs = Inr ys \<Longrightarrow> y \<in> set ys \<Longrightarrow> \<exists>x \<in> set xs. f x = Inr (Some y)"
  unfolding collect_def by (fastforce simp: res_simps split: option.splits dest: rtrav_elem)

lemma collect_none: "(\<And>x. x \<in> set xs \<Longrightarrow> f x = Inr None) \<Longrightarrow> collect f xs = Inr []"
  by (simp add: collect_def rtrav_Inr[where g = "\<lambda>_. None"] concat_eq_Nil_conv)

lemma strong_onsets_total: "\<exists>ons. strong_onsets lib vec = Inr ons"
  by (cases rule: cusum_onsets_cases[of lib "1/2" 5 12 vec]) (auto simp: strong_onsets_def cusum_default_def)

lemma strong_onsets_elem:
  assumes "strong_onsets lib vec = Inr ons" "e \<in> set ons"
  shows "3 \<le> \<bar>o_zpeak e\<bar> \<and> o_idx e < length vec"
proof (cases rule: cusum_onsets_cases[of lib "1/2" 5 12 vec])
  case 1
  with assms show ?thesis by (auto simp: strong_onsets_def cusum_default_def)
next
  case (2 z)
  have e: "3 \<le> \<bar>o_zpeak e\<bar>" "e \<in> set (cusum_scan z (1/2) 5 [12..<length vec] 0 0 12)"
    using assms 2(4) by (auto simp: strong_onsets_def cusum_default_def)
  from cusum_scan_sound[OF e(2)] obtain i where i: "i \<in> set [12..<length vec]" "e = mk_onset z (o_direction e) i"
    by blast
  have "o_idx e = backtrack z i (sign_of (o_direction e))" by (subst i(2)) (simp add: mk_onset_def)
  then show ?thesis using e(1) i(1) backtrack_le[of z i "sign_of (o_direction e)"] by simp
qed

lemma pod_onsets_total: "\<exists>y. pod_onsets lib b pv = Inr y"
  using strong_onsets_total[of lib "snd pv"] by (auto simp: pod_onsets_def)

lemma raw_onsets_total: "\<exists>raw. raw_onsets lib b vectors = Inr raw"
  using rtrav_total[of vectors "pod_onsets lib b"] pod_onsets_total by (auto simp: raw_onsets_def)

lemma raw_onsets_elem:
  assumes "raw_onsets lib b vectors = Inr raw" "(p, ons) \<in> set raw"
  shows "ons \<noteq> [] \<and> (\<exists>vec. (p, vec) \<in> set vectors \<and> strong_onsets lib vec = Inr ons \<and> \<not> within_band lib b p vec)"
proof -
  obtain ps where ps: "rtrav (pod_onsets lib b) vectors = Inr ps" and raw: "raw = filter (\<lambda>p. snd p \<noteq> []) ps"
    using assms(1) by (auto simp: raw_onsets_def res_simps)
  have ne: "ons \<noteq> []" and "(p, ons) \<in> set ps" using assms(2) raw by auto
  from rtrav_elem[OF ps this(2)] obtain pv where "pv \<in> set vectors" "pod_onsets lib b pv = Inr (p, ons)" by blast
  with ne show ?thesis by (cases pv) (auto simp: pod_onsets_def res_simps split: if_splits)
qed

lemma raw_onsets_complete:
  assumes "raw_onsets lib b vectors = Inr raw" "(p, v) \<in> set vectors" "strong_onsets lib v = Inr ons"
    "ons \<noteq> []" "\<not> within_band lib b p v"
  shows "(p, ons) \<in> set raw"
proof -
  obtain ps where ps: "rtrav (pod_onsets lib b) vectors = Inr ps" and raw: "raw = filter (\<lambda>p. snd p \<noteq> []) ps"
    using assms(1) by (auto simp: raw_onsets_def res_simps)
  obtain y where "y \<in> set ps" "pod_onsets lib b (p, v) = Inr y" using rtrav_image[OF ps assms(2)] by blast
  with assms(3-5) raw show ?thesis by (auto simp: pod_onsets_def)
qed

lemma raw_onsets_keys:
  assumes "raw_onsets lib b vectors = Inr raw" "distinct (map fst vectors)"
  shows "distinct (map fst raw)"
proof -
  obtain ps where ps: "rtrav (pod_onsets lib b) vectors = Inr ps" and raw: "raw = filter (\<lambda>p. snd p \<noteq> []) ps"
    using assms(1) by (auto simp: raw_onsets_def res_simps)
  have "map fst ps = map fst vectors" by (rule rtrav_map[OF ps]) (auto simp: pod_onsets_def res_simps)
  then show ?thesis using assms(2) unfolding raw by (metis distinct_map_filter)
qed

lemma strongest_event_total:
  "(\<And>p ons. (p, ons) \<in> set raw \<Longrightarrow> ons \<noteq> []) \<Longrightarrow> \<exists>c. strongest_event raw best center = Inr c"
proof (induction raw best center rule: strongest_event.induct)
  case (2 p ons raw best center)
  have "ons \<noteq> []" by (rule "2.prems") (rule list.set_intros(1))
  then obtain e where "peak_onset ons = Inr e" by (cases ons) (auto simp: peak_onset_def)
  moreover have rest: "os \<noteq> []" if "(k, os) \<in> set raw" for k os
    using "2.prems"[of k os] that by simp
  ultimately show ?case using "2.IH"(1)[OF _ rest] "2.IH"(2)[OF _ rest] by simp
qed simp

lemma strongest_event_spec:
  assumes "strongest_event raw best center = Inr r"
  shows "r = center \<and> (\<forall>(p, ons) \<in> set raw. \<forall>e \<in> set ons. \<bar>o_zpeak e\<bar> \<le> best) \<or>
    (\<exists>(p, ons) \<in> set raw. \<exists>e \<in> set ons. r = Some (o_idx e) \<and> best < \<bar>o_zpeak e\<bar> \<and>
       (\<forall>(q, os) \<in> set raw. \<forall>e' \<in> set os. \<bar>o_zpeak e'\<bar> \<le> \<bar>o_zpeak e\<bar>))"
  using assms
proof (induction raw best center rule: strongest_event.induct)
  case (2 p ons raw best center)
  obtain a as where ons: "ons = a # as" using "2.prems" by (cases ons) (auto simp: peak_onset_def)
  define e where "e = py_max_by (\<lambda>e. \<bar>o_zpeak e\<bar>) a as"
  have pk: "peak_onset ons = Inr e" by (simp add: peak_onset_def ons e_def)
  have e: "e \<in> set ons" using py_max_by_in[of _ a as] by (simp add: e_def ons)
  have max: "\<forall>e' \<in> set ons. \<bar>o_zpeak e'\<bar> \<le> \<bar>o_zpeak e\<bar>"
    using py_max_by_ge_base[of "\<lambda>e. \<bar>o_zpeak e\<bar>" a as] py_max_by_ge[of _ as "\<lambda>e. \<bar>o_zpeak e\<bar>" a]
    by (auto simp: e_def ons)
  show ?case
  proof (cases "best < \<bar>o_zpeak e\<bar>")
    case True
    then have "strongest_event raw \<bar>o_zpeak e\<bar> (Some (o_idx e)) = Inr r" using "2.prems" pk by simp
    from "2.IH"(1)[OF True this] show ?thesis
    proof
      assume "r = Some (o_idx e) \<and> (\<forall>(p, ons) \<in> set raw. \<forall>e' \<in> set ons. \<bar>o_zpeak e'\<bar> \<le> \<bar>o_zpeak e\<bar>)"
      then show ?thesis using e max True by (intro disjI2 bexI[of _ "(p, ons)"]) auto
    next
      assume "\<exists>(q, os) \<in> set raw. \<exists>x \<in> set os. r = Some (o_idx x) \<and> \<bar>o_zpeak e\<bar> < \<bar>o_zpeak x\<bar> \<and>
        (\<forall>(q, os) \<in> set raw. \<forall>e' \<in> set os. \<bar>o_zpeak e'\<bar> \<le> \<bar>o_zpeak x\<bar>)"
      then obtain q os x where x: "(q, os) \<in> set raw" "x \<in> set os" "r = Some (o_idx x)"
        "\<bar>o_zpeak e\<bar> < \<bar>o_zpeak x\<bar>" "\<forall>(q, os) \<in> set raw. \<forall>e' \<in> set os. \<bar>o_zpeak e'\<bar> \<le> \<bar>o_zpeak x\<bar>"
        by blast
      have "\<forall>e' \<in> set ons. \<bar>o_zpeak e'\<bar> \<le> \<bar>o_zpeak x\<bar>" using max x(4) by fastforce
      then show ?thesis using x True by (intro disjI2 bexI[of _ "(q, os)"]) auto
    qed
  next
    case False
    then have "strongest_event raw best center = Inr r" using "2.prems" pk by simp
    from "2.IH"(2)[OF False this] show ?thesis
    proof
      assume "r = center \<and> (\<forall>(p, ons) \<in> set raw. \<forall>e \<in> set ons. \<bar>o_zpeak e\<bar> \<le> best)"
      moreover have "\<forall>e' \<in> set ons. \<bar>o_zpeak e'\<bar> \<le> best" using max False by fastforce
      ultimately show ?thesis by (intro disjI1) auto
    next
      assume "\<exists>(q, os) \<in> set raw. \<exists>x \<in> set os. r = Some (o_idx x) \<and> best < \<bar>o_zpeak x\<bar> \<and>
        (\<forall>(q, os) \<in> set raw. \<forall>e' \<in> set os. \<bar>o_zpeak e'\<bar> \<le> \<bar>o_zpeak x\<bar>)"
      then obtain q os x where x: "(q, os) \<in> set raw" "x \<in> set os" "r = Some (o_idx x)"
        "best < \<bar>o_zpeak x\<bar>" "\<forall>(q, os) \<in> set raw. \<forall>e' \<in> set os. \<bar>o_zpeak e'\<bar> \<le> \<bar>o_zpeak x\<bar>"
        by blast
      have "\<forall>e' \<in> set ons. \<bar>o_zpeak e'\<bar> \<le> \<bar>o_zpeak x\<bar>" using max False x(4) by fastforce
      then show ?thesis using x by (intro disjI2 bexI[of _ "(q, os)"]) auto
    qed
  qed
qed simp

lemma event_center_total:
  "(\<And>p ons. (p, ons) \<in> set raw \<Longrightarrow> ons \<noteq> []) \<Longrightarrow> \<exists>c. event_center w raw = Inr c"
  unfolding event_center_def Let_def by (rule strongest_event_total) (auto simp: coupled_onsets_def split: if_splits)

lemma event_onset_nearest:
  assumes "event_onset (Some c) ons = Inr ev" "e \<in> set ons"
  shows "\<bar>int (o_idx ev) - int c\<bar> \<le> \<bar>int (o_idx e) - int c\<bar>"
  using assms py_min_by_le_base[of "\<lambda>e. \<bar>int (o_idx e) - int c\<bar>" "hd ons" "tl ons"]
    py_min_by_le[of e "tl ons" "\<lambda>e. \<bar>int (o_idx e) - int c\<bar>" "hd ons"]
  by (cases ons) (auto simp: event_onset_def)

lemma event_onset_elem: "ons \<noteq> [] \<Longrightarrow> \<exists>e \<in> set ons. event_onset center ons = Inr e"
  using py_min_by_in[of _ "hd ons" "tl ons"]
  by (cases ons; cases center) (auto simp: event_onset_def)

lemma mk_finding_total:
  assumes "stats_api lib" "distinct (map fst vectors)" "raw_onsets lib b vectors = Inr raw" "p \<in> set raw"
  shows "\<exists>f. mk_finding lib vectors caps center p = Inr f"
proof -
  obtain k ons where p: "p = (k, ons)" by (cases p)
  obtain vec where v: "(k, vec) \<in> set vectors" "ons \<noteq> []"
    using raw_onsets_elem[OF assms(3)] assms(4) unfolding p by blast
  then obtain e where e: "event_onset center ons = Inr e" using event_onset_elem by blast
  have m: "map_of vectors k = Some vec" using v(1) assms(2) by simp
  obtain s where "classify lib vec (o_idx e) (map_of caps k) = Inr s"
    using stats_api.classify_total[OF assms(1)] by blast
  then show ?thesis by (simp add: mk_finding_def p e m)
qed

lemma mk_finding_fields:
  assumes "mk_finding lib vectors caps center (k, ons) = Inr f"
  obtains ev vec where "event_onset center ons = Inr ev" "map_of vectors k = Some vec"
    "classify lib vec (o_idx ev) (map_of caps k) = Inr (f_class f)" "f_pod f = k"
    "f_onset_s f = real (o_idx ev) * DT_S" "f_severity f = min (\<bar>o_zpeak ev\<bar> / 10) 1"
    "f_n_onsets f = length ons"
  using assms unfolding mk_finding_def
  by (cases "map_of vectors k") (auto simp: res_simps)

lemma write_onset_total: "\<exists>y. write_onset lib center pv = Inr y"
proof -
  obtain ons where o: "strong_onsets lib (snd pv) = Inr ons" using strong_onsets_total by blast
  then show ?thesis using event_onset_elem[of ons center] by (cases "ons = []") (auto simp: write_onset_def)
qed

lemma write_onsets_total: "\<exists>won. write_onsets lib center wvs = Inr won"
  unfolding write_onsets_def by (rule collect_total[OF write_onset_total])

lemma strongest_event_None:
  "strongest_event raw best None = Inr (Some c) \<Longrightarrow> raw \<noteq> []"
  by auto

lemma event_center_raw: "event_center w raw = Inr (Some c) \<Longrightarrow> raw \<noteq> []"
  unfolding event_center_def Let_def by (auto simp: coupled_onsets_def split: if_splits)

lemma slice_length:
  assumes "0 < n" "0 < window" "length v = n"
  shows "length (py_slice (slice_start c window n) window v) = min window n"
proof -
  have "slice_start c window n + window \<le> n \<or> slice_start c window n = 0 \<and> n \<le> window"
    by (auto simp: slice_start_def max_def min_def)
  then show ?thesis using assms by (auto simp: length_py_slice)
qed

lemma slice_all_uniform:
  assumes "uniform n d" "0 < n" "0 < window"
  shows "uniform (min window n) (slice_all (slice_start c window n) window d)"
    and "map fst (slice_all (slice_start c window n) window d) = map fst d"
proof -
  show eq: "map fst (slice_all (slice_start c window n) window d) = map fst d"
    by (auto simp: slice_all_def)
  show "uniform (min window n) (slice_all (slice_start c window n) window d)"
    using assms unfolding uniform_def eq by (auto simp: slice_all_def slice_length)
qed

lemma event_slices_total:
  assumes "uniform n vectors" "uniform n wvs" "0 < n" "center \<noteq> None \<longrightarrow> vectors \<noteq> []"
  shows "\<exists>m cvec wcvec. event_slices window center vectors wvs = Inr (cvec, wcvec) \<and> 0 < m \<and>
    uniform m cvec \<and> uniform m wcvec \<and> map fst cvec = map fst vectors \<and> map fst wcvec = map fst wvs"
proof (cases "\<exists>k c. window = Some k \<and> center = Some c \<and> k \<noteq> 0")
  case False
  then have "event_slices window center vectors wvs = Inr (vectors, wvs)"
    by (auto simp: event_slices_def split: option.splits)
  then show ?thesis using assms by blast
next
  case True
  then obtain k c where kc: "window = Some k" "center = Some c" "0 < k" by auto
  then obtain pv rest where v: "vectors = pv # rest" using assms(4) by (cases vectors) auto
  then have "length (snd pv) = n" using assms(1) by (auto simp: uniform_def)
  then have "event_slices window center vectors wvs
      = Inr (slice_all (slice_start c k n) k vectors, slice_all (slice_start c k n) k wvs)"
    using kc by (simp add: event_slices_def v Let_def)
  then show ?thesis
    using slice_all_uniform[OF assms(1,3) kc(3)] slice_all_uniform[OF assms(2,3) kc(3)] assms(3) kc(3)
    by (intro exI[of _ "min k n"]) auto
qed

subsection \<open>Edges\<close>

lemma combinations2_in:
  "(a, b) \<in> set (combinations2 xs) \<Longrightarrow> a \<in> set xs \<and> b \<in> set xs \<and> (distinct xs \<longrightarrow> a \<noteq> b)"
  by (induction xs) auto

lemma combinations2_covers:
  "a \<in> set xs \<Longrightarrow> b \<in> set xs \<Longrightarrow> a \<noteq> b \<Longrightarrow> (a, b) \<in> set (combinations2 xs) \<or> (b, a) \<in> set (combinations2 xs)"
  by (induction xs) auto

text \<open>What every accepted edge of a pass satisfies.\<close>

definition good_edge :: "witness \<Rightarrow> edge \<Rightarrow> bool" where
  "good_edge w e \<longleftrightarrow> couples w (e_src e) (e_dst e) \<and> e_src e \<noteq> e_dst e \<and>
     R_SRC \<le> e_r e \<and> e_r e \<le> 1 \<and> e_lag_s e \<in> set LAGS_S"

lemma adjacent_support_key: "adjacent_support prof l c \<Longrightarrow> l \<in> fst ` set prof"
  by (simp add: adjacent_support_def Let_def split: if_splits)

lemma accept_edge_support: "accept_edge a b r l prof w os = Some e \<Longrightarrow> adjacent_support prof l R_ADJ"
  by (simp add: accept_edge_def split: if_splits)

lemma lag_key: "map fst prof = usable_lags n \<Longrightarrow> l \<in> fst ` set prof \<Longrightarrow> l \<in> set LAGS_S"
  by (metis list.set_map usable_lagsD)

lemma psi_edge_good:
  assumes lib: "stats_api lib" and c: "uniform m cvec" "0 < m"
    and ab: "a \<in> fst ` set cvec" "b \<in> fst ` set cvec" "a \<noteq> b"
  shows "\<exists>r. psi_edge lib w cvec os active (a, b) = Inr r \<and>
    (\<forall>e. r = Some e \<longrightarrow> good_edge w e \<and> active \<noteq> {} \<and> pair_of e = {a, b} \<and> ''write'' \<notin> set (e_evidence e))"
proof -
  obtain va vb where v12: "map_of cvec a = Some va" "map_of cvec b = Some vb"
    and len: "length va = m" "length vb = m"
    using uniform_lookup[OF c(1) ab(1)] uniform_lookup[OF c(1) ab(2)] by blast
  have "va \<noteq> []" "vb \<noteq> []" using len c(2) by auto
  note v = v12 this
  obtain d where d: "best_directed lib va vb = Inr d" "\<bar>d_r d\<bar> \<le> 1"
    "map fst (d_profile d) = usable_lags (min (length va) (length vb))"
    using stats_api.best_directed_peak[OF lib v(3,4)] by blast
  have good: "good_edge w e \<and> pair_of e = {a, b} \<and> ''write'' \<notin> set (e_evidence e)"
    if e: "accept_edge x y (d_r d) (d_lag_s d) (d_profile d) w os = Some e"
      and xy: "{x, y} = {a, b}" for x y e
  proof -
    note f = accept_edge_fields[OF e] accept_edge_strength[OF e d(2)] accept_edge_couples[OF e]
      lag_key[OF d(3) adjacent_support_key[OF accept_edge_support[OF e]]]
    have "x \<noteq> y" using xy ab(3) by (auto simp: doubleton_eq_iff)
    moreover have "''write'' \<notin> set (e_evidence e)" using kinds_physical[of w x y] unfolding f(6) by auto
    ultimately show ?thesis using f xy by (auto simp: good_edge_def pair_of_def R_SRC_def R_PEAK_def)
  qed
  have swap: "{b, a} = {a, b}" by blast
  show ?thesis
    using good[of a b] good[OF _ swap] by (auto simp: psi_edge_def v d(1) Let_def)
qed

lemma source_edge_good:
  assumes lib: "stats_api lib" and c: "uniform m cvec" "uniform m wcvec"
    and sv: "s \<in> fst ` set wcvec" "v \<in> fst ` set cvec"
  shows "\<exists>r. source_edge lib w cvec wcvec os wos act active (s, v) = Inr r \<and>
    (\<forall>e. r = Some e \<longrightarrow> good_edge w e \<and> active \<noteq> {} \<and> e_src e = s \<and> e_dst e = v \<and>
       ''write'' \<in> set (e_evidence e) \<and> wos s \<noteq> None \<and> dget act v 0 < dget act s 0)"
proof -
  obtain ws vv where v: "map_of wcvec s = Some ws" "map_of cvec v = Some vv" "length ws = length vv"
    using uniform_lookup[OF c(2) sv(1)] uniform_lookup[OF c(1) sv(2)] by auto
  obtain r where r: "writer_edge lib s v ws vv w (wos s) (os v) = Inr r"
    using writer_edge_total[OF lib v(3)] by blast
  have good: "good_edge w e \<and> e_src e = s \<and> e_dst e = v \<and> ''write'' \<in> set (e_evidence e)"
    if "r = Some e" "v \<noteq> s" for e
  proof -
    have e: "writer_edge lib s v ws vv w (wos s) (os v) = Inr (Some e)" using r that by simp
    then show ?thesis
    proof (cases rule: writer_edge_fields)
      case (1 prof p ps)
      from lag_key[OF lag_profile_keys[OF 1(2)] adjacent_support_key[OF 1(9)]]
      show ?thesis using 1 writer_edge_strength[OF e lib v(3)] that(2) by (simp add: good_edge_def)
    qed
  qed
  show ?thesis using good r by (auto simp: source_edge_def v(1,2) Let_def not_le)
qed

lemma distinct_combinations2:
  "distinct xs \<Longrightarrow> distinct (map (\<lambda>ab. {fst ab, snd ab}) (combinations2 xs))"
proof (induction xs)
  case (Cons x xs)
  have "inj_on (\<lambda>y. {x, y}) (set xs)" using Cons.prems by (auto simp: inj_on_def doubleton_eq_iff)
  moreover have "{x, y} \<noteq> {fst ab, snd ab}" if "ab \<in> set (combinations2 xs)" for y ab
    using combinations2_in[of "fst ab" "snd ab" xs] that Cons.prems by (auto simp: doubleton_eq_iff)
  ultimately show ?case using Cons by (auto simp: distinct_map comp_def)
qed simp

lemma collect_distinct:
  assumes "collect f xs = Inr ys" "\<And>x y. x \<in> set xs \<Longrightarrow> f x = Inr (Some y) \<Longrightarrow> g y = h x"
    and "distinct (map h xs)"
  shows "distinct (map g ys) \<and> set (map g ys) \<subseteq> set (map h xs)"
  using assms
proof (induction xs arbitrary: ys)
  case Nil
  then show ?case by (simp add: collect_def)
next
  case (Cons x xs)
  obtain y zs where y: "f x = Inr y" "collect f xs = Inr zs" "ys = (case y of None \<Rightarrow> [] | Some e \<Rightarrow> [e]) @ zs"
    using Cons.prems(1) by (auto simp: collect_def res_simps)
  have IH: "distinct (map g zs) \<and> set (map g zs) \<subseteq> set (map h xs)"
    by (rule Cons.IH[OF y(2)]) (use Cons.prems in auto)
  show ?case
  proof (cases y)
    case (Some e)
    then have "g e = h x" using Cons.prems(2)[of x e] y(1) by simp
    then show ?thesis using IH Cons.prems(3) y(3) Some by auto
  qed (use IH y(3) in auto)
qed

definition edge_set_ok :: "witness \<Rightarrow> pod set \<Rightarrow> pod set \<Rightarrow> edge list \<Rightarrow> bool" where
  "edge_set_ok w active pods es \<longleftrightarrow> distinct (map pair_of es) \<and>
     (\<forall>e \<in> set es. good_edge w e \<and> active \<noteq> {} \<and> e_src e \<in> pods \<and> e_dst e \<in> pods)"

lemma psi_edges_ok:
  assumes lib: "stats_api lib" and c: "uniform m cvec" "0 < m"
  shows "\<exists>es. psi_edges lib w cvec os active = Inr es \<and> edge_set_ok w active (fst ` set cvec) es"
proof -
  let ?xs = "combinations2 (sort (map fst cvec))" and ?f = "psi_edge lib w cvec os active"
  have d: "distinct (sort (map fst cvec))" using c(1) by (simp add: uniform_def)
  have f: "\<exists>r. ?f ab = Inr r \<and> (\<forall>e. r = Some e \<longrightarrow> good_edge w e \<and> active \<noteq> {} \<and>
      pair_of e = {fst ab, snd ab} \<and> fst ab \<in> fst ` set cvec \<and> snd ab \<in> fst ` set cvec)"
    if "ab \<in> set ?xs" for ab
  proof -
    have "fst ab \<in> fst ` set cvec" "snd ab \<in> fst ` set cvec" "fst ab \<noteq> snd ab"
      using combinations2_in[of "fst ab" "snd ab" "sort (map fst cvec)"] that d by simp_all
    from psi_edge_good[OF lib c this, of w os active] this(1,2) show ?thesis unfolding prod.collapse by blast
  qed
  have "\<exists>y. ?f ab = Inr y" if "ab \<in> set ?xs" for ab using f[OF that] by blast
  from collect_total[of ?xs ?f, OF this] obtain es where
    es: "psi_edges lib w cvec os active = Inr es" "collect ?f ?xs = Inr es"
    by (auto simp: psi_edges_def)
  have "distinct (map pair_of es)"
    using collect_distinct[OF es(2) _ distinct_combinations2[OF d], of pair_of] f by fastforce
  moreover have "good_edge w e \<and> active \<noteq> {} \<and> e_src e \<in> fst ` set cvec \<and> e_dst e \<in> fst ` set cvec"
    if e: "e \<in> set es" for e
  proof -
    obtain ab where ab: "ab \<in> set ?xs" "?f ab = Inr (Some e)" using collect_elem[OF es(2) e] by blast
    from f[OF ab(1)] ab(2) have "good_edge w e \<and> active \<noteq> {} \<and> pair_of e = {fst ab, snd ab} \<and>
      fst ab \<in> fst ` set cvec \<and> snd ab \<in> fst ` set cvec" by simp
    then show ?thesis unfolding pair_of_def doubleton_eq_iff by metis
  qed
  ultimately show ?thesis using es(1) unfolding edge_set_ok_def by blast
qed

lemma write_activity_total: "uniform m wcvec \<Longrightarrow> 0 < m \<Longrightarrow> \<exists>act. write_activity wcvec = Inr act"
  unfolding write_activity_def
  by (rule rtrav_total) (auto simp: np_max_abs_def uniform_def)

lemma source_edges_ok:
  assumes lib: "stats_api lib" and c: "uniform m cvec" "uniform m wcvec" "0 < m"
  shows "\<exists>es. source_edges lib w cvec wcvec os wos active = Inr es \<and> (\<forall>e \<in> set es. good_edge w e \<and>
    active \<noteq> {} \<and> ''write'' \<in> set (e_evidence e) \<and> wos (e_src e) \<noteq> None \<and>
    e_src e \<in> fst ` set wcvec \<and> e_dst e \<in> fst ` set cvec)"
proof -
  let ?xs = "List.product (sort (map fst wcvec)) (sort (map fst cvec))"
  obtain act where act: "write_activity wcvec = Inr act" using write_activity_total[OF c(2,3)] by blast
  let ?f = "source_edge lib w cvec wcvec os wos act active"
  have f: "\<exists>r. ?f sv = Inr r \<and> (\<forall>e. r = Some e \<longrightarrow> good_edge w e \<and>
    active \<noteq> {} \<and> ''write'' \<in> set (e_evidence e) \<and> wos (e_src e) \<noteq> None \<and>
    e_src e \<in> fst ` set wcvec \<and> e_dst e \<in> fst ` set cvec)" if "sv \<in> set ?xs" for sv
  proof -
    have k: "fst sv \<in> fst ` set wcvec" "snd sv \<in> fst ` set cvec"
      using that by (simp_all add: mem_Times_iff)
    from source_edge_good[OF lib c(1,2) k, of w os wos act active] k
    show ?thesis unfolding prod.collapse by metis
  qed
  have "\<exists>y. ?f sv = Inr y" if "sv \<in> set ?xs" for sv using f[OF that] by blast
  from collect_total[of ?xs ?f, OF this] obtain es where es: "collect ?f ?xs = Inr es" by blast
  show ?thesis
  proof (intro exI[of _ es] conjI ballI)
    show "source_edges lib w cvec wcvec os wos active = Inr es" by (simp add: source_edges_def act es)
    fix e assume "e \<in> set es"
    from collect_elem[OF es this] obtain sv where sv: "sv \<in> set ?xs" "?f sv = Inr (Some e)" by blast
    from f[OF sv(1)] sv(2)
    show "good_edge w e" "active \<noteq> {}" "''write'' \<in> set (e_evidence e)" "wos (e_src e) \<noteq> None"
      "e_src e \<in> fst ` set wcvec" "e_dst e \<in> fst ` set cvec" by auto
  qed
qed

lemma all_edges_ok:
  assumes lib: "stats_api lib" and c: "uniform m cvec" "uniform m wcvec" "0 < m"
  shows "\<exists>es. all_edges lib w cvec wcvec os wos active = Inr es \<and>
    edge_set_ok w active (fst ` set cvec \<union> fst ` set wcvec) es"
proof -
  obtain ps where ps: "psi_edges lib w cvec os active = Inr ps" "edge_set_ok w active (fst ` set cvec) ps"
    using psi_edges_ok[OF lib c(1,3)] by blast
  from source_edges_ok[OF lib c, of w os wos active]
  obtain ss where ss1: "source_edges lib w cvec wcvec os wos active = Inr ss"
    and ss2: "\<forall>e \<in> set ss. good_edge w e \<and> active \<noteq> {} \<and> ''write'' \<in> set (e_evidence e) \<and>
      wos (e_src e) \<noteq> None \<and> e_src e \<in> fst ` set wcvec \<and> e_dst e \<in> fst ` set cvec" by blast
  have ss: "source_edges lib w cvec wcvec os wos active = Inr ss"
    "e \<in> set ss \<Longrightarrow> good_edge w e \<and> active \<noteq> {} \<and> e_src e \<in> fst ` set wcvec \<and> e_dst e \<in> fst ` set cvec" for e
    using ss1 ss2 by blast+
  show ?thesis
  proof (cases "wcvec = []")
    case True
    then show ?thesis using ps by (auto simp: all_edges_def)
  next
    case False
    then have "all_edges lib w cvec wcvec os wos active = Inr (dedup_edges (ps @ ss))"
      by (simp add: all_edges_def ps(1) ss(1))
    moreover have "good_edge w e \<and> active \<noteq> {} \<and> e_src e \<in> fst ` set cvec \<union> fst ` set wcvec \<and>
        e_dst e \<in> fst ` set cvec \<union> fst ` set wcvec" if "e \<in> set (dedup_edges (ps @ ss))" for e
    proof -
      have "e \<in> set ps \<or> e \<in> set ss" using dedup_subset[OF that] by simp
      then show ?thesis using ps(2) ss(2)[of e] unfolding edge_set_ok_def by blast
    qed
    moreover note dedup_distinct[of "ps @ ss"]
    ultimately show ?thesis unfolding edge_set_ok_def by blast
  qed
qed

subsection \<open>Attribution\<close>

text \<open>The ranking and the blast radius of a list of edges.\<close>

definition attribution_ok :: "'g nx \<Rightarrow> edge list \<Rightarrow> pod list \<Rightarrow> (pod \<rightharpoonup> real) \<Rightarrow> cause list \<Rightarrow> victim list \<Rightarrow> bool" where
  "attribution_ok nx edges seeds onset_s rk bl \<longleftrightarrow>
     rank_root_causes nx (build_graph nx edges) seeds onset_s 3 = Inr rk \<and> length rk \<le> 3 \<and>
     (rk = [] \<longleftrightarrow> edges = []) \<and> (rk = [] \<longrightarrow> bl = []) \<and>
     (\<forall>c cs. rk = c # cs \<longrightarrow> blast_radius nx (build_graph nx edges) (c_pod c) = Inr bl)"

lemma rank_no_edges:
  assumes "digraph_api nx"
  shows "rank_root_causes nx (build_graph nx ([] :: edge list)) seeds os k = Inr []"
  using digraph_api.number_of_edges_adj[OF assms] digraph_api.adj_new[OF assms]
  by (simp add: rank_root_causes_def build_graph_def adj_size_def)

lemma attribute_total:
  assumes api: "digraph_api nx" and r: "\<And>e. e \<in> set edges \<Longrightarrow> R_SRC \<le> e_r e \<and> e_r e \<le> 1"
  shows "\<exists>rk bl. attribute nx edges seeds os = Inr (rk, bl) \<and> attribution_ok nx edges seeds os rk bl"
proof -
  let ?g = "build_graph nx edges"
  have unit: "\<bar>e_r e\<bar> \<le> 1" and strong: "3 / 14 \<le> \<bar>e_r e\<bar> \<and> \<bar>e_r e\<bar> \<le> 1" if "e \<in> set edges" for e
    using r[OF that] by (auto simp: R_SRC_def)
  obtain rk where rk: "rank_root_causes nx ?g seeds os 3 = Inr rk" "length rk \<le> 3"
    "\<forall>c \<in> set rk. c_pod c \<in> set (nx_nodes nx ?g)"
    using rank_sound[OF api unit, of _ seeds os 3] by blast
  have iff: "rk = [] \<longleftrightarrow> edges = []"
  proof
    show "edges = []" if "rk = []"
    proof (rule ccontr)
      assume ne: "edges \<noteq> []"
      from rank_nonempty[OF api ne, of 3 seeds os] strong rk(1) that show False by auto
    qed
    show "rk = []" if "edges = []" using rank_no_edges[OF api, of seeds os 3] rk(1) that by simp
  qed
  show ?thesis
  proof (cases rk)
    case Nil
    then have "attribute nx edges seeds os = Inr ([], [])" using rk(1) by (simp add: attribute_def Let_def)
    then show ?thesis using rk(1,2) iff Nil by (auto simp: attribution_ok_def)
  next
    case (Cons c cs)
    have "c_pod c \<in> set (nx_nodes nx ?g)" using rk(3) Cons by simp
    from digraph_api.blast_radius_total[OF api digraph_api.build_graph_wf[OF api] this]
    obtain bl where bl: "blast_radius nx ?g (c_pod c) = Inr bl" by blast
    then have "attribute nx edges seeds os = Inr (rk, bl)" using rk(1) Cons by (simp add: attribute_def Let_def)
    then show ?thesis using rk(1,2) iff Cons bl by (auto simp: attribution_ok_def)
  qed
qed

subsection \<open>The whole pass\<close>

definition opt_dict :: "'v pdict option \<Rightarrow> 'v pdict" where
  "opt_dict d = (case d of None \<Rightarrow> [] | Some d \<Rightarrow> d)"

text \<open>All signal vectors of a pass have one length, as the service builds them.\<close>

definition wf_input :: "signal_vec pdict \<Rightarrow> signal_vec pdict option \<Rightarrow> bool" where
  "wf_input vectors wv \<longleftrightarrow> (\<exists>n > 0. uniform n vectors \<and> uniform n (opt_dict wv))"

definition pass_seeds :: "pod list option \<Rightarrow> finding list \<Rightarrow> pod list" where
  "pass_seeds slo fs = (case slo of Some (s # ss) \<Rightarrow> s # ss | _ \<Rightarrow> sort (map f_pod fs))"

definition onset_map :: "finding list \<Rightarrow> pod \<rightharpoonup> real" where
  "onset_map fs = map_of (map (\<lambda>f. (f_pod f, f_onset_s f)) fs)"

lemma onset_map_sort: "distinct (map f_pod fs) \<Longrightarrow> onset_map (sort_key k fs) = onset_map fs"
  unfolding onset_map_def
  by (subst map_of_inject_set) (simp_all add: comp_def distinct_sort_key_fst)

lemma pass_seeds_sort: "pass_seeds slo (sort_key k fs) = pass_seeds slo fs"
proof -
  have "sort (map f_pod (sort_key k fs)) = sort (map f_pod fs)" by (rule properties_for_sort) simp_all
  then show ?thesis by (simp add: pass_seeds_def split: option.splits list.splits)
qed

lemma run_pass_stages:
  assumes lib: "stats_api lib" and api: "digraph_api nx" and wf: "wf_input vectors wv"
  obtains raw center fs edges rk bl where
    "raw_onsets lib b vectors = Inr raw" "event_center w raw = Inr center"
    "rtrav (mk_finding lib vectors (opt_dict caps) center) raw = Inr fs"
    "map f_pod fs = map fst raw" "distinct (map f_pod fs)"
    "edge_set_ok w (set (map f_pod fs)) (fst ` set vectors \<union> fst ` set (opt_dict wv)) edges"
    "attribution_ok nx edges (pass_seeds slo fs) (onset_map fs) rk bl"
    "run_pass lib nx vectors w slo caps window wv b = Inr \<lparr>p_findings = sort_key f_onset_s fs,
       p_edges = edges, p_ranking = rk, p_blast = bl, p_pods = length vectors,
       p_active = length fs, p_accepted = length edges\<rparr>"
proof -
  obtain n where n: "0 < n" "uniform n vectors" "uniform n (opt_dict wv)" using wf by (auto simp: wf_input_def)
  have dv: "distinct (map fst vectors)" using n(2) by (simp add: uniform_def)
  obtain raw where raw: "raw_onsets lib b vectors = Inr raw" using raw_onsets_total by blast
  have ne: "ons \<noteq> []" if "(p, ons) \<in> set raw" for p ons using raw_onsets_elem[OF raw that] by simp
  obtain center where center: "event_center w raw = Inr center" using event_center_total[of raw w] ne by blast
  obtain fs where fs: "rtrav (mk_finding lib vectors (opt_dict caps) center) raw = Inr fs"
    using rtrav_total[of raw "mk_finding lib vectors (opt_dict caps) center"] mk_finding_total[OF lib dv raw]
    by auto
  have pods: "map f_pod fs = map fst raw"
    by (rule rtrav_map[OF fs]) (auto elim: mk_finding_fields)
  then have dist: "distinct (map f_pod fs)" using raw_onsets_keys[OF raw dv] by simp
  obtain won where won: "write_onsets lib center (opt_dict wv) = Inr won" using write_onsets_total by blast
  have "center \<noteq> None \<longrightarrow> vectors \<noteq> []" using event_center_raw[of w raw] center raw
    by (auto simp: raw_onsets_def)
  from event_slices_total[OF n(2,3,1) this, of window] obtain m cvec wcvec where
    sl: "event_slices window center vectors (opt_dict wv) = Inr (cvec, wcvec)" "0 < m"
      "uniform m cvec" "uniform m wcvec" "map fst cvec = map fst vectors"
      "map fst wcvec = map fst (opt_dict wv)" by blast
  from all_edges_ok[OF lib sl(3,4,2), of w "onset_map fs" "map_of won" "set (map f_pod fs)"]
  obtain edges where edges: "all_edges lib w cvec wcvec (onset_map fs) (map_of won) (set (map f_pod fs)) = Inr edges"
    "edge_set_ok w (set (map f_pod fs)) (fst ` set cvec \<union> fst ` set wcvec) edges" by blast
  have keys: "fst ` set cvec = fst ` set vectors" "fst ` set wcvec = fst ` set (opt_dict wv)"
    using sl(5,6) by (metis list.set_map)+
  have "R_SRC \<le> e_r e \<and> e_r e \<le> 1" if "e \<in> set edges" for e
    using edges(2) that by (auto simp: edge_set_ok_def good_edge_def)
  from attribute_total[OF api this, where seeds = "pass_seeds slo fs" and os = "onset_map fs"]
  obtain rk bl where at: "attribute nx edges (pass_seeds slo fs) (onset_map fs) = Inr (rk, bl)"
    "attribution_ok nx edges (pass_seeds slo fs) (onset_map fs) rk bl" by blast
  have "run_pass lib nx vectors w slo caps window wv b = Inr \<lparr>p_findings = sort_key f_onset_s fs,
       p_edges = edges, p_ranking = rk, p_blast = bl, p_pods = length vectors,
       p_active = length fs, p_accepted = length edges\<rparr>"
    unfolding run_pass_def opt_dict_def[symmetric] Let_def onset_map_def[symmetric] pass_seeds_def[symmetric]
      raw center fs won sl(1) edges(1) at(1) rbind.simps prod.case ..
  with that[OF raw center fs pods dist edges(2)[unfolded keys] at(2)] show ?thesis by blast
qed

subsection \<open>Properties\<close>

lemma run_pass_quiet:
  assumes lib: "stats_api lib" and api: "digraph_api nx" and wf: "wf_input vectors wv"
    and band: "\<And>p v thr. (p, v) \<in> set vectors \<Longrightarrow> map_of base p = Some (Some thr) \<Longrightarrow>
      np_percentile lib v 90 \<le> thr"
  shows "run_pass lib nx vectors w slo caps window wv (Some base) = Inr \<lparr>p_findings = [],
    p_edges = [], p_ranking = [], p_blast = [], p_pods = length vectors, p_active = 0, p_accepted = 0\<rparr>"
proof (rule run_pass_stages[OF lib api wf, where b = "Some base" and w = w and slo = slo and caps = caps and window = window])
  fix raw center fs edges rk bl
  assume raw: "raw_onsets lib (Some base) vectors = Inr raw"
    and fs: "rtrav (mk_finding lib vectors (opt_dict caps) center) raw = Inr fs"
    and edges: "edge_set_ok w (set (map f_pod fs)) (fst ` set vectors \<union> fst ` set (opt_dict wv)) edges"
    and at: "attribution_ok nx edges (pass_seeds slo fs) (onset_map fs) rk bl"
    and run: "run_pass lib nx vectors w slo caps window wv (Some base) = Inr \<lparr>p_findings = sort_key f_onset_s fs,
       p_edges = edges, p_ranking = rk, p_blast = bl, p_pods = length vectors,
       p_active = length fs, p_accepted = length edges\<rparr>"
  have "raw = []"
  proof (cases raw)
    case (Cons x xs)
    obtain p ons where x: "x = (p, ons)" by (cases x)
    then obtain v where "(p, v) \<in> set vectors" "\<not> within_band lib (Some base) p v"
      using raw_onsets_elem[OF raw, of p ons] Cons by auto
    then show ?thesis using band[of p v] by (auto simp: within_band_def split: option.splits)
  qed
  then have f: "fs = []" using fs by simp
  then have e: "edges = []" using edges by (cases edges) (auto simp: edge_set_ok_def)
  then have "rk = []" "bl = []" using at by (auto simp: attribution_ok_def)
  with f e run show ?thesis by simp
qed

text \<open>
  C4. The engine is silent in steady state: when baselines are in force and every pod either has no
  mature baseline or keeps its 90th percentile at or below its threshold, a pass on well-formed input
  returns the empty graph, with no finding, no edge, no suspect and no blast radius, whatever the
  signals, the witness and the write signals are.
\<close>

theorem run_pass_silent:
  assumes lib: "stats_api lib" and api: "digraph_api nx" and wf: "wf_input vectors wv"
    and band: "\<And>p v thr. (p, v) \<in> set vectors \<Longrightarrow> map_of base p = Some (Some thr) \<Longrightarrow>
      np_percentile lib v 90 \<le> thr"
  shows "run_pass lib nx vectors w slo caps window wv (Some base) = Inr \<lparr>p_findings = [],
    p_edges = [], p_ranking = [], p_blast = [], p_pods = length vectors, p_active = 0, p_accepted = 0\<rparr>"
  by (rule run_pass_quiet[OF assms])

definition two_pods :: "signal_vec pdict" where
  "two_pods = [(''a'', replicate 12 0 @ replicate 6 8), (''b'', replicate 12 0 @ replicate 6 8)]"

lemma length_two_pods: "length two_pods = 2"
  by (simp add: two_pods_def)

lemma two_pods_wf: "wf_input two_pods None"
  unfolding wf_input_def by (rule exI[of _ 18]) (simp add: uniform_def two_pods_def opt_dict_def)

theorem run_pass_silent_witness:
  "run_pass ref_lib ref_nx two_pods \<lparr>ebpf_edges = {(''a'', ''b'')}, psi_copressure = {}, shared_relation = {}\<rparr>
     None None None None (Some [(''a'', None)]) = Inr \<lparr>p_findings = [],
    p_edges = [], p_ranking = [], p_blast = [], p_pods = 2, p_active = 0, p_accepted = 0\<rparr>"
  unfolding length_two_pods[symmetric]
  by (rule run_pass_silent[OF ref.stats_api_axioms rnx.digraph_api_axioms two_pods_wf]) (auto split: if_splits)

text \<open>
  C2. A pass on well-formed input always returns, and its edges are sound: every edge joins two
  different pods of the input that the witness couples, with a coefficient between one half and one at
  one of the configured lags; there is at most one edge per unordered pair of pods; and there is an
  edge only if there is a finding.
\<close>

theorem run_pass_edges_sound:
  assumes "stats_api lib" and "digraph_api nx" and "wf_input vectors wv"
  shows "\<exists>res. run_pass lib nx vectors w slo caps window wv b = Inr res \<and>
    p_accepted res = length (p_edges res) \<and> (p_edges res \<noteq> [] \<longrightarrow> p_findings res \<noteq> []) \<and>
    distinct (map (\<lambda>e. {e_src e, e_dst e}) (p_edges res)) \<and>
    (\<forall>e \<in> set (p_edges res). couples w (e_src e) (e_dst e) \<and> e_src e \<noteq> e_dst e \<and>
       5/10 \<le> e_r e \<and> e_r e \<le> 1 \<and> e_lag_s e \<in> set LAGS_S \<and>
       {e_src e, e_dst e} \<subseteq> fst ` set vectors \<union> fst ` set (opt_dict wv))"
proof (rule run_pass_stages[OF assms, where b = b and w = w and slo = slo and caps = caps and window = window])
  fix raw center fs edges rk bl
  assume edges: "edge_set_ok w (set (map f_pod fs)) (fst ` set vectors \<union> fst ` set (opt_dict wv)) edges"
    and run: "run_pass lib nx vectors w slo caps window wv b = Inr \<lparr>p_findings = sort_key f_onset_s fs,
       p_edges = edges, p_ranking = rk, p_blast = bl, p_pods = length vectors,
       p_active = length fs, p_accepted = length edges\<rparr>"
  have "pair_of = (\<lambda>e. {e_src e, e_dst e})" by (simp add: pair_of_def fun_eq_iff)
  then have d: "distinct (map (\<lambda>e. {e_src e, e_dst e}) edges)" using edges by (simp add: edge_set_ok_def)
  have "sort_key f_onset_s fs \<noteq> []" if "edges \<noteq> []"
  proof -
    have "set (map f_pod fs) \<noteq> {}" using that edges by (cases edges) (auto simp: edge_set_ok_def)
    then show ?thesis by (metis list.set(1) list.set_map image_empty set_sort)
  qed
  with d edges show ?thesis by (simp add: run edge_set_ok_def good_edge_def R_SRC_def)
qed

theorem run_pass_edges_sound_witness:
  "\<exists>res. run_pass ref_lib ref_nx two_pods \<lparr>ebpf_edges = {(''a'', ''b'')}, psi_copressure = {}, shared_relation = {}\<rparr>
     None None (Some 60) None None = Inr res \<and> p_accepted res = length (p_edges res)"
  using run_pass_edges_sound[OF ref.stats_api_axioms rnx.digraph_api_axioms two_pods_wf] by blast

text \<open>
  C5. The attribution belongs to the reported edges and findings: the ranking has at most three
  entries and is empty exactly when no edge was accepted; it is the ranking of the graph of the
  reported edges, seeded by the breaching pods the caller named or else by the pods with a finding,
  with the reported onsets; and the blast radius is the one of its first entry.
\<close>

theorem run_pass_attribution:
  assumes "stats_api lib" and "digraph_api nx" and "wf_input vectors wv"
  shows "\<exists>res. run_pass lib nx vectors w slo caps window wv b = Inr res \<and>
    length (p_ranking res) \<le> 3 \<and> (p_ranking res = [] \<longleftrightarrow> p_edges res = []) \<and>
    rank_root_causes nx (build_graph nx (p_edges res)) (pass_seeds slo (p_findings res))
      (onset_map (p_findings res)) 3 = Inr (p_ranking res) \<and>
    (p_ranking res = [] \<longrightarrow> p_blast res = []) \<and>
    (p_ranking res \<noteq> [] \<longrightarrow>
       blast_radius nx (build_graph nx (p_edges res)) (c_pod (hd (p_ranking res))) = Inr (p_blast res))"
proof (rule run_pass_stages[OF assms, where b = b and w = w and slo = slo and caps = caps and window = window])
  fix raw center fs edges rk bl
  assume d: "distinct (map f_pod fs)"
    and at: "attribution_ok nx edges (pass_seeds slo fs) (onset_map fs) rk bl"
    and run: "run_pass lib nx vectors w slo caps window wv b = Inr \<lparr>p_findings = sort_key f_onset_s fs,
       p_edges = edges, p_ranking = rk, p_blast = bl, p_pods = length vectors,
       p_active = length fs, p_accepted = length edges\<rparr>"
  have "rk \<noteq> [] \<longrightarrow> blast_radius nx (build_graph nx edges) (c_pod (hd rk)) = Inr bl"
    using at by (cases rk) (auto simp: attribution_ok_def)
  with at show ?thesis by (simp add: run attribution_ok_def onset_map_sort[OF d] pass_seeds_sort)
qed

theorem run_pass_attribution_witness:
  "\<exists>res. run_pass ref_lib ref_nx two_pods \<lparr>ebpf_edges = {(''a'', ''b'')}, psi_copressure = {}, shared_relation = {}\<rparr>
     None None None None None = Inr res \<and> length (p_ranking res) \<le> 3"
  using run_pass_attribution[OF ref.stats_api_axioms rnx.digraph_api_axioms two_pods_wf] by blast

text \<open>The pods with a finding, and what a finding says of its pod.\<close>

lemma raw_pods:
  assumes raw: "raw_onsets lib b vectors = Inr raw"
  shows "p \<in> fst ` set raw \<longleftrightarrow> (\<exists>v ons. (p, v) \<in> set vectors \<and>
     strong_onsets lib v = Inr ons \<and> ons \<noteq> [] \<and> \<not> within_band lib b p v)" (is "?L \<longleftrightarrow> ?R")
proof
  assume ?L
  then obtain ons where "(p, ons) \<in> set raw" by auto
  from raw_onsets_elem[OF raw this] show ?R by blast
next
  assume ?R
  then obtain ons where "(p, ons) \<in> set raw" using raw_onsets_complete[OF raw] by blast
  then show ?L by force
qed

lemma finding_fields:
  assumes wf: "wf_input vectors wv" and raw: "raw_onsets lib b vectors = Inr raw"
    and fs: "rtrav (mk_finding lib vectors caps center) raw = Inr fs" and mem: "f \<in> set fs"
  shows "\<exists>v ons ev. (f_pod f, v) \<in> set vectors \<and> strong_onsets lib v = Inr ons \<and> ev \<in> set ons \<and> o_idx ev < length v \<and>
     (\<forall>c e. center = Some c \<and> e \<in> set ons \<longrightarrow> \<bar>int (o_idx ev) - int c\<bar> \<le> \<bar>int (o_idx e) - int c\<bar>) \<and>
     f_onset_s f = real (o_idx ev) * DT_S \<and> classify lib v (o_idx ev) (map_of caps (f_pod f)) = Inr (f_class f) \<and>
     f_severity f = min (\<bar>o_zpeak ev\<bar> / 10) 1 \<and> 3/10 \<le> f_severity f \<and> f_severity f \<le> 1 \<and> f_n_onsets f = length ons"
proof -
  obtain k ons where k: "(k, ons) \<in> set raw" "mk_finding lib vectors caps center (k, ons) = Inr f"
    using rtrav_elem[OF fs mem] by auto
  from k(2) obtain ev v where f: "event_onset center ons = Inr ev" "map_of vectors k = Some v"
    "classify lib v (o_idx ev) (map_of caps k) = Inr (f_class f)" "f_pod f = k"
    "f_onset_s f = real (o_idx ev) * DT_S" "f_severity f = min (\<bar>o_zpeak ev\<bar> / 10) 1" "f_n_onsets f = length ons"
    by (rule mk_finding_fields)
  have dv: "distinct (map fst vectors)" using wf by (auto simp: wf_input_def uniform_def)
  obtain v' where v': "(k, v') \<in> set vectors" "strong_onsets lib v' = Inr ons" "ons \<noteq> []"
    using raw_onsets_elem[OF raw k(1)] by blast
  then have "v' = v" using f(2) dv by simp
  then have v: "(k, v) \<in> set vectors" "strong_onsets lib v = Inr ons" using v' by simp_all
  have ev: "ev \<in> set ons" using event_onset_elem[OF v'(3), of center] f(1) by auto
  have near: "\<forall>c e. center = Some c \<and> e \<in> set ons \<longrightarrow> \<bar>int (o_idx ev) - int c\<bar> \<le> \<bar>int (o_idx e) - int c\<bar>"
    using event_onset_nearest f(1) by blast
  show ?thesis using v ev near f strong_onsets_elem[OF v(2) ev]
    by (intro exI[of _ v] exI[of _ ons] exI[of _ ev]) auto
qed

text \<open>
  C3. The findings are exactly the anomalous pods: on well-formed input they are distinct, sorted by
  onset, and there is one for precisely every pod with an onset of at least three sigma whose 90th
  percentile is above its mature threshold (or without gating).  Each reports an onset inside the
  window, the one nearest the event centre, with the shape classified at it, its severity between 0.3
  and 1, and the number of the pod's strong onsets.
\<close>

theorem run_pass_findings_exact:
  assumes lib: "stats_api lib" and api: "digraph_api nx" and wf: "wf_input vectors wv"
  shows "\<exists>res raw center. run_pass lib nx vectors w slo caps window wv b = Inr res \<and>
    raw_onsets lib b vectors = Inr raw \<and> event_center w raw = Inr center \<and>
    sorted (map f_onset_s (p_findings res)) \<and> distinct (map f_pod (p_findings res)) \<and>
    p_active res = length (p_findings res) \<and>
    (\<forall>p. p \<in> f_pod ` set (p_findings res) \<longleftrightarrow> (\<exists>v ons. (p, v) \<in> set vectors \<and>
       strong_onsets lib v = Inr ons \<and> ons \<noteq> [] \<and> \<not> within_band lib b p v)) \<and>
    (\<forall>f \<in> set (p_findings res). \<exists>v ons ev. (f_pod f, v) \<in> set vectors \<and>
       strong_onsets lib v = Inr ons \<and> ev \<in> set ons \<and> o_idx ev < length v \<and>
       (\<forall>c e. center = Some c \<and> e \<in> set ons \<longrightarrow> \<bar>int (o_idx ev) - int c\<bar> \<le> \<bar>int (o_idx e) - int c\<bar>) \<and>
       f_onset_s f = real (o_idx ev) * DT_S \<and>
       classify lib v (o_idx ev) (map_of (opt_dict caps) (f_pod f)) = Inr (f_class f) \<and>
       f_severity f = min (\<bar>o_zpeak ev\<bar> / 10) 1 \<and> 3/10 \<le> f_severity f \<and> f_severity f \<le> 1 \<and>
       f_n_onsets f = length ons)"
proof (rule run_pass_stages[OF assms, where b = b and w = w and slo = slo and caps = caps and window = window])
  fix raw center fs edges rk bl
  assume raw: "raw_onsets lib b vectors = Inr raw" and center: "event_center w raw = Inr center"
    and fs: "rtrav (mk_finding lib vectors (opt_dict caps) center) raw = Inr fs"
    and pods: "map f_pod fs = map fst raw" and d: "distinct (map f_pod fs)"
    and run: "run_pass lib nx vectors w slo caps window wv b = Inr \<lparr>p_findings = sort_key f_onset_s fs,
       p_edges = edges, p_ranking = rk, p_blast = bl, p_pods = length vectors,
       p_active = length fs, p_accepted = length edges\<rparr>" (is "_ = Inr ?res")
  have keys: "f_pod ` set fs = fst ` set raw" using pods by (metis list.set_map)
  have all: "set (p_findings ?res) = set fs" by simp
  show ?thesis
    apply (intro exI[of _ ?res] exI[of _ raw] exI[of _ center] conjI)
    subgoal by (rule run)
    subgoal by (rule raw)
    subgoal by (rule center)
    subgoal by simp
    subgoal using d by (simp add: distinct_sort_key_fst)
    subgoal by simp
    subgoal unfolding all keys by (rule allI) (rule raw_pods[OF raw])
    subgoal unfolding all using finding_fields[OF wf raw fs] by (rule ballI)
    done
qed

theorem run_pass_findings_exact_witness:
  "\<exists>res. run_pass ref_lib ref_nx two_pods \<lparr>ebpf_edges = {}, psi_copressure = {}, shared_relation = {}\<rparr>
     None None None None None = Inr res \<and> sorted (map f_onset_s (p_findings res))"
  using run_pass_findings_exact[OF ref.stats_api_axioms rnx.digraph_api_axioms two_pods_wf,
    where w = "\<lparr>ebpf_edges = {}, psi_copressure = {}, shared_relation = {}\<rparr>" and slo = None and caps = None
      and window = None and b = None]
  by (elim exE conjE) (intro exI conjI)

text \<open>
  The event centre is the strongest onset of the coupled disturbance: it is the index of an onset
  with the largest absolute peak among the candidate pods, and when at least one anomalous pod is
  coupled to another, the candidates are the pods coupled to another anomalous pod, so an isolated
  noisy pod cannot move the analysis window.
\<close>

theorem event_center_strongest:
  assumes "event_center w raw = Inr (Some c)"
  shows "\<exists>p ons e. (p, ons) \<in> set raw \<and> e \<in> set ons \<and> c = o_idx e \<and>
    (\<forall>q os e'. (q, os) \<in> set raw \<and> e' \<in> set os \<and> \<bar>o_zpeak e\<bar> < \<bar>o_zpeak e'\<bar> \<longrightarrow>
       (\<forall>k ks. (k, ks) \<in> set raw \<and> k \<noteq> q \<longrightarrow> \<not> couples w q k)) \<and>
    ((\<exists>q os k ks. (q, os) \<in> set raw \<and> (k, ks) \<in> set raw \<and> k \<noteq> q \<and> couples w q k) \<longrightarrow>
       (\<exists>k ks. (k, ks) \<in> set raw \<and> k \<noteq> p \<and> couples w p k))"
proof -
  let ?C = "coupled_onsets w raw"
  have mem: "(q, os) \<in> set ?C \<longleftrightarrow> (q, os) \<in> set raw \<and> (\<exists>k ks. (k, ks) \<in> set raw \<and> k \<noteq> q \<and> couples w q k)" for q os
    unfolding coupled_onsets_def by (simp add: list_ex_iff) (metis fst_conv prod.collapse)
  let ?D = "if ?C = [] then raw else ?C"
  have "strongest_event ?D (-1) None = Inr (Some c)" using assms by (simp add: event_center_def Let_def)
  from strongest_event_spec[OF this] obtain p ons e where
    e: "(p, ons) \<in> set ?D" "e \<in> set ons" "c = o_idx e"
      "\<forall>(q, os) \<in> set ?D. \<forall>e' \<in> set os. \<bar>o_zpeak e'\<bar> \<le> \<bar>o_zpeak e\<bar>" by blast
  have "(p, ons) \<in> set raw" using e(1) mem by (auto split: if_splits)
  moreover have "\<not> couples w q k" if "(q, os) \<in> set raw" "e' \<in> set os" "\<bar>o_zpeak e\<bar> < \<bar>o_zpeak e'\<bar>"
    "(k, ks) \<in> set raw" "k \<noteq> q" for q os e' k ks
  proof
    assume "couples w q k"
    then have c: "(q, os) \<in> set ?C" using that mem by blast
    then have "?C \<noteq> []" by auto
    then have "(q, os) \<in> set ?D" using c by simp
    then show False using e(4) that(2,3) by fastforce
  qed
  moreover have "\<exists>k ks. (k, ks) \<in> set raw \<and> k \<noteq> p \<and> couples w p k"
    if "(q, os) \<in> set raw" "(k, ks) \<in> set raw" "k \<noteq> q" "couples w q k" for q os k ks
  proof -
    have "(q, os) \<in> set ?C" using that mem by blast
    then have "?C \<noteq> []" by auto
    then show ?thesis using e(1) mem by auto
  qed
  ultimately show ?thesis using e(2,3) by (intro exI[of _ p] exI[of _ ons] exI[of _ e] conjI) blast+
qed

theorem event_center_strongest_witness:
  "\<exists>p ons e. (p, ons) \<in> set [(''a'', [\<lparr>o_idx = 20, o_direction = Up, o_zpeak = 9\<rparr>])] \<and> e \<in> set ons \<and> 20 = o_idx e"
proof -
  have "event_center \<lparr>ebpf_edges = {}, psi_copressure = {}, shared_relation = {}\<rparr>
      [(''a'', [\<lparr>o_idx = 20, o_direction = Up, o_zpeak = 9\<rparr>])] = Inr (Some 20)" by code_simp
  from event_center_strongest[OF this] show ?thesis by blast
qed

end
