(* ===== verification/Inputs.thy ===== *)
theory Inputs
  imports Names Pipeline
begin

text \<open>
  The inputs of a pass: \<open>build_inputs\<close> of \<open>correlation/service.py\<close>.  The payloads of the aggregator are
  JSON; a sample is an object whose two fields may be missing, an event is an object or something
  else.  \<open>epoch\<close> is an argument: the result of \<open>_epoch\<close>, which is \<open>None\<close> for every stamp that
  \<open>datetime.fromisoformat\<close> does not accept.
\<close>

record svc_config =
  v_signal :: string
  v_write_signal :: string
  v_copr_min :: real
  v_window :: nat
  v_step :: real
  v_storage :: "string list"

definition default_svc :: svc_config where
  "default_svc = \<lparr>v_signal = ''psi_io'', v_write_signal = ''io_write'', v_copr_min = 1/10, v_window = 36, v_step = 5,
     v_storage = [''cooling-monitor'', ''dcim-bridge'', ''log-archiver'', ''timescaledb'']\<rparr>"

record sample =
  smp_ts :: "string option"
  smp_value :: "real option"

datatype json_event = NotObject | Event "string option" "string option"

type_synonym window = "sample list pdict"
type_synonym points = "(real \<times> real) list"

record inputs =
  i_vectors :: "signal_vec pdict"
  i_write :: "signal_vec pdict"
  i_witness :: witness
  i_breach :: "pod list"

definition workload :: "pod \<Rightarrow> string" where
  "workload pod = (let parts = split_on dash pod in
     if length parts > 2 then join_with dash (py_drop_last 2 parts) else pod)"

subsection \<open>Collecting the samples\<close>

definition sample_point :: "(string option \<Rightarrow> real option) \<Rightarrow> sample \<Rightarrow> (real \<times> real) option res" where
  "sample_point epoch s = (case epoch (smp_ts s) of None \<Rightarrow> Inr None
     | Some t \<Rightarrow> rbind (res_of_option KeyError (smp_value s)) (\<lambda>v. Inr (Some (t, v))))"

definition sample_points :: "(string option \<Rightarrow> real option) \<Rightarrow> sample list \<Rightarrow> points res" where
  "sample_points epoch samples = rbind (collect (sample_point epoch) samples) (\<lambda>pts. Inr (sort pts))"

definition slash :: char where
  "slash = CHR ''/''"

type_synonym raw_points = "points pdict pdict \<times> real"

definition collect_series :: "(string option \<Rightarrow> real option) \<Rightarrow> string \<times> sample list \<Rightarrow> raw_points \<Rightarrow> raw_points res" where
  "collect_series epoch ks acc =
     (let parts = split_on slash (fst ks); raw = fst acc in
      if length parts < 3 \<or> last parts \<notin> fst ` set raw \<or> snd ks = [] then Inr acc
      else rbind (sample_points epoch (snd ks)) (\<lambda>pts.
        if length pts \<ge> 12
        then Inr (AList.update (last parts) (AList.update (parts ! 1) pts (dget raw (last parts) [])) raw,
                  max (snd acc) (fst (last pts)))
        else Inr acc))"

fun collect_window :: "(string option \<Rightarrow> real option) \<Rightarrow> window \<Rightarrow> raw_points \<Rightarrow> raw_points res" where
  "collect_window epoch [] acc = Inr acc"
| "collect_window epoch (ks # w) acc = rbind (collect_series epoch ks acc) (collect_window epoch w)"

definition empty_raw :: "svc_config \<Rightarrow> raw_points" where
  "empty_raw cfg = (AList.update (v_write_signal cfg) [] [(v_signal cfg, [])], 0)"

subsection \<open>Resampling onto the shared grid\<close>

definition GRID_N :: nat where
  "GRID_N = 180"

definition grid :: "real \<Rightarrow> real \<Rightarrow> real list" where
  "grid step latest = map (\<lambda>k. latest - step * real (GRID_N - 1 - k)) [0..<GRID_N]"

text \<open>The inner \<open>while\<close>: the index moves on while the next sample is not later than the limit.\<close>

function advance :: "real \<Rightarrow> points \<Rightarrow> nat \<Rightarrow> nat" where
  "advance bnd pts j = (if j + 1 < length pts \<and> fst (pts ! (j + 1)) \<le> bnd then advance bnd pts (j + 1) else j)"
  by pat_completeness auto
termination by (relation "measure (\<lambda>(bnd, pts, j). length pts - j)") auto

declare advance.simps [simp del]

fun hold :: "real \<Rightarrow> points \<Rightarrow> nat \<Rightarrow> real list \<Rightarrow> real option list" where
  "hold step pts j [] = []"
| "hold step pts j (gt # gs) =
     (let j' = advance (gt + step / 2) pts j in
      (if \<bar>fst (pts ! j') - gt\<bar> \<le> step then Some (snd (pts ! j')) else None) # hold step pts j' gs)"

definition nan_to_num :: "real option list \<Rightarrow> real list" where
  "nan_to_num v = map (\<lambda>x. case x of None \<Rightarrow> 0 | Some y \<Rightarrow> y) v"

definition to_vector :: "real \<Rightarrow> real \<Rightarrow> points \<Rightarrow> signal_vec option" where
  "to_vector step latest pts =
     (if fst (last pts) < latest - 2 * step then None
      else let vec = hold step pts 0 (grid step latest) in
        if length (filter (\<lambda>x. x \<noteq> None) vec) \<ge> 12 then Some (nan_to_num vec) else None)"

definition to_vectors :: "real \<Rightarrow> real \<Rightarrow> points pdict \<Rightarrow> signal_vec pdict" where
  "to_vectors step latest per_pod = fold (\<lambda>pp out. case to_vector step latest (snd pp) of None \<Rightarrow> out
     | Some v \<Rightarrow> AList.update (fst pp) v out) per_pod []"

subsection \<open>Witness, breach, inputs\<close>

definition hot_pods :: "svc_config \<Rightarrow> signal_vec pdict \<Rightarrow> pod list" where
  "hot_pods cfg vectors = map fst (filter (\<lambda>pv. np_max (py_tail 6 (snd pv)) > v_copr_min cfg) vectors)"

definition pair_set :: "(pod \<times> pod) list \<Rightarrow> pod set set" where
  "pair_set ps = set (map (\<lambda>(a, b). {a, b}) ps)"

definition build_witness :: "svc_config \<Rightarrow> signal_vec pdict \<Rightarrow> witness" where
  "build_witness cfg vectors =
     \<lparr>ebpf_edges = {},
      psi_copressure = pair_set (combinations2 (hot_pods cfg vectors)),
      shared_relation = pair_set (filter (\<lambda>(a, b). workload a \<in> set (v_storage cfg) \<and> workload b \<in> set (v_storage cfg))
        (combinations2 (map fst vectors)))\<rparr>"

definition event_pod :: "json_event \<Rightarrow> pod option res" where
  "event_pod e = (case e of NotObject \<Rightarrow> Inr None
     | Event kind pod \<Rightarrow> if kind = Some ''anomaly_candidate'' then rbind (res_of_option KeyError pod) (\<lambda>p. Inr (Some p))
         else Inr None)"

definition breach_pods :: "json_event list \<Rightarrow> pod list res" where
  "breach_pods events = rbind (collect event_pod events) (\<lambda>ps. Inr (sorted_list_of_set (set ps)))"

definition build_inputs :: "svc_config \<Rightarrow> (string option \<Rightarrow> real option) \<Rightarrow> window \<Rightarrow> json_event list \<Rightarrow> inputs res" where
  "build_inputs cfg epoch window events =
     rbind (collect_window epoch window (empty_raw cfg)) (\<lambda>(raw, latest).
       let vectors = to_vectors (v_step cfg) latest (dget raw (v_signal cfg) []);
           write_vectors = to_vectors (v_step cfg) latest (dget raw (v_write_signal cfg) [])
       in rbind (breach_pods events) (\<lambda>breach.
            Inr \<lparr>i_vectors = vectors, i_write = write_vectors, i_witness = build_witness cfg vectors, i_breach = breach\<rparr>))"

lemma workload_stable [simp]: "workload pod = stable_workload pod"
  by (simp add: workload_def stable_workload_def)

subsection \<open>The grid\<close>

lemma length_hold [simp]: "length (hold step pts j gs) = length gs"
  by (induction step pts j gs rule: hold.induct) (simp_all add: Let_def)

lemma length_grid [simp]: "length (grid step latest) = GRID_N"
  by (simp add: grid_def)

lemma to_vector_length: "to_vector step latest pts = Some v \<Longrightarrow> length v = GRID_N"
  by (auto simp: to_vector_def nan_to_num_def Let_def split: if_splits)

lemma to_vectors_spec:
  "distinct (map fst (to_vectors step latest pp)) \<and>
   (\<forall>(p, v) \<in> set (to_vectors step latest pp). \<exists>pts. (p, pts) \<in> set pp \<and> to_vector step latest pts = Some v)"
proof (induction pp rule: rev_induct)
  case (snoc x pp)
  show ?case
  proof (cases "to_vector step latest (snd x)")
    case None
    then show ?thesis using snoc by (fastforce simp: to_vectors_def)
  next
    case (Some w)
    have eq: "to_vectors step latest (pp @ [x]) = AList.update (fst x) w (to_vectors step latest pp)"
      using Some by (simp add: to_vectors_def)
    have "\<exists>pts. (p, pts) \<in> set (pp @ [x]) \<and> to_vector step latest pts = Some v"
      if "(p, v) \<in> set (AList.update (fst x) w (to_vectors step latest pp))" for p v
      using upd_in_setD[OF that] snoc Some by (fastforce intro: exI[of _ "snd x"])
    then show ?thesis using snoc unfolding eq by (auto intro: distinct_upd)
  qed
qed (simp add: to_vectors_def)

lemma to_vectors_uniform: "uniform GRID_N (to_vectors step latest pp)"
  using to_vectors_spec[of step latest pp] to_vector_length unfolding uniform_def by fast

text \<open>The index scan is a lookup: the last sample not later than the limit, or the first sample.\<close>

lemma advance_next: "j + 1 < length pts \<Longrightarrow> fst (pts ! (j + 1)) \<le> bnd \<Longrightarrow> advance bnd pts j = advance bnd pts (j + 1)"
  by (subst advance.simps) simp

lemma advance_here: "\<not> (j + 1 < length pts \<and> fst (pts ! (j + 1)) \<le> bnd) \<Longrightarrow> advance bnd pts j = j"
  by (subst advance.simps) (simp only: if_False)

lemma advance_spec:
  "j \<le> advance bnd pts j \<and> (j < length pts \<longrightarrow> advance bnd pts j < length pts) \<and>
   (j < advance bnd pts j \<longrightarrow> fst (pts ! advance bnd pts j) \<le> bnd) \<and>
   (advance bnd pts j + 1 < length pts \<longrightarrow> bnd < fst (pts ! (advance bnd pts j + 1)))"
proof (induction bnd pts j rule: advance.induct)
  case (1 bnd pts j)
  show ?case
  proof (cases "j + 1 < length pts \<and> fst (pts ! (j + 1)) \<le> bnd")
    case True
    then have eq: "advance bnd pts j = advance bnd pts (j + 1)" using advance_next by blast
    have IH: "j + 1 \<le> advance bnd pts (j + 1)" "advance bnd pts (j + 1) < length pts"
      "j + 1 < advance bnd pts (j + 1) \<Longrightarrow> fst (pts ! advance bnd pts (j + 1)) \<le> bnd"
      "advance bnd pts (j + 1) + 1 < length pts \<Longrightarrow> bnd < fst (pts ! (advance bnd pts (j + 1) + 1))"
      using 1[OF True] True by blast+
    have "fst (pts ! advance bnd pts (j + 1)) \<le> bnd"
      using IH(1,3) True by (cases "advance bnd pts (j + 1) = j + 1") auto
    then show ?thesis unfolding eq using IH(1,2,4) by simp
  next
    case False
    then show ?thesis using advance_here[OF False] by auto
  qed
qed

definition latest_upto :: "real \<Rightarrow> points \<Rightarrow> nat" where
  "latest_upto bnd pts = length (takeWhile (\<lambda>p. fst p \<le> bnd) pts) - 1"

lemma takeWhile_sorted:
  assumes "sorted (map fst pts)" "k < length pts" "fst (pts ! k) \<le> bnd"
  shows "k < length (takeWhile (\<lambda>p. fst p \<le> bnd) pts)"
proof (rule ccontr)
  let ?n = "length (takeWhile (\<lambda>p. fst p \<le> bnd) pts)"
  assume "\<not> k < ?n"
  then have n: "?n \<le> k" "?n < length pts" using assms(2) by auto
  have "\<not> fst (pts ! ?n) \<le> bnd" by (rule nth_length_takeWhile[OF n(2)])
  moreover have "fst (pts ! ?n) \<le> fst (pts ! k)"
    using sorted_nth_mono[OF assms(1) n(1)] assms(2) n by simp
  ultimately show False using assms(3) by simp
qed

lemma advance_latest:
  assumes "sorted (map fst pts)" "j < length pts" "j \<le> latest_upto bnd pts"
  shows "advance bnd pts j = latest_upto bnd pts"
proof -
  let ?a = "advance bnd pts j" and ?n = "length (takeWhile (\<lambda>p. fst p \<le> bnd) pts)"
  have a: "j \<le> ?a" "?a < length pts" "j < ?a \<Longrightarrow> fst (pts ! ?a) \<le> bnd" "?a + 1 < length pts \<Longrightarrow> bnd < fst (pts ! (?a + 1))"
    using advance_spec[of j bnd pts] assms(2) by auto
  have up: "?n \<le> ?a + 1"
  proof (rule ccontr)
    assume "\<not> ?n \<le> ?a + 1"
    then have lt: "?a + 1 < ?n" by simp
    have "?n \<le> length pts" by (rule length_takeWhile_le)
    with lt have "?a + 1 < length pts" by simp
    moreover have "takeWhile (\<lambda>p. fst p \<le> bnd) pts ! (?a + 1) \<in> set (takeWhile (\<lambda>p. fst p \<le> bnd) pts)" using lt by simp
    then have "fst (takeWhile (\<lambda>p. fst p \<le> bnd) pts ! (?a + 1)) \<le> bnd" by (rule set_takeWhileD[THEN conjunct2])
    then have "fst (pts ! (?a + 1)) \<le> bnd" by (simp only: takeWhile_nth[OF lt])
    ultimately show False using a(4) by simp
  qed
  show ?thesis
  proof (cases "j < ?a")
    case True
    then have "?a < ?n" using takeWhile_sorted[OF assms(1) a(2)] a(3) by blast
    with up show ?thesis by (simp add: latest_upto_def)
  next
    case False
    with a(1) have "?a = j" by simp
    with up assms(3) show ?thesis by (simp add: latest_upto_def)
  qed
qed

definition reading :: "real \<Rightarrow> points \<Rightarrow> real \<Rightarrow> real option" where
  "reading step pts gt = (let s = pts ! latest_upto (gt + step / 2) pts in
     if \<bar>fst s - gt\<bar> \<le> step then Some (snd s) else None)"

lemma latest_upto_less: "pts \<noteq> [] \<Longrightarrow> latest_upto bnd pts < length pts"
  using length_takeWhile_le[of "\<lambda>p. fst p \<le> bnd" pts] by (cases pts) (auto simp: latest_upto_def)

lemma latest_upto_mono: "bnd \<le> bnd' \<Longrightarrow> latest_upto bnd pts \<le> latest_upto bnd' pts"
proof -
  assume "bnd \<le> bnd'"
  then have "length (takeWhile (\<lambda>p. fst p \<le> bnd) pts) \<le> length (takeWhile (\<lambda>p. fst p \<le> bnd') pts)"
    by (induction pts) auto
  then show ?thesis by (simp add: latest_upto_def)
qed

lemma hold_lookup:
  assumes "sorted (map fst pts)" "pts \<noteq> []"
  shows "sorted gs \<Longrightarrow> j < length pts \<Longrightarrow> (\<And>g. g \<in> set gs \<Longrightarrow> j \<le> latest_upto (g + step / 2) pts) \<Longrightarrow>
    hold step pts j gs = map (reading step pts) gs"
proof (induction gs arbitrary: j)
  case (Cons g gs)
  have adv: "advance (g + step / 2) pts j = latest_upto (g + step / 2) pts"
    by (rule advance_latest[OF assms(1) Cons.prems(2)]) (simp add: Cons.prems(3))
  have "hold step pts (latest_upto (g + step / 2) pts) gs = map (reading step pts) gs"
  proof (rule Cons.IH)
    fix x assume "x \<in> set gs"
    then show "latest_upto (g + step / 2) pts \<le> latest_upto (x + step / 2) pts"
      using Cons.prems(1) by (intro latest_upto_mono) simp
  qed (use Cons.prems(1) latest_upto_less[OF assms(2)] in simp_all)
  then show ?case by (simp add: adv Let_def reading_def)
qed simp

lemma sorted_grid: "0 \<le> step \<Longrightarrow> sorted (grid step latest)"
  by (auto simp: grid_def sorted_iff_nth_mono intro!: mult_left_mono)

subsection \<open>The inputs are well formed\<close>

lemma sample_points_sorted: "sample_points epoch samples = Inr pts \<Longrightarrow> sorted (map fst pts)"
proof -
  assume "sample_points epoch samples = Inr pts"
  then obtain xs where "pts = sort xs" by (auto simp: sample_points_def res_simps)
  then have "sorted_wrt (\<le>) pts" by simp
  then show ?thesis unfolding sorted_map by (rule sorted_wrt_mono_rel[rotated]) (auto simp: less_eq_prod_def)
qed

lemma pair_set_iff:
  assumes "distinct xs" "\<And>a b. P a b = P b a"
  shows "{a, b} \<in> pair_set (filter (\<lambda>(a, b). P a b) (combinations2 xs)) \<longleftrightarrow> a \<noteq> b \<and> a \<in> set xs \<and> b \<in> set xs \<and> P a b"
proof
  assume "{a, b} \<in> pair_set (filter (\<lambda>(a, b). P a b) (combinations2 xs))"
  then obtain x y where xy: "(x, y) \<in> set (combinations2 xs)" "P x y" "{a, b} = {x, y}"
    by (auto simp: pair_set_def)
  then show "a \<noteq> b \<and> a \<in> set xs \<and> b \<in> set xs \<and> P a b"
    using combinations2_in[OF xy(1)] assms by (auto simp: doubleton_eq_iff)
next
  assume ab: "a \<noteq> b \<and> a \<in> set xs \<and> b \<in> set xs \<and> P a b"
  then consider "(a, b) \<in> set (combinations2 xs)" | "(b, a) \<in> set (combinations2 xs)"
    using combinations2_covers by metis
  then show "{a, b} \<in> pair_set (filter (\<lambda>(a, b). P a b) (combinations2 xs))"
  proof cases
    case 1
    then show ?thesis using ab unfolding pair_set_def set_map set_filter by (intro image_eqI[of _ _ "(a, b)"]) auto
  next
    case 2
    then show ?thesis using ab assms(2) unfolding pair_set_def set_map set_filter
      by (intro image_eqI[of _ _ "(b, a)"]) auto
  qed
qed

lemma build_witness_pairs:
  assumes "distinct (map fst vectors)"
  shows "{a, b} \<in> shared_relation (build_witness cfg vectors) \<longleftrightarrow> a \<noteq> b \<and> a \<in> fst ` set vectors \<and> b \<in> fst ` set vectors \<and>
      stable_workload a \<in> set (v_storage cfg) \<and> stable_workload b \<in> set (v_storage cfg)"
    and "{a, b} \<in> psi_copressure (build_witness cfg vectors) \<longleftrightarrow>
      a \<noteq> b \<and> a \<in> set (hot_pods cfg vectors) \<and> b \<in> set (hot_pods cfg vectors)"
proof -
  show "{a, b} \<in> shared_relation (build_witness cfg vectors) \<longleftrightarrow> a \<noteq> b \<and> a \<in> fst ` set vectors \<and> b \<in> fst ` set vectors \<and>
      stable_workload a \<in> set (v_storage cfg) \<and> stable_workload b \<in> set (v_storage cfg)"
    using pair_set_iff[OF assms, of "\<lambda>a b. workload a \<in> set (v_storage cfg) \<and> workload b \<in> set (v_storage cfg)" a b]
    by (auto simp: build_witness_def)
  have "distinct (hot_pods cfg vectors)" using assms by (simp add: hot_pods_def distinct_map_filter)
  from pair_set_iff[OF this, of "\<lambda>a b. True" a b]
  show "{a, b} \<in> psi_copressure (build_witness cfg vectors) \<longleftrightarrow>
      a \<noteq> b \<and> a \<in> set (hot_pods cfg vectors) \<and> b \<in> set (hot_pods cfg vectors)"
    by (simp add: build_witness_def)
qed

text \<open>What a payload must have for the pass to run: a value for every readable stamp, a pod for every candidate.\<close>

definition complete_window :: "(string option \<Rightarrow> real option) \<Rightarrow> window \<Rightarrow> bool" where
  "complete_window epoch w \<longleftrightarrow> (\<forall>(k, ss) \<in> set w. \<forall>s \<in> set ss. epoch (smp_ts s) \<noteq> None \<longrightarrow> smp_value s \<noteq> None)"

definition complete_events :: "json_event list \<Rightarrow> bool" where
  "complete_events es \<longleftrightarrow> (\<forall>e \<in> set es. e \<noteq> Event (Some ''anomaly_candidate'') None)"

lemma sample_points_total:
  "(\<And>s. s \<in> set ss \<Longrightarrow> epoch (smp_ts s) \<noteq> None \<Longrightarrow> smp_value s \<noteq> None) \<Longrightarrow> \<exists>pts. sample_points epoch ss = Inr pts"
proof -
  assume ok: "\<And>s. s \<in> set ss \<Longrightarrow> epoch (smp_ts s) \<noteq> None \<Longrightarrow> smp_value s \<noteq> None"
  have "\<exists>y. sample_point epoch s = Inr y" if "s \<in> set ss" for s
    using ok[OF that] by (auto simp: sample_point_def split: option.split)
  from collect_total[of ss "sample_point epoch", OF this] show ?thesis by (auto simp: sample_points_def)
qed

lemma collect_window_total:
  "complete_window epoch w \<Longrightarrow> \<exists>acc'. collect_window epoch w acc = Inr acc'"
proof (induction w arbitrary: acc)
  case (Cons ks w)
  obtain pts where pts: "sample_points epoch (snd ks) = Inr pts"
    using sample_points_total[of "snd ks" epoch] Cons.prems by (fastforce simp: complete_window_def)
  have "\<exists>acc'. collect_series epoch ks acc = Inr acc'" by (simp add: collect_series_def pts Let_def)
  then obtain acc' where "collect_series epoch ks acc = Inr acc'" by blast
  moreover have "complete_window epoch w" using Cons.prems by (simp add: complete_window_def)
  ultimately show ?case using Cons.IH by simp
qed simp

lemma breach_total: "complete_events es \<Longrightarrow> \<exists>b. breach_pods es = Inr b \<and> sorted b \<and> distinct b"
proof -
  assume ok: "complete_events es"
  have "\<exists>y. event_pod e = Inr y" if "e \<in> set es" for e
  proof (cases e)
    case (Event kind p)
    then show ?thesis using ok that by (cases p) (auto simp: event_pod_def complete_events_def)
  qed (simp add: event_pod_def)
  from collect_total[of es event_pod, OF this] show ?thesis by (auto simp: breach_pods_def)
qed

lemma breach_named:
  assumes "breach_pods es = Inr b"
  shows "set b = {p. Event (Some ''anomaly_candidate'') (Some p) \<in> set es}"
proof -
  obtain ps where ps: "collect event_pod es = Inr ps" "b = sorted_list_of_set (set ps)"
    using assms by (auto simp: breach_pods_def res_simps)
  have "set ps = {p. Event (Some ''anomaly_candidate'') (Some p) \<in> set es}" using ps(1)
  proof (induction es arbitrary: ps)
    case (Cons e es)
    then obtain y ys where y: "event_pod e = Inr y" "collect event_pod es = Inr ys" "ps = (case y of None \<Rightarrow> [] | Some x \<Rightarrow> [x]) @ ys"
      by (auto simp: collect_def res_simps)
    have "set (case y of None \<Rightarrow> [] | Some x \<Rightarrow> [x]) = {p. e = Event (Some ''anomaly_candidate'') (Some p)}"
    proof (cases e)
      case (Event kind p)
      then show ?thesis using y(1) by (cases p) (auto simp: event_pod_def split: if_splits)
    qed (use y(1) in \<open>simp add: event_pod_def\<close>)
    then show ?case using Cons.IH[OF y(2)] y(3) by auto
  qed (simp add: collect_def)
  moreover have "set b = set ps" unfolding ps(2) by (rule set_sorted_list_of_set) simp
  ultimately show ?thesis by simp
qed

subsection \<open>What a window holds\<close>

text \<open>
  The readable points of a series in the order of \<open>(t, value)\<close>, and the series of a document that count:
  those of a signal of the engine with at least twelve points, as signal, pod and points.
\<close>

definition read_points :: "(string option \<Rightarrow> real option) \<Rightarrow> sample list \<Rightarrow> points" where
  "read_points epoch ss = sort (List.map_filter (\<lambda>s. map_option (\<lambda>t. (t, the (smp_value s))) (epoch (smp_ts s))) ss)"

definition kept_series :: "string set \<Rightarrow> (string option \<Rightarrow> real option) \<Rightarrow> window \<Rightarrow> (string \<times> pod \<times> points) list" where
  "kept_series sgs epoch w = List.map_filter (\<lambda>(k, ss). let parts = split_on slash k; pts = read_points epoch ss in
     if 3 \<le> length parts \<and> last parts \<in> sgs \<and> 12 \<le> length pts then Some (last parts, parts ! 1, pts) else None) w"

definition of_signal :: "string \<Rightarrow> (string \<times> pod \<times> points) list \<Rightarrow> points pdict" where
  "of_signal sg ks = map (\<lambda>(s, pd, pts). (pd, pts)) (filter (\<lambda>(s, pd, pts). s = sg) ks)"

definition last_stamp :: "(string \<times> pod \<times> points) list \<Rightarrow> real" where
  "last_stamp ks = Max (insert 0 (set (map (\<lambda>(s, pd, pts). fst (last pts)) ks)))"

text \<open>Of several series of one pod the last one of the document counts.\<close>

definition points_in :: "string \<Rightarrow> (string \<times> pod \<times> points) list \<Rightarrow> pod \<Rightarrow> points option" where
  "points_in sg ks pd = map_of (rev (of_signal sg ks)) pd"

lemma points_in_simps:
  "points_in sg [] pd = None"
  "points_in sg (k # ks) pd = (case points_in sg ks pd of Some pts \<Rightarrow> Some pts
     | None \<Rightarrow> if fst k = sg \<and> fst (snd k) = pd then Some (snd (snd k)) else None)"
  by (simp_all add: points_in_def of_signal_def map_add_def split_beta split: option.split)

lemma last_stamp_Cons: "last_stamp ((s, pd, pts) # ks) = max (fst (last pts)) (last_stamp ks)"
proof -
  have "last_stamp ((s, pd, pts) # ks) = Max (insert (fst (last pts)) (insert 0 (set (map (\<lambda>(s, pd, pts). fst (last pts)) ks))))"
    by (simp add: last_stamp_def insert_commute)
  then show ?thesis by (simp add: last_stamp_def Max_insert)
qed

lemma sample_points_read:
  assumes "\<And>s. s \<in> set ss \<Longrightarrow> epoch (smp_ts s) \<noteq> None \<Longrightarrow> smp_value s \<noteq> None"
  shows "sample_points epoch ss = Inr (read_points epoch ss)"
proof -
  have "collect (sample_point epoch) ss = Inr (List.map_filter (\<lambda>s. map_option (\<lambda>t. (t, the (smp_value s))) (epoch (smp_ts s))) ss)"
    using assms
  proof (induction ss)
    case (Cons s ss)
    show ?case
    proof (cases "epoch (smp_ts s)")
      case None
      then show ?thesis using Cons by (auto simp: collect_def sample_point_def List.map_filter_simps res_simps)
    next
      case (Some t)
      then obtain v where "smp_value s = Some v" using Cons.prems[of s] by auto
      then show ?thesis using Some Cons by (auto simp: collect_def sample_point_def List.map_filter_simps res_simps)
    qed
  qed (simp add: collect_def List.map_filter_simps)
  then show ?thesis by (simp add: sample_points_def read_points_def)
qed

lemma collect_window_kept:
  assumes "complete_window epoch w" "0 \<le> lat"
  shows "\<exists>raw'. collect_window epoch w (raw, lat) = Inr (raw', max lat (last_stamp (kept_series (fst ` set raw) epoch w))) \<and>
    fst ` set raw' = fst ` set raw \<and>
    (\<forall>sg pd. map_of (dget raw' sg []) pd = (case points_in sg (kept_series (fst ` set raw) epoch w) pd of
       Some pts \<Rightarrow> Some pts | None \<Rightarrow> map_of (dget raw sg []) pd)) \<and>
    ((\<forall>sg. distinct (map fst (dget raw sg []))) \<longrightarrow> (\<forall>sg. distinct (map fst (dget raw' sg []))))"
  using assms
proof (induction w arbitrary: raw lat)
  case Nil
  then show ?case by (simp add: kept_series_def List.map_filter_simps points_in_simps last_stamp_def)
next
  case (Cons ks w)
  obtain k ss where ks: "ks = (k, ss)" by (cases ks)
  have w: "complete_window epoch w" using Cons.prems(1) by (simp add: complete_window_def)
  let ?parts = "split_on slash k" and ?pts = "read_points epoch ss"
  have pts: "sample_points epoch ss = Inr ?pts"
    by (rule sample_points_read) (use Cons.prems(1) in \<open>auto simp: complete_window_def ks\<close>)
  have empty: "ss = [] \<Longrightarrow> ?pts = []" by (simp add: read_points_def List.map_filter_simps)
  show ?case
  proof (cases "3 \<le> length ?parts \<and> last ?parts \<in> fst ` set raw \<and> 12 \<le> length ?pts")
    case True
    let ?raw = "AList.update (last ?parts) (AList.update (?parts ! 1) ?pts (dget raw (last ?parts) [])) raw"
    have s: "collect_series epoch ks (raw, lat) = Inr (?raw, max lat (fst (last ?pts)))"
      using True empty by (auto simp: collect_series_def ks Let_def pts)
    have dom: "fst ` set ?raw = fst ` set raw" using True by (auto simp: dict_simps)
    have kept: "kept_series (fst ` set raw) epoch (ks # w) = (last ?parts, ?parts ! 1, ?pts) # kept_series (fst ` set raw) epoch w"
      using True by (simp add: kept_series_def ks List.map_filter_simps Let_def)
    let ?K = "kept_series (fst ` set raw) epoch w"
    have le: "0 \<le> max lat (fst (last ?pts))" using Cons.prems(2) by simp
    obtain raw' where i: "collect_window epoch w (?raw, max lat (fst (last ?pts))) = Inr (raw', max (max lat (fst (last ?pts))) (last_stamp ?K))"
      "fst ` set raw' = fst ` set raw"
      "\<And>sg pd. map_of (dget raw' sg []) pd = (case points_in sg ?K pd of Some pts \<Rightarrow> Some pts | None \<Rightarrow> map_of (dget ?raw sg []) pd)"
      "(\<forall>sg. distinct (map fst (dget ?raw sg []))) \<longrightarrow> (\<forall>sg. distinct (map fst (dget raw' sg [])))"
      using Cons.IH[OF w le, of ?raw] unfolding dom by (elim exE conjE) (rule that; blast)
    show ?thesis unfolding kept last_stamp_Cons
    proof (intro exI[of _ raw'] conjI allI impI)
      show "collect_window epoch (ks # w) (raw, lat) = Inr (raw', max lat (max (fst (last ?pts)) (last_stamp ?K)))"
        using i(1) by (simp add: s max.assoc)
      show "map_of (dget raw' sg []) pd = (case points_in sg ((last ?parts, ?parts ! 1, ?pts) # ?K) pd of
          Some pts \<Rightarrow> Some pts | None \<Rightarrow> map_of (dget raw sg []) pd)" for sg pd
        by (simp add: i(3) points_in_simps dget_upd dict_simps split: option.split)
      show "distinct (map fst (dget raw' sg []))" if "\<forall>sg. distinct (map fst (dget raw sg []))" for sg
        using i(4) that by (simp add: dget_upd distinct_upd)
    qed (rule i(2))
  next
    case False
    have s: "collect_series epoch ks (raw, lat) = Inr (raw, lat)"
      using False empty by (auto simp: collect_series_def ks Let_def pts)
    have kept: "kept_series (fst ` set raw) epoch (ks # w) = kept_series (fst ` set raw) epoch w"
      using False by (auto simp: kept_series_def ks List.map_filter_simps Let_def)
    from Cons.IH[OF w Cons.prems(2), of raw] show ?thesis unfolding kept by (simp add: s)
  qed
qed

lemma to_vectors_map_of:
  "distinct (map fst pp) \<Longrightarrow> map_of (to_vectors step latest pp) p = Option.bind (map_of pp p) (to_vector step latest)"
proof (induction pp rule: rev_induct)
  case (snoc x pp)
  have eq: "to_vectors step latest (pp @ [x]) = (case to_vector step latest (snd x) of None \<Rightarrow> to_vectors step latest pp
      | Some v \<Rightarrow> AList.update (fst x) v (to_vectors step latest pp))" by (simp add: to_vectors_def split: option.split)
  have "map_of pp (fst x) = None" using snoc.prems by (simp add: map_of_eq_None_iff)
  then show ?case using snoc unfolding eq by (auto simp: dict_simps map_add_def split: option.split)
qed (simp add: to_vectors_def)

text \<open>The vectors of a pass, from the document.\<close>

definition vectors_in :: "svc_config \<Rightarrow> (string option \<Rightarrow> real option) \<Rightarrow> window \<Rightarrow> string \<Rightarrow> pod \<Rightarrow> signal_vec option" where
  "vectors_in cfg epoch w sg pd = (let ks = kept_series {v_signal cfg, v_write_signal cfg} epoch w in
     Option.bind (points_in sg ks pd) (to_vector (v_step cfg) (last_stamp ks)))"

lemma collect_window_empty:
  assumes "complete_window epoch w"
  shows "\<exists>raw. collect_window epoch w (empty_raw cfg) = Inr (raw, last_stamp (kept_series {v_signal cfg, v_write_signal cfg} epoch w)) \<and>
    (\<forall>sg pd. map_of (dget raw sg []) pd = points_in sg (kept_series {v_signal cfg, v_write_signal cfg} epoch w) pd) \<and>
    (\<forall>sg. distinct (map fst (dget raw sg [])))"
proof -
  have raw: "fst ` set (fst (empty_raw cfg)) = {v_signal cfg, v_write_signal cfg}" "snd (empty_raw cfg) = 0"
    "\<And>sg. dget (fst (empty_raw cfg)) sg [] = []" by (auto simp: empty_raw_def dict_simps dget_def split: if_splits)
  have pos: "0 \<le> last_stamp ks" for ks by (simp add: last_stamp_def)
  let ?ks = "kept_series {v_signal cfg, v_write_signal cfg} epoch w"
  have id: "(case m of Some pts \<Rightarrow> Some pts | None \<Rightarrow> map_of [] pd) = m" for m :: "points option" and pd :: pod by (cases m) simp_all
  obtain raw' where c: "collect_window epoch w (fst (empty_raw cfg), 0) = Inr (raw', max 0 (last_stamp ?ks))"
    "\<forall>sg pd. map_of (dget raw' sg []) pd = points_in sg ?ks pd"
    "(\<forall>sg. distinct (map fst (dget (fst (empty_raw cfg)) sg []))) \<longrightarrow> (\<forall>sg. distinct (map fst (dget raw' sg [])))"
    using collect_window_kept[OF assms, of 0 "fst (empty_raw cfg)"] unfolding raw id by auto
  have "(fst (empty_raw cfg), 0) = empty_raw cfg" by (simp add: raw(2)[symmetric])
  with c show ?thesis unfolding max_absorb2[OF pos] by (intro exI[of _ raw']) (simp add: raw(3))
qed

lemma build_inputs_total:
  assumes "complete_window epoch w" "complete_events es"
  shows "\<exists>inp. build_inputs cfg epoch w es = Inr inp"
proof -
  obtain raw latest where "collect_window epoch w (empty_raw cfg) = Inr (raw, latest)"
    using collect_window_total[OF assms(1), of "empty_raw cfg"] by auto
  moreover obtain b where "breach_pods es = Inr b" using breach_total[OF assms(2)] by blast
  ultimately show ?thesis by (simp add: build_inputs_def Let_def)
qed

lemma build_inputs_Inr:
  assumes "build_inputs cfg epoch w es = Inr inp"
  obtains raw latest where "collect_window epoch w (empty_raw cfg) = Inr (raw, latest)"
    "i_vectors inp = to_vectors (v_step cfg) latest (dget raw (v_signal cfg) [])"
    "i_write inp = to_vectors (v_step cfg) latest (dget raw (v_write_signal cfg) [])"
    "i_witness inp = build_witness cfg (i_vectors inp)" "breach_pods es = Inr (i_breach inp)"
  using assms by (auto simp: build_inputs_def res_simps Let_def)

lemma build_inputs_wf:
  assumes "build_inputs cfg epoch w es = Inr inp"
  shows "uniform GRID_N (i_vectors inp)" "uniform GRID_N (i_write inp)" "wf_input (i_vectors inp) (Some (i_write inp))"
    "wf_input (i_vectors inp) None"
proof -
  show u: "uniform GRID_N (i_vectors inp)" "uniform GRID_N (i_write inp)"
    by (rule build_inputs_Inr[OF assms], simp add: to_vectors_uniform)+
  have "0 < GRID_N" by (simp add: GRID_N_def)
  moreover have "uniform GRID_N []" by (simp add: uniform_def)
  ultimately show "wf_input (i_vectors inp) (Some (i_write inp))" "wf_input (i_vectors inp) None"
    using u by (auto simp: wf_input_def opt_dict_def)
qed

text \<open>A pod under pressure: one of its last six samples is above the minimum.\<close>

definition pressed :: "svc_config \<Rightarrow> signal_vec pdict \<Rightarrow> pod \<Rightarrow> bool" where
  "pressed cfg vectors p \<longleftrightarrow> (\<exists>v. map_of vectors p = Some v \<and> (\<exists>x \<in> set (drop (length v - 6) v). v_copr_min cfg < x))"

lemma hot_pressed:
  assumes "uniform 180 vectors"
  shows "p \<in> set (hot_pods cfg vectors) \<longleftrightarrow> pressed cfg vectors p"
proof -
  have d: "distinct (map fst vectors)" and l: "\<And>q v. (q, v) \<in> set vectors \<Longrightarrow> length v = 180" using assms by (auto simp: uniform_def)
  have "np_max (py_tail 6 v) > v_copr_min cfg \<longleftrightarrow> (\<exists>x \<in> set (drop (length v - 6) v). v_copr_min cfg < x)" if "(p, v) \<in> set vectors" for v
  proof -
    have "drop (length v - 6) v \<noteq> []" using l[OF that] by simp
    then show ?thesis by (simp add: np_max_def py_tail_def Max_gr_iff)
  qed
  then show ?thesis using d by (force simp: hot_pods_def pressed_def)
qed

subsection \<open>Properties\<close>

text \<open>
  C23. Time alignment: on a time-ordered series the running index of the resampling loop is the same as
  looking every grid instant up on its own, so column \<open>k\<close> of every pod is read at the same instant: the
  last sample not later than half a step after it (the first sample, if there is none), when it lies
  within one step, and 0 otherwise.  A series whose last sample is two steps old, or with fewer than 12
  readings on the grid, is dropped.
\<close>

theorem resampling_is_lookup:
  assumes "sorted (map fst pts)" and "pts \<noteq> []" and "0 \<le> step"
  shows "to_vector step latest pts =
    (if fst (last pts) < latest - 2 * step \<or> length (filter (\<lambda>g. reading step pts g \<noteq> None) (grid step latest)) < 12 then None
     else Some (map (\<lambda>g. case reading step pts g of None \<Rightarrow> 0 | Some y \<Rightarrow> y) (grid step latest)))"
proof -
  have "0 < length pts" using assms(2) by simp
  then have "hold step pts 0 (grid step latest) = map (reading step pts) (grid step latest)"
    by (intro hold_lookup[OF assms(1,2) sorted_grid[OF assms(3)]]) simp_all
  then show ?thesis by (simp add: to_vector_def nan_to_num_def Let_def filter_map comp_def not_le)
qed

definition steady_points :: points where
  "steady_points = map (\<lambda>k. (real k * 5, 1)) [0..<12]"

theorem resampling_is_lookup_witness:
  "to_vector 5 100 steady_points = None"
proof -
  have s: "sorted (map fst steady_points)" "steady_points \<noteq> []" "(0::real) \<le> 5" by (simp_all add: steady_points_def upt_rec)
  have "fst (last steady_points) < 100 - 2 * 5" by (simp add: steady_points_def upt_rec)
  then show ?thesis unfolding resampling_is_lookup[OF s] by simp
qed

text \<open>
  C24. The inputs of a pass are those of the document.  Every payload of the aggregator in which a sample with
  a readable stamp has a value and a candidate event names its pod is accepted; a series of one of the two
  signals with at least twelve readable points counts, the last one of the document if a pod has several; the
  vector of a pod is that series resampled on the grid that ends at the latest stamp of all that count,
  with 180 samples.  The shared relation holds exactly between different pods of the storage workloads, the
  co-pressure exactly between different pods one of whose last six samples is above the minimum, there is no
  eBPF evidence, and the breaching pods are those the candidate events name, sorted and once each.
\<close>

theorem build_inputs_contract:
  assumes "complete_window epoch w" and "complete_events es"
  shows "\<exists>inp. build_inputs cfg epoch w es = Inr inp \<and>
    (\<forall>p. map_of (i_vectors inp) p = vectors_in cfg epoch w (v_signal cfg) p \<and>
       map_of (i_write inp) p = vectors_in cfg epoch w (v_write_signal cfg) p) \<and>
    uniform 180 (i_vectors inp) \<and> uniform 180 (i_write inp) \<and> ebpf_edges (i_witness inp) = {} \<and>
    (\<forall>a b. {a, b} \<in> shared_relation (i_witness inp) \<longleftrightarrow> a \<noteq> b \<and> a \<in> fst ` set (i_vectors inp) \<and>
       b \<in> fst ` set (i_vectors inp) \<and> stable_workload a \<in> set (v_storage cfg) \<and> stable_workload b \<in> set (v_storage cfg)) \<and>
    (\<forall>a b. {a, b} \<in> psi_copressure (i_witness inp) \<longleftrightarrow> a \<noteq> b \<and> pressed cfg (i_vectors inp) a \<and> pressed cfg (i_vectors inp) b) \<and>
    sorted (i_breach inp) \<and> distinct (i_breach inp) \<and>
    set (i_breach inp) = {p. Event (Some ''anomaly_candidate'') (Some p) \<in> set es}"
proof -
  obtain b where b: "breach_pods es = Inr b" "sorted b" "distinct b" using breach_total[OF assms(2)] by blast
  obtain raw where raw: "collect_window epoch w (empty_raw cfg) =
      Inr (raw, last_stamp (kept_series {v_signal cfg, v_write_signal cfg} epoch w))"
    "\<And>sg pd. map_of (dget raw sg []) pd = points_in sg (kept_series {v_signal cfg, v_write_signal cfg} epoch w) pd"
    "\<And>sg. distinct (map fst (dget raw sg []))" using collect_window_empty[OF assms(1), of cfg] by (elim exE conjE) (rule that; blast)
  let ?inp = "\<lparr>i_vectors = to_vectors (v_step cfg) (last_stamp (kept_series {v_signal cfg, v_write_signal cfg} epoch w)) (dget raw (v_signal cfg) []),
     i_write = to_vectors (v_step cfg) (last_stamp (kept_series {v_signal cfg, v_write_signal cfg} epoch w)) (dget raw (v_write_signal cfg) []),
     i_witness = build_witness cfg (to_vectors (v_step cfg) (last_stamp (kept_series {v_signal cfg, v_write_signal cfg} epoch w)) (dget raw (v_signal cfg) [])),
     i_breach = b\<rparr>"
  have inp: "build_inputs cfg epoch w es = Inr ?inp" by (simp add: build_inputs_def raw(1) b(1) Let_def)
  have d: "distinct (map fst (i_vectors ?inp))" using build_inputs_wf(1)[OF inp] by (simp add: uniform_def)
  have n: "GRID_N = 180" by (simp add: GRID_N_def)
  have u: "uniform 180 (i_vectors ?inp)" "uniform 180 (i_write ?inp)" using build_inputs_wf(1,2)[OF inp] unfolding n .
  have wit: "i_witness ?inp = build_witness cfg (i_vectors ?inp)" by simp
  have vec: "map_of (i_vectors ?inp) p = vectors_in cfg epoch w (v_signal cfg) p"
    "map_of (i_write ?inp) p = vectors_in cfg epoch w (v_write_signal cfg) p" for p
    by (simp_all add: to_vectors_map_of[OF raw(3)] raw(2) vectors_in_def Let_def)
  have hot: "p \<in> set (hot_pods cfg (i_vectors ?inp)) \<longleftrightarrow> pressed cfg (i_vectors ?inp) p" for p by (rule hot_pressed[OF u(1)])
  show ?thesis
  proof (intro exI[of _ ?inp] conjI allI inp u vec b(2,3) breach_named[OF b(1)])
    show "ebpf_edges (i_witness ?inp) = {}" unfolding wit by (simp add: build_witness_def)
  next
    fix a b show "{a, b} \<in> shared_relation (i_witness ?inp) \<longleftrightarrow> a \<noteq> b \<and> a \<in> fst ` set (i_vectors ?inp) \<and>
       b \<in> fst ` set (i_vectors ?inp) \<and> stable_workload a \<in> set (v_storage cfg) \<and> stable_workload b \<in> set (v_storage cfg)"
      unfolding wit by (rule build_witness_pairs(1)[OF d])
  next
    fix a b show "{a, b} \<in> psi_copressure (i_witness ?inp) \<longleftrightarrow> a \<noteq> b \<and> pressed cfg (i_vectors ?inp) a \<and> pressed cfg (i_vectors ?inp) b"
      unfolding wit build_witness_pairs(2)[OF d] hot ..
  next
    show "sorted (i_breach ?inp)" "distinct (i_breach ?inp)" "set (i_breach ?inp) = {p. Event (Some ''anomaly_candidate'') (Some p) \<in> set es}"
      using b(2,3) breach_named[OF b(1)] by simp_all
  qed
qed

text \<open>A payload with twelve samples of one pod, whose stamps are read by their length, and a candidate event.\<close>

definition stamp_reader :: "string option \<Rightarrow> real option" where
  "stamp_reader ts = map_option (\<lambda>s. real (length s) * 5) ts"

definition steady_window :: window where
  "steady_window = [(''data/a-1-1/psi_io'', map (\<lambda>k. \<lparr>smp_ts = Some (replicate k CHR ''x''), smp_value = Some 1\<rparr>) [0..<12])]"

lemma steady_kept: "kept_series {''psi_io'', ''io_write''} stamp_reader steady_window = [(''psi_io'', ''a-1-1'', steady_points)]"
proof -
  have parts: "split_on slash ''data/a-1-1/psi_io'' = [''data'', ''a-1-1'', ''psi_io'']" by (simp add: slash_def)
  let ?ss = "map (\<lambda>k. \<lparr>smp_ts = Some (replicate k CHR ''x''), smp_value = Some 1\<rparr>) [0..<12]"
  have m: "List.map_filter (\<lambda>s. map_option (\<lambda>t. (t, the (smp_value s))) (stamp_reader (smp_ts s))) ?ss = steady_points"
    by (simp add: List.map_filter_def stamp_reader_def steady_points_def comp_def)
  have "sort steady_points = steady_points"
    unfolding steady_points_def
    by (rule sorted_sort_id, simp only: sorted_wrt_map) (rule sorted_wrt_mono_rel[OF _ sorted_wrt_upt], simp)
  then have "read_points stamp_reader ?ss = steady_points" unfolding read_points_def m .
  moreover have "length steady_points = 12" by (simp add: steady_points_def)
  moreover have "List.map_filter f [x] = (case f x of None \<Rightarrow> [] | Some y \<Rightarrow> [y])" for f :: "string \<times> sample list \<Rightarrow> (string \<times> pod \<times> points) option" and x
    by (simp add: List.map_filter_simps split: option.split)
  ultimately show ?thesis unfolding kept_series_def steady_window_def Let_def by (simp only: prod.case parts) simp
qed

lemma steady_vector: "to_vector 5 55 steady_points \<noteq> None"
proof -
  have pts: "steady_points = [(0,1),(5,1),(10,1),(15,1),(20,1),(25,1),(30,1),(35,1),(40,1),(45,1),(50,1),(55,1)]"
    by (simp add: steady_points_def upt_rec)
  have "0 < length steady_points" "sorted (map fst steady_points)" "steady_points \<noteq> []" by (simp_all add: pts)
  then have h: "hold 5 steady_points 0 (grid 5 55) = map (reading 5 steady_points) (grid 5 55)"
    by (intro hold_lookup[OF _ _ sorted_grid]) simp_all
  have g: "grid 5 55 = map (\<lambda>k. 55 - 5 * real (179 - k)) [0..<168] @ [0,5,10,15,20,25,30,35,40,45,50,55]"
  proof -
    have "[0..<180] = [0..<168] @ [168..<180]" using upt_add_eq_append[of 0 168 12] by simp
    moreover have "[168..<180] = [168,169,170,171,172,173,174,175,176,177,178,179]" by (simp add: upt_rec)
    ultimately show ?thesis by (simp add: grid_def GRID_N_def)
  qed
  have "list_all (\<lambda>x. reading 5 steady_points x \<noteq> None) [0,5,10,15,20,25,30,35,40,45,50,55]"
    by (simp add: reading_def latest_upto_def pts)
  then have "filter (\<lambda>x. reading 5 steady_points x \<noteq> None) [0,5,10,15,20,25,30,35,40,45,50,55] = [0,5,10,15,20,25,30,35,40,45,50,55]"
    by (simp only: filter_id_conv list_all_iff)
  then have "12 \<le> length (filter (\<lambda>x. x \<noteq> None) (map (reading 5 steady_points) (grid 5 55)))"
    unfolding g filter_map comp_def filter_append by simp
  then show ?thesis unfolding to_vector_def h Let_def by (simp add: pts)
qed

theorem build_inputs_contract_witness:
  "\<exists>inp. build_inputs default_svc stamp_reader steady_window [NotObject, Event (Some ''anomaly_candidate'') (Some ''b-1-1'')] = Inr inp \<and>
     map_of (i_vectors inp) ''a-1-1'' \<noteq> None \<and> i_breach inp = [''b-1-1'']"
proof -
  let ?es = "[NotObject, Event (Some ''anomaly_candidate'') (Some ''b-1-1'')]"
  have ok: "complete_window stamp_reader steady_window" "complete_events ?es"
    by (auto simp: complete_window_def complete_events_def steady_window_def)
  obtain inp where inp: "build_inputs default_svc stamp_reader steady_window ?es = Inr inp"
    "map_of (i_vectors inp) ''a-1-1'' = vectors_in default_svc stamp_reader steady_window ''psi_io'' ''a-1-1''"
    "sorted (i_breach inp)" "distinct (i_breach inp)" "set (i_breach inp) = {''b-1-1''}"
    using build_inputs_contract[OF ok, of default_svc] by (auto simp: default_svc_def)
  have "last_stamp [(''psi_io'', ''a-1-1'', steady_points)] = 55" by (simp add: last_stamp_def steady_points_def upt_rec)
  then have "vectors_in default_svc stamp_reader steady_window ''psi_io'' ''a-1-1'' = to_vector 5 55 steady_points"
    by (simp add: vectors_in_def default_svc_def steady_kept Let_def points_in_simps)
  moreover have "i_breach inp = [''b-1-1'']"
    by (rule sorted_distinct_set_unique[OF inp(3,4)]) (simp_all add: inp(5))
  ultimately show ?thesis using inp(1,2) steady_vector by (intro exI[of _ inp]) simp
qed

end
