(* ===== verification/Aggregator.thy ===== *)
theory Aggregator
  imports Pack Machine Inputs
begin

text \<open>
  The aggregator, \<open>aggregator/main.go\<close>: the ring of samples, one evaluation of the pack against
  Prometheus, the list of recent events and the two documents it serves.  An answer of Prometheus is an
  argument; a run-time panic of Go is \<open>None\<close>.  Go's map is an association list, since its order is seen
  by nobody: the encoder of JSON sorts the keys.  The time stamp of an event, which no reader of the
  repository uses, is left out.
\<close>

record gsample =
  gs_ts :: real
  gs_pod :: string
  gs_ns :: string
  gs_sig :: string
  gs_value :: real

record ring =
  rg_data :: "gsample list pdict"
  rg_cap :: int

record gevent =
  gv_v :: nat
  gv_kind :: string
  gv_ns :: string
  gv_pod :: string
  gv_signal :: string
  gv_value :: real
  gv_zscore :: real
  gv_threshold :: go_float
  gv_window_s :: nat

subsection \<open>The ring\<close>

definition series_key :: "string \<Rightarrow> string \<Rightarrow> string \<Rightarrow> string" where
  "series_key ns pd sg = ns @ ''/'' @ pd @ ''/'' @ sg"

definition key_of :: "gsample \<Rightarrow> string" where
  "key_of s = series_key (gs_ns s) (gs_pod s) (gs_sig s)"

text \<open>\<open>Ring.Add\<close>; a slice that starts behind its end panics.\<close>

definition ring_add :: "gsample \<Rightarrow> ring \<Rightarrow> ring option" where
  "ring_add s r =
     (let k = key_of s; xs = dget (rg_data r) k [] @ [s]; n = int (length xs) in
      if n > rg_cap r then
        let lo = n - rg_cap r in
        if lo > n then None else Some (r\<lparr>rg_data := AList.update k (drop (nat lo) xs) (rg_data r)\<rparr>)
      else Some (r\<lparr>rg_data := AList.update k xs (rg_data r)\<rparr>))"

definition ring_series :: "ring \<Rightarrow> string \<Rightarrow> string \<Rightarrow> string \<Rightarrow> real list" where
  "ring_series r ns pd sg = map gs_value (dget (rg_data r) (series_key ns pd sg) [])"

subsection \<open>Scores, answers\<close>

definition zscore :: "real list \<Rightarrow> real \<Rightarrow> real" where
  "zscore hist v =
     (if length hist < 12 then 0
      else let cp = sort hist; med = cp ! (length cp div 2);
               dev = sort (map (\<lambda>x. \<bar>x - med\<bar>) cp); mad = dev ! (length dev div 2)
           in if mad = 0 then 0 else (v - med) / (14826 / 10000 * mad))"

text \<open>An element of the result vector; its value is \<open>None\<close> when it is not a string.\<close>

record prom_row =
  pr_metric :: "string pdict"
  pr_value :: "string option"
  pr_now :: real

datatype prom_answer = PromError | PromRows "prom_row list"

definition row_sample :: "(string \<Rightarrow> go_float option) \<Rightarrow> prom_row \<Rightarrow> gsample option" where
  "row_sample pf r = (case pr_value r of None \<Rightarrow> None
     | Some t \<Rightarrow> (case pf t of
         Some (Finite v) \<Rightarrow> Some \<lparr>gs_ts = pr_now r, gs_pod = dget (pr_metric r) ''pod'' [],
           gs_ns = dget (pr_metric r) ''namespace'' [], gs_sig = [], gs_value = v\<rparr>
       | _ \<Rightarrow> None))"

definition prom_query :: "(string \<Rightarrow> go_float option) \<Rightarrow> prom_answer \<Rightarrow> gsample list option" where
  "prom_query pf a = (case a of PromError \<Rightarrow> None | PromRows rs \<Rightarrow> Some (List.map_filter (row_sample pf) rs))"

subsection \<open>Evaluating the pack\<close>

definition schema_signals :: "string list" where
  "schema_signals = [''cpu'', ''mem'', ''net_rx'', ''net_tx'', ''pvc_io_util'', ''pvc_capacity'', ''psi_cpu'', ''psi_mem'',
     ''psi_io'', ''restarts'', ''latency_p95'', ''log_error_rate'']"

definition above :: "real \<Rightarrow> go_float \<Rightarrow> bool" where
  "above v thr = (case thr of Finite t \<Rightarrow> v > t | Infinite pos \<Rightarrow> \<not> pos | NotANumber \<Rightarrow> False)"

definition mk_event :: "ring \<Rightarrow> string \<Rightarrow> gsample \<Rightarrow> go_float \<Rightarrow> gevent" where
  "mk_event r sg s thr = \<lparr>gv_v = 1, gv_kind = ''anomaly_candidate'', gv_ns = gs_ns s, gv_pod = gs_pod s, gv_signal = sg,
     gv_value = gs_value s, gv_zscore = zscore (ring_series r (gs_ns s) (gs_pod s) sg) (gs_value s),
     gv_threshold = thr, gv_window_s = 60\<rparr>"

text \<open>One iteration over the samples of a signal.\<close>

definition eval_sample :: "pack \<Rightarrow> string \<Rightarrow> gsample \<Rightarrow> ring \<times> gevent list \<Rightarrow> (ring \<times> gevent list) option" where
  "eval_sample p sg s0 st =
     (if gs_pod s0 = [] then Some st
      else let s = s0\<lparr>gs_sig := sg\<rparr> in
        (case ring_add s (fst st) of None \<Rightarrow> None
         | Some r \<Rightarrow>
             if sg \<notin> set schema_signals then Some (r, snd st)
             else (case threshold_for sg p of None \<Rightarrow> Some (r, snd st)
               | Some thr \<Rightarrow> if above (gs_value s) thr then Some (r, snd st @ [mk_event r sg s thr])
                   else Some (r, snd st))))"

fun eval_samples :: "pack \<Rightarrow> string \<Rightarrow> gsample list \<Rightarrow> ring \<times> gevent list \<Rightarrow> (ring \<times> gevent list) option" where
  "eval_samples p sg [] st = Some st"
| "eval_samples p sg (s # ss) st = Option.bind (eval_sample p sg s st) (eval_samples p sg ss)"

text \<open>The loop over the signals; \<open>ask i q\<close> is the answer to the query \<open>q\<close>, the \<open>i\<close>-th of the evaluation.\<close>

fun eval_signals :: "pack \<Rightarrow> (string \<Rightarrow> go_float option) \<Rightarrow> (nat \<Rightarrow> string \<Rightarrow> prom_answer) \<Rightarrow> nat \<Rightarrow> string list \<Rightarrow>
    ring \<times> gevent list \<Rightarrow> (ring \<times> gevent list) option" where
  "eval_signals p pf ask i [] st = Some st"
| "eval_signals p pf ask i (sg # sgs) st = (case prom_query pf (ask i (dget (pk_queries p) sg [])) of
     None \<Rightarrow> eval_signals p pf ask (i + 1) sgs st
   | Some ss \<Rightarrow> Option.bind (eval_samples p sg ss st) (eval_signals p pf ask (i + 1) sgs))"

definition eval_events :: "pack \<Rightarrow> (string \<Rightarrow> go_float option) \<Rightarrow> (nat \<Rightarrow> string \<Rightarrow> prom_answer) \<Rightarrow> ring \<Rightarrow>
    (ring \<times> gevent list) option" where
  "eval_events p pf ask r = eval_signals p pf ask 0 (pk_order p) (r, [])"

subsection \<open>The process\<close>

definition RECENT_MAX :: nat where
  "RECENT_MAX = 256"

definition publish :: "gevent \<Rightarrow> gevent list \<Rightarrow> gevent list" where
  "publish ev recent = (let r = recent @ [ev] in if length r > RECENT_MAX then drop (length r - RECENT_MAX) r else r)"

text \<open>\<open>ag_pending\<close> are the events that an evaluation has found and not yet published.\<close>

record agg =
  ag_ring :: ring
  ag_pending :: "gevent list"
  ag_recent :: "gevent list"

definition agg_start :: "pack \<Rightarrow> agg" where
  "agg_start p = \<lparr>ag_ring = \<lparr>rg_data = [], rg_cap = ring_cap p\<rparr>, ag_pending = [], ag_recent = []\<rparr>"

text \<open>One tick of the polling goroutine, and its atomic steps, between which a request can be served.\<close>

definition tick :: "pack \<Rightarrow> (string \<Rightarrow> go_float option) \<Rightarrow> (nat \<Rightarrow> string \<Rightarrow> prom_answer) \<Rightarrow> agg \<Rightarrow> agg option" where
  "tick p pf ask a = (case eval_events p pf ask (ag_ring a) of None \<Rightarrow> None
     | Some (r, evs) \<Rightarrow> Some (a\<lparr>ag_ring := r, ag_recent := fold publish evs (ag_recent a)\<rparr>))"

datatype agg_event = Sampled string gsample | Published

inductive agg_step :: "pack \<Rightarrow> agg \<Rightarrow> agg_event \<Rightarrow> agg \<Rightarrow> bool" for p where
  step_sampled: "eval_sample p sg s (ag_ring a, ag_pending a) = Some (r, evs) \<Longrightarrow>
    agg_step p a (Sampled sg s) (a\<lparr>ag_ring := r, ag_pending := evs\<rparr>)"
| step_published: "ag_pending a = ev # evs \<Longrightarrow>
    agg_step p a Published (a\<lparr>ag_pending := evs, ag_recent := publish ev (ag_recent a)\<rparr>)"

inductive_cases agg_stepE: "agg_step p a e a'"

subsection \<open>The documents\<close>

text \<open>\<open>/window\<close>: \<open>fmt\<close> formats a time stamp; the keys of a map are sorted.  \<open>/events\<close>: an infinite number
  cannot be encoded, and then nothing is written.\<close>

definition window_doc :: "(real \<Rightarrow> string) \<Rightarrow> ring \<Rightarrow> window" where
  "window_doc fmt r = sort_key fst (map (\<lambda>(k, ss). (k,
     map (\<lambda>s. \<lparr>smp_ts = Some (fmt (gs_ts s)), smp_value = Some (gs_value s)\<rparr>) ss)) (rg_data r))"

definition is_finite :: "go_float \<Rightarrow> bool" where
  "is_finite x = (case x of Finite _ \<Rightarrow> True | _ \<Rightarrow> False)"

definition events_doc :: "gevent list \<Rightarrow> string + json_event list" where
  "events_doc recent = (if list_all (\<lambda>ev. is_finite (gv_threshold ev)) recent
     then Inr (map (\<lambda>ev. Event (Some (gv_kind ev)) (Some (gv_pod ev))) recent)
     else Inl ''Expecting value: line 1 column 1 (char 0)'')"

subsection \<open>The ring is a sliding window\<close>

definition last_n :: "nat \<Rightarrow> 'a list \<Rightarrow> 'a list" where
  "last_n n xs = drop (length xs - n) xs"

lemma length_last_n [simp]: "length (last_n n xs) = min n (length xs)"
  by (simp add: last_n_def)

lemma last_n_snoc: "last_n n (last_n n xs @ [x]) = last_n n (xs @ [x])"
proof (cases n)
  case (Suc m)
  then show ?thesis by (cases "length xs < n") (auto simp: last_n_def not_less Suc_diff_le Suc_le_eq Suc_diff_Suc)
qed (simp add: last_n_def)

lemma last_n_short: "length xs \<le> n \<Longrightarrow> last_n n xs = xs"
  by (simp add: last_n_def)

lemma ring_add_eq:
  assumes "0 \<le> rg_cap r"
  shows "ring_add s r = Some (r\<lparr>rg_data := AList.update (key_of s)
    (last_n (nat (rg_cap r)) (dget (rg_data r) (key_of s) [] @ [s])) (rg_data r)\<rparr>)"
proof -
  define xs where "xs = dget (rg_data r) (key_of s) [] @ [s]"
  have "nat (int (length xs) - rg_cap r) = length xs - nat (rg_cap r)" using assms by linarith
  moreover have "last_n (nat (rg_cap r)) xs = xs" if "\<not> int (length xs) > rg_cap r"
    by (rule last_n_short) (use that in linarith)
  ultimately show ?thesis using assms
    unfolding ring_add_def Let_def xs_def[symmetric] by (auto simp: last_n_def)
qed

text \<open>What the ring shows of a history of samples.\<close>

definition shows_history :: "ring \<Rightarrow> gsample list \<Rightarrow> bool" where
  "shows_history r hist \<longleftrightarrow> distinct (map fst (rg_data r)) \<and> fst ` set (rg_data r) = key_of ` set hist \<and>
     (\<forall>k. dget (rg_data r) k [] = last_n (nat (rg_cap r)) (filter (\<lambda>s. key_of s = k) hist))"

lemma shows_history_add:
  assumes "0 \<le> rg_cap r" "shows_history r hist"
  shows "\<exists>r'. ring_add s r = Some r' \<and> rg_cap r' = rg_cap r \<and> shows_history r' (hist @ [s])"
  using assms(2) by (auto simp: ring_add_eq[OF assms(1)] shows_history_def dict_simps dget_upd last_n_snoc)

subsection \<open>The steps\<close>

text \<open>The samples a sequence of steps accepts, and the breaches among them.\<close>

fun accepted :: "agg_event list \<Rightarrow> gsample list" where
  "accepted [] = []"
| "accepted (Published # evs) = accepted evs"
| "accepted (Sampled sg s # evs) = (if gs_pod s = [] then accepted evs else s\<lparr>gs_sig := sg\<rparr> # accepted evs)"

definition breach :: "pack \<Rightarrow> gsample list \<Rightarrow> gsample \<Rightarrow> gevent option" where
  "breach p hist s = (if gs_sig s \<notin> set schema_signals then None
     else case threshold_for (gs_sig s) p of None \<Rightarrow> None
       | Some thr \<Rightarrow> if above (gs_value s) thr then Some
           \<lparr>gv_v = 1, gv_kind = ''anomaly_candidate'', gv_ns = gs_ns s, gv_pod = gs_pod s, gv_signal = gs_sig s,
            gv_value = gs_value s, gv_zscore = zscore (map gs_value (last_n (nat (ring_cap p))
              (filter (\<lambda>x. key_of x = key_of s) (hist @ [s])))) (gs_value s), gv_threshold = thr, gv_window_s = 60\<rparr>
         else None)"

fun breaches :: "pack \<Rightarrow> gsample list \<Rightarrow> gsample list \<Rightarrow> gevent list" where
  "breaches p hist [] = []"
| "breaches p hist (s # ss) = (case breach p hist s of None \<Rightarrow> [] | Some ev \<Rightarrow> [ev]) @ breaches p (hist @ [s]) ss"

lemma eval_sample_spec:
  assumes "0 \<le> ring_cap p" "rg_cap r = ring_cap p" "shows_history r hist" "gs_pod s \<noteq> []"
  shows "\<exists>r'. eval_sample p sg s (r, evs) = Some (r', evs @ breaches p hist [s\<lparr>gs_sig := sg\<rparr>]) \<and>
    rg_cap r' = ring_cap p \<and> shows_history r' (hist @ [s\<lparr>gs_sig := sg\<rparr>])"
proof -
  let ?s = "s\<lparr>gs_sig := sg\<rparr>"
  obtain r' where r': "ring_add ?s r = Some r'" "rg_cap r' = ring_cap p" "shows_history r' (hist @ [?s])"
    using shows_history_add[of r hist ?s] assms(1-3) by auto
  have "ring_series r' (gs_ns s) (gs_pod s) sg =
      map gs_value (last_n (nat (ring_cap p)) (filter (\<lambda>x. key_of x = key_of ?s) (hist @ [?s])))"
    using r'(2,3) by (simp add: ring_series_def shows_history_def key_of_def)
  then show ?thesis using r' assms(4)
    by (auto simp: eval_sample_def Let_def breach_def mk_event_def split: option.split)
qed

lemma step_spec:
  assumes "agg_step p a e a'" "0 \<le> ring_cap p" "rg_cap (ag_ring a) = ring_cap p" "shows_history (ag_ring a) hist"
  shows "rg_cap (ag_ring a') = ring_cap p \<and> shows_history (ag_ring a') (hist @ accepted [e]) \<and>
    (e = Published \<and> ag_pending a = hd (ag_pending a) # ag_pending a' \<and> ag_recent a' = publish (hd (ag_pending a)) (ag_recent a) \<or>
     e \<noteq> Published \<and> ag_pending a' = ag_pending a @ breaches p hist (accepted [e]) \<and> ag_recent a' = ag_recent a)"
  using assms(1)
proof (cases rule: agg_step.cases)
  case (step_sampled sg s r evs)
  note 1 = this
  show ?thesis
  proof (cases "gs_pod s = []")
    case True
    then show ?thesis using 1 assms(3,4) by (simp add: eval_sample_def)
  next
    case False
    from eval_sample_spec[OF assms(2-4) this, of sg "ag_pending a"] 1 show ?thesis using False by auto
  qed
qed (use assms in auto)

lemma breaches_append: "breaches p hist (xs @ ys) = breaches p hist xs @ breaches p (hist @ xs) ys"
  by (induction xs arbitrary: hist) auto

lemma accepted_append: "accepted (xs @ ys) = accepted xs @ accepted ys"
  by (induction xs rule: accepted.induct) auto

definition published_count :: "agg_event list \<Rightarrow> nat" where
  "published_count evs = length (filter (\<lambda>e. e = Published) evs)"

lemma agg_run_exact:
  assumes "0 \<le> ring_cap p" "run (agg_step p) (agg_start p) evs a"
  shows "rg_cap (ag_ring a) = ring_cap p \<and> shows_history (ag_ring a) (accepted evs) \<and>
    published_count evs \<le> length (breaches p [] (accepted evs)) \<and>
    ag_recent a = last_n RECENT_MAX (take (published_count evs) (breaches p [] (accepted evs))) \<and>
    ag_pending a = drop (published_count evs) (breaches p [] (accepted evs))"
  using assms(2)
proof (induction evs arbitrary: a rule: rev_induct)
  case Nil
  then show ?case by (auto simp: agg_start_def shows_history_def dget_def last_n_def published_count_def)
next
  case (snoc e evs)
  let ?f = "\<lambda>evs. breaches p [] (accepted evs)" and ?n = "published_count evs"
  obtain b where b: "run (agg_step p) (agg_start p) evs b" "agg_step p b e a" using snoc.prems by (rule run_snocE)
  note ih = snoc.IH[OF b(1)]
  note st = step_spec[OF b(2) assms(1) conjunct1[OF ih] conjunct1[OF conjunct2[OF ih]]]
  show ?case
  proof (cases "e = Published")
    case True
    have drop: "drop ?n (?f evs) = hd (ag_pending b) # ag_pending a" using st True ih by auto
    then have lt: "?n < length (?f evs)" by (metis drop_eq_Nil list.distinct(1) not_less)
    have hd: "hd (ag_pending b) = ?f evs ! ?n" and tl: "ag_pending a = drop (Suc ?n) (?f evs)"
      using drop lt by (simp_all add: Cons_nth_drop_Suc[symmetric])
    have pub: "publish x (last_n RECENT_MAX xs) = last_n RECENT_MAX (xs @ [x])" for x and xs :: "gevent list"
      using last_n_snoc[of RECENT_MAX xs x] by (auto simp: publish_def Let_def last_n_def)
    have take: "take (Suc ?n) (?f evs) = take ?n (?f evs) @ [?f evs ! ?n]" using lt by (simp add: take_Suc_conv_app_nth)
    show ?thesis using st True ih lt hd tl take pub
      by (simp add: accepted_append published_count_def)
  next
    case False
    then have "published_count (evs @ [e]) = ?n" by (simp add: published_count_def)
    then show ?thesis using st False ih by (simp add: accepted_append breaches_append)
  qed
qed

subsection \<open>A whole tick\<close>

text \<open>The samples of one evaluation, in the order of the pack.\<close>

fun scraped :: "pack \<Rightarrow> (string \<Rightarrow> go_float option) \<Rightarrow> (nat \<Rightarrow> string \<Rightarrow> prom_answer) \<Rightarrow> nat \<Rightarrow> string list \<Rightarrow> gsample list" where
  "scraped p pf ask i [] = []"
| "scraped p pf ask i (sg # sgs) = (case prom_query pf (ask i (dget (pk_queries p) sg [])) of None \<Rightarrow> []
     | Some ss \<Rightarrow> map (\<lambda>s. s\<lparr>gs_sig := sg\<rparr>) (filter (\<lambda>s. gs_pod s \<noteq> []) ss)) @ scraped p pf ask (i + 1) sgs"

lemma accepted_sampled:
  "accepted (map (Sampled sg) ss) = map (\<lambda>s. s\<lparr>gs_sig := sg\<rparr>) (filter (\<lambda>s. gs_pod s \<noteq> []) ss)"
  by (induction ss) auto

lemma eval_sample_total: "0 \<le> rg_cap r \<Longrightarrow> \<exists>r' evs'. eval_sample p sg s (r, evs) = Some (r', evs') \<and> rg_cap r' = rg_cap r"
  by (auto simp: eval_sample_def ring_add_eq Let_def split: option.split)

lemma eval_samples_run:
  assumes "0 \<le> rg_cap (ag_ring a)"
  shows "\<exists>r evs. eval_samples p sg ss (ag_ring a, ag_pending a) = Some (r, evs) \<and> rg_cap r = rg_cap (ag_ring a) \<and>
    run (agg_step p) a (map (Sampled sg) ss) (a\<lparr>ag_ring := r, ag_pending := evs\<rparr>)"
  using assms
proof (induction ss arbitrary: a)
  case (Cons s ss)
  obtain r evs where e: "eval_sample p sg s (ag_ring a, ag_pending a) = Some (r, evs)" "rg_cap r = rg_cap (ag_ring a)"
    using eval_sample_total[OF Cons.prems] by blast
  let ?b = "a\<lparr>ag_ring := r, ag_pending := evs\<rparr>"
  obtain r' evs' where r': "eval_samples p sg ss (r, evs) = Some (r', evs')" "rg_cap r' = rg_cap r"
    "run (agg_step p) ?b (map (Sampled sg) ss) (?b\<lparr>ag_ring := r', ag_pending := evs'\<rparr>)"
    using Cons.IH[of ?b] Cons.prems e(2) by auto
  have "agg_step p a (Sampled sg s) ?b" by (rule step_sampled) (rule e)
  then have "run (agg_step p) a (map (Sampled sg) (s # ss)) (a\<lparr>ag_ring := r', ag_pending := evs'\<rparr>)"
    using r'(3) by (auto intro: run_step)
  then show ?case using e r' by auto
qed simp

lemma eval_signals_run:
  assumes "0 \<le> rg_cap (ag_ring a)"
  shows "\<exists>r evs es. eval_signals p pf ask i sgs (ag_ring a, ag_pending a) = Some (r, evs) \<and> rg_cap r = rg_cap (ag_ring a) \<and>
    run (agg_step p) a es (a\<lparr>ag_ring := r, ag_pending := evs\<rparr>) \<and> accepted es = scraped p pf ask i sgs \<and> published_count es = 0"
  using assms
proof (induction sgs arbitrary: a i)
  case Nil
  have "a\<lparr>ag_ring := ag_ring a, ag_pending := ag_pending a\<rparr> = a" by simp
  then show ?case by (auto intro!: exI[of _ "[]"] simp: published_count_def)
next
  case (Cons sg sgs)
  show ?case
  proof (cases "prom_query pf (ask i (dget (pk_queries p) sg []))")
    case None
    then show ?thesis using Cons by simp
  next
    case (Some ss)
    obtain r evs where e: "eval_samples p sg ss (ag_ring a, ag_pending a) = Some (r, evs)" "rg_cap r = rg_cap (ag_ring a)"
      "run (agg_step p) a (map (Sampled sg) ss) (a\<lparr>ag_ring := r, ag_pending := evs\<rparr>)"
      using eval_samples_run[OF Cons.prems] by blast
    let ?b = "a\<lparr>ag_ring := r, ag_pending := evs\<rparr>"
    obtain r' evs' es where f: "eval_signals p pf ask (i + 1) sgs (r, evs) = Some (r', evs')" "rg_cap r' = rg_cap r"
      "run (agg_step p) ?b es (?b\<lparr>ag_ring := r', ag_pending := evs'\<rparr>)" "accepted es = scraped p pf ask (i + 1) sgs"
      "published_count es = 0"
      using Cons.IH[of ?b "i + 1"] Cons.prems e(2) by auto
    have "run (agg_step p) a (map (Sampled sg) ss @ es) (a\<lparr>ag_ring := r', ag_pending := evs'\<rparr>)"
      using run_append[OF e(3) f(3)] by simp
    moreover have "published_count (map (Sampled sg) ss @ es) = 0"
      using f(5) by (simp add: published_count_def filter_empty_conv)
    ultimately show ?thesis using e f Some by (auto simp: accepted_append accepted_sampled intro!: exI[of _ "map (Sampled sg) ss @ es"])
  qed
qed

lemma publish_run:
  "ag_pending a = evs \<Longrightarrow> run (agg_step p) a (replicate (length evs) Published)
     (a\<lparr>ag_pending := [], ag_recent := fold publish evs (ag_recent a)\<rparr>)"
proof (induction evs arbitrary: a)
  case Nil
  have "a\<lparr>ag_pending := [], ag_recent := ag_recent a\<rparr> = a" using Nil by simp
  then show ?case by simp
next
  case (Cons ev evs)
  let ?b = "a\<lparr>ag_pending := evs, ag_recent := publish ev (ag_recent a)\<rparr>"
  have "agg_step p a Published ?b" by (rule step_published) (rule Cons.prems)
  moreover have "run (agg_step p) ?b (replicate (length evs) Published)
     (a\<lparr>ag_pending := [], ag_recent := fold publish (ev # evs) (ag_recent a)\<rparr>)" using Cons.IH[of ?b] by simp
  ultimately show ?case by (simp add: run_step)
qed

lemma negative_cap_panics: "rg_cap r < 0 \<Longrightarrow> gs_pod s \<noteq> [] \<Longrightarrow> eval_sample p sg s (r, evs) = None"
  by (simp add: eval_sample_def ring_add_def Let_def)

lemma eval_samples_negative:
  "rg_cap (fst st) < 0 \<Longrightarrow> eval_samples p sg ss st = (if \<exists>s \<in> set ss. gs_pod s \<noteq> [] then None else Some st)"
proof (induction ss)
  case (Cons s ss)
  show ?case
  proof (cases "gs_pod s = []")
    case True
    then show ?thesis using Cons by (simp add: eval_sample_def)
  next
    case False
    then show ?thesis using Cons.prems negative_cap_panics by (cases st) simp
  qed
qed simp

lemma eval_signals_negative:
  "rg_cap (fst st) < 0 \<Longrightarrow> eval_signals p pf ask i sgs st = (if scraped p pf ask i sgs = [] then Some st else None)"
proof (induction sgs arbitrary: i)
  case (Cons sg sgs)
  show ?case
  proof (cases "prom_query pf (ask i (dget (pk_queries p) sg []))")
    case None
    then show ?thesis using Cons by simp
  next
    case (Some ss)
    show ?thesis
    proof (cases "\<exists>s \<in> set ss. gs_pod s \<noteq> []")
      case True
      then have "filter (\<lambda>s. gs_pod s \<noteq> []) ss \<noteq> []" by (simp add: filter_empty_conv)
      then show ?thesis using True Some Cons.prems by (simp add: eval_samples_negative)
    next
      case False
      then have "filter (\<lambda>s. gs_pod s \<noteq> []) ss = []" by (simp add: filter_empty_conv)
      then show ?thesis using False Some Cons by (simp add: eval_samples_negative)
    qed
  qed
qed simp

subsection \<open>Properties\<close>

text \<open>
  C8. The aggregator is a sliding window, over every interleaving of its atomic steps: every series holds
  exactly the last \<open>capN\<close> samples accepted for its key, in order, there is a series for precisely the keys
  seen, and the recent events are the last 256 of the published breaches; the breaches are exactly the
  accepted samples of a signal of the schema above its threshold, with the score of the value in its own
  window, and those not yet published follow in order.
\<close>

theorem aggregator_exact:
  assumes "0 \<le> ring_cap p" and "run (agg_step p) (agg_start p) evs a"
  shows "(\<forall>k. dget (rg_data (ag_ring a)) k [] = last_n (nat (ring_cap p)) (filter (\<lambda>s. key_of s = k) (accepted evs))) \<and>
    fst ` set (rg_data (ag_ring a)) = key_of ` set (accepted evs) \<and> distinct (map fst (rg_data (ag_ring a))) \<and>
    ag_recent a = last_n RECENT_MAX (take (published_count evs) (breaches p [] (accepted evs))) \<and>
    ag_pending a = drop (published_count evs) (breaches p [] (accepted evs))"
  using agg_run_exact[OF assms] by (simp add: shows_history_def)

text \<open>
  C32. A tick of the polling loop panics exactly when the capacity of the ring is negative and some
  sample with a pod was scraped; otherwise it returns, publishes all it found, and is a sequence of the
  atomic steps over exactly the samples of the readable answers that name a pod, in the order of the pack.
\<close>

theorem tick_refines:
  assumes "ag_pending a = []"
  shows "(tick p pf ask a = None \<longleftrightarrow> rg_cap (ag_ring a) < 0 \<and> scraped p pf ask 0 (pk_order p) \<noteq> []) \<and>
    (0 \<le> rg_cap (ag_ring a) \<longrightarrow> (\<exists>a' es. tick p pf ask a = Some a' \<and> ag_pending a' = [] \<and>
       run (agg_step p) a es a' \<and> accepted es = scraped p pf ask 0 (pk_order p)))"
proof (cases "0 \<le> rg_cap (ag_ring a)")
  case True
  obtain r evs es where e: "eval_signals p pf ask 0 (pk_order p) (ag_ring a, ag_pending a) = Some (r, evs)"
    "run (agg_step p) a es (a\<lparr>ag_ring := r, ag_pending := evs\<rparr>)" "accepted es = scraped p pf ask 0 (pk_order p)"
    using eval_signals_run[OF True] by blast
  let ?b = "a\<lparr>ag_ring := r, ag_recent := fold publish evs (ag_recent a)\<rparr>"
  have t: "tick p pf ask a = Some ?b" using e(1) assms by (simp add: tick_def eval_events_def)
  have "run (agg_step p) (a\<lparr>ag_ring := r, ag_pending := evs\<rparr>) (replicate (length evs) Published)
      (a\<lparr>ag_ring := r, ag_pending := [], ag_recent := fold publish evs (ag_recent a)\<rparr>)"
    using publish_run[of "a\<lparr>ag_ring := r, ag_pending := evs\<rparr>" evs p] by simp
  moreover have "a\<lparr>ag_ring := r, ag_pending := [], ag_recent := fold publish evs (ag_recent a)\<rparr> = ?b" using assms by simp
  ultimately have "run (agg_step p) a (es @ replicate (length evs) Published) ?b" using run_append[OF e(2)] by simp
  moreover have "accepted (replicate n Published) = []" for n by (induction n) auto
  ultimately show ?thesis using True t e(3) assms
    by (auto simp: accepted_append intro!: exI[of _ "es @ replicate (length evs) Published"])
next
  case False
  then show ?thesis by (auto simp: tick_def eval_events_def eval_signals_negative split: option.split)
qed

subsection \<open>A concrete tick\<close>

definition test_pack :: pack where
  "test_pack = \<lparr>pk_interval_s = 5, pk_window_min = 15, pk_queries = [(''psi_io'', ''rate(x[30s])'')], pk_order = [''psi_io''],
     pk_thresholds = [(''psi_some_avg'', Finite (2/10))]\<rparr>"

definition mock_prom :: "nat \<Rightarrow> string \<Rightarrow> prom_answer" where
  "mock_prom i q = PromRows [\<lparr>pr_metric = [(''namespace'', ''factory-data''), (''pod'', ''cooling-monitor-1'')],
     pr_value = Some ''0.94'', pr_now = 7\<rparr>]"

definition mock_float :: "string \<Rightarrow> go_float option" where
  "mock_float t = (if t = ''0.94'' then Some (Finite (94/100)) else None)"

lemma test_cap: "ring_cap test_pack = 180"
  by (simp add: ring_cap_def test_pack_def wrap64_def signed_divide_int_def)

definition test_sample :: gsample where
  "test_sample = \<lparr>gs_ts = 7, gs_pod = ''b-1'', gs_ns = ''a'', gs_sig = ''psi_io'', gs_value = 94/100\<rparr>"

abbreviation test_events :: "agg_event list" where
  "test_events \<equiv> [Sampled ''psi_io'' test_sample, Published]"

lemma test_breach: "\<exists>ev. breaches test_pack [] [test_sample] = [ev] \<and> gv_value ev = 94/100"
proof -
  have "threshold_for ''psi_io'' test_pack = Some (Finite (2/10))" by (simp add: threshold_for_def test_pack_def)
  then show ?thesis by (simp add: breach_def schema_signals_def above_def test_sample_def)
qed

lemma test_run: "\<exists>a. run (agg_step test_pack) (agg_start test_pack) test_events a"
proof -
  obtain r evs where e: "eval_sample test_pack ''psi_io'' test_sample (ag_ring (agg_start test_pack), []) = Some (r, evs)"
    using eval_sample_total[of "ag_ring (agg_start test_pack)" test_pack "''psi_io''" test_sample "[]"]
    by (simp only: agg_start_def agg.simps ring.simps test_cap) auto
  let ?b = "(agg_start test_pack)\<lparr>ag_ring := r, ag_pending := evs\<rparr>"
  have s: "agg_step test_pack (agg_start test_pack) (Sampled ''psi_io'' test_sample) ?b"
    by (rule step_sampled) (use e in \<open>simp add: agg_start_def\<close>)
  then have "run (agg_step test_pack) (agg_start test_pack) [Sampled ''psi_io'' test_sample] ?b" by (rule run_step) (rule run_refl)
  from agg_run_exact[OF _ this] have "evs \<noteq> []"
    using test_breach by (auto simp: published_count_def test_cap test_sample_def)
  then obtain ev evs' where "evs = ev # evs'" by (cases evs) auto
  then have "agg_step test_pack ?b Published (?b\<lparr>ag_pending := evs', ag_recent := publish ev (ag_recent ?b)\<rparr>)"
    by (intro step_published) simp
  with s show ?thesis by (auto intro: run_step)
qed

theorem aggregator_exact_witness:
  "\<exists>a. run (agg_step test_pack) (agg_start test_pack) test_events a \<and>
     map gs_value (dget (rg_data (ag_ring a)) ''a/b-1/psi_io'' []) = [94/100] \<and> map gv_value (ag_recent a) = [94/100]"
proof -
  obtain a where r: "run (agg_step test_pack) (agg_start test_pack) test_events a" using test_run by (rule exE)
  have c: "0 \<le> ring_cap test_pack" by (simp add: test_cap)
  have ac: "accepted test_events = [test_sample]" "published_count test_events = 1"
    by (simp_all add: published_count_def test_sample_def)
  have k: "key_of test_sample = ''a/b-1/psi_io''" by (simp add: key_of_def series_key_def test_sample_def)
  obtain ev where ev: "breaches test_pack [] [test_sample] = [ev]" "gv_value ev = 94/100" using test_breach by blast
  note ex = aggregator_exact[OF c r, unfolded ac ev(1)]
  have "dget (rg_data (ag_ring a)) ''a/b-1/psi_io'' [] =
      last_n (nat (ring_cap test_pack)) (filter (\<lambda>s. key_of s = ''a/b-1/psi_io'') [test_sample])"
    by (rule spec[OF conjunct1[OF ex]])
  also have "\<dots> = [test_sample]" unfolding k[symmetric] by (simp add: last_n_def test_cap)
  finally have d: "map gs_value (dget (rg_data (ag_ring a)) ''a/b-1/psi_io'' []) = [94/100]" by (simp add: test_sample_def)
  have "ag_recent a = last_n RECENT_MAX (take 1 [ev])" using ex by blast
  then have "map gv_value (ag_recent a) = [94/100]" using ev(2) by (simp add: last_n_def RECENT_MAX_def)
  with r d show ?thesis by (intro exI[of _ a] conjI)
qed

theorem tick_refines_witness:
  "\<exists>a'. tick test_pack mock_float mock_prom (agg_start test_pack) = Some a' \<and>
     tick (test_pack\<lparr>pk_window_min := -15\<rparr>) mock_float mock_prom (agg_start (test_pack\<lparr>pk_window_min := -15\<rparr>)) = None"
proof -
  let ?q = "test_pack\<lparr>pk_window_min := -15\<rparr>"
  have p: "ag_pending (agg_start test_pack) = []" "ag_pending (agg_start ?q) = []" by (simp_all add: agg_start_def)
  have "ring_cap ?q = -180" by (simp add: ring_cap_def test_pack_def wrap64_def signed_divide_int_def)
  moreover have "scraped ?q mock_float mock_prom 0 (pk_order ?q) \<noteq> []"
    by (simp add: test_pack_def prom_query_def mock_prom_def row_sample_def mock_float_def dget_def List.map_filter_def)
  ultimately have n: "tick ?q mock_float mock_prom (agg_start ?q) = None"
    using tick_refines[OF p(2), of ?q mock_float mock_prom] by (simp add: agg_start_def)
  show ?thesis using tick_refines[OF p(1), of test_pack mock_float mock_prom] n by (auto simp: agg_start_def test_cap)
qed

end
