(* ===== verification/Stamps.thy ===== *)
theory Stamps
  imports Pack
begin

text \<open>
  The time stamps between the aggregator and the engine.  The aggregator writes \<open>time.Now().UTC()\<close> as
  RFC 3339 with up to nine digits of a second (\<open>go_stamp\<close>, over nanoseconds since 1970); \<open>_epoch\<close> of
  \<open>correlation/service.py\<close> reads it with \<open>datetime.fromisoformat\<close> of Python 3.12, which keeps six digits.
  The formats of \<open>fromisoformat\<close> other than \<open>YYYY-MM-DDThh:mm:ss[.f]+00:00\<close> are the argument \<open>other\<close>.
\<close>

subsection \<open>The calendar\<close>

definition is_leap :: "nat \<Rightarrow> bool" where
  "is_leap y = (y mod 4 = 0 \<and> (y mod 100 \<noteq> 0 \<or> y mod 400 = 0))"

definition month_days :: "nat list" where
  "month_days = [31, 28, 31, 30, 31, 30, 31, 31, 30, 31, 30, 31]"

definition days_before :: "nat list" where
  "days_before = [0, 31, 59, 90, 120, 151, 181, 212, 243, 273, 304, 334, 365]"

text \<open>Of Python's \<open>datetime\<close>: \<open>_days_in_month\<close>, \<open>_days_before_year\<close>, \<open>_days_before_month\<close>, \<open>_ymd2ord\<close>.\<close>

definition days_in_month :: "nat \<Rightarrow> nat \<Rightarrow> nat" where
  "days_in_month y m = (if m = 2 \<and> is_leap y then 29 else month_days ! (m - 1))"

definition days_before_year :: "nat \<Rightarrow> nat" where
  "days_before_year y = (let z = y - 1 in z * 365 + z div 4 - z div 100 + z div 400)"

definition days_before_month :: "nat \<Rightarrow> nat \<Rightarrow> nat" where
  "days_before_month y m = days_before ! (m - 1) + (if m > 2 \<and> is_leap y then 1 else 0)"

definition ymd2ord :: "nat \<Rightarrow> nat \<Rightarrow> nat \<Rightarrow> nat" where
  "ymd2ord y m d = days_before_year y + days_before_month y m + d"

text \<open>
  Of Go's \<open>time\<close>: the year of a day counted from 1 January of the year 1, with the day of the year; and
  the month and the day of a day of the year.
\<close>

definition go_year :: "nat \<Rightarrow> nat \<times> nat" where
  "go_year d0 =
     (let n = d0 div 146097; y = 400 * n; d = d0 - 146097 * n;
          n = d div 36524; n = n - n div 4; y = y + 100 * n; d = d - 36524 * n;
          n = d div 1461; y = y + 4 * n; d = d - 1461 * n;
          n = d div 365; n = n - n div 4; y = y + n; d = d - 365 * n
      in (y + 1, d))"

definition go_month :: "bool \<Rightarrow> nat \<Rightarrow> nat \<times> nat" where
  "go_month leap day0 =
     (if leap \<and> day0 = 31 + 29 - 1 then (2, 29)
      else let day = (if leap \<and> day0 > 31 + 29 - 1 then day0 - 1 else day0);
               month = day div 31; until = days_before ! (month + 1)
           in if day \<ge> until then (month + 2, day - until + 1)
              else (month + 1, day - days_before ! month + 1))"

definition go_date :: "nat \<Rightarrow> nat \<times> nat \<times> nat" where
  "go_date d = (let (y, yd) = go_year d; (m, day) = go_month (is_leap y) yd in (y, m, day))"

subsection \<open>Writing and reading\<close>

fun pad :: "nat \<Rightarrow> nat \<Rightarrow> string" where
  "pad 0 n = []"
| "pad (Suc w) n = pad w (n div 10) @ [digit (n mod 10)]"

definition strip_zeros :: "string \<Rightarrow> string" where
  "strip_zeros s = trim_right (CHR ''0'') s"

definition go_frac :: "nat \<Rightarrow> string" where
  "go_frac ns = (if ns = 0 then [] else CHR ''.'' # strip_zeros (pad 9 ns))"

definition EPOCH_DAY :: nat where
  "EPOCH_DAY = 719162"

definition go_stamp :: "nat \<Rightarrow> string" where
  "go_stamp ns =
     (let secs = ns div 10 ^ 9; (y, m, d) = go_date (EPOCH_DAY + secs div 86400); t = secs mod 86400
      in pad 4 y @ ''-'' @ pad 2 m @ ''-'' @ pad 2 d @ ''T'' @ pad 2 (t div 3600) @ '':'' @
         pad 2 (t mod 3600 div 60) @ '':'' @ pad 2 (t mod 60) @ go_frac (ns mod 10 ^ 9) @ ''Z'')"

text \<open>The stamp of a pass: \<open>strftime("%Y-%m-%dT%H:%M:%SZ", gmtime())\<close> at a whole second since 1970.\<close>

definition pass_stamp :: "nat \<Rightarrow> string" where
  "pass_stamp secs =
     (let (y, m, d) = go_date (EPOCH_DAY + secs div 86400); t = secs mod 86400
      in pad 4 y @ ''-'' @ pad 2 m @ ''-'' @ pad 2 d @ ''T'' @ pad 2 (t div 3600) @ '':'' @
         pad 2 (t mod 3600 div 60) @ '':'' @ pad 2 (t mod 60) @ ''Z'')"

definition replace_z :: "string \<Rightarrow> string" where
  "replace_z s = concat (map (\<lambda>c. if c = CHR ''Z'' then ''+00:00'' else [c]) s)"

definition sub_str :: "nat \<Rightarrow> nat \<Rightarrow> string \<Rightarrow> string" where
  "sub_str i n s = take n (drop i s)"

definition frac_of :: "string \<Rightarrow> string" where
  "frac_of s = sub_str 20 (length s - 26) s"

text \<open>The format that the engine receives.\<close>

definition utc_shape :: "string \<Rightarrow> bool" where
  "utc_shape s \<longleftrightarrow> length s \<ge> 25 \<and> drop (length s - 6) s = ''+00:00'' \<and>
     list_all is_digit (take 4 s) \<and> s ! 4 = CHR ''-'' \<and> list_all is_digit (sub_str 5 2 s) \<and> s ! 7 = CHR ''-'' \<and>
     list_all is_digit (sub_str 8 2 s) \<and> s ! 10 = CHR ''T'' \<and> list_all is_digit (sub_str 11 2 s) \<and> s ! 13 = CHR '':'' \<and>
     list_all is_digit (sub_str 14 2 s) \<and> s ! 16 = CHR '':'' \<and> list_all is_digit (sub_str 17 2 s) \<and>
     (length s = 25 \<or> length s \<ge> 27 \<and> s ! 19 = CHR ''.'' \<and> list_all is_digit (frac_of s))"

definition micros :: "string \<Rightarrow> nat" where
  "micros f = num (take 6 f) * 10 ^ (6 - length (take 6 f))"

text \<open>\<open>datetime.fromisoformat(...).timestamp()\<close> on that format, \<open>None\<close> for a \<open>ValueError\<close>.\<close>

definition iso_time :: "string \<Rightarrow> real option" where
  "iso_time s =
     (let y = num (take 4 s); m = num (sub_str 5 2 s); d = num (sub_str 8 2 s);
          h = num (sub_str 11 2 s); mi = num (sub_str 14 2 s); sec = num (sub_str 17 2 s)
      in if y < 1 \<or> m < 1 \<or> 12 < m \<or> d < 1 \<or> days_in_month y m < d \<or> 23 < h \<or> 59 < mi \<or> 59 < sec then None
         else Some ((real (ymd2ord y m d) - real (EPOCH_DAY + 1)) * 86400 + real (h * 3600 + mi * 60 + sec) +
           real (micros (frac_of s)) / 10 ^ 6))"

definition epoch_of :: "(string \<Rightarrow> real option) \<Rightarrow> string option \<Rightarrow> real option" where
  "epoch_of other ts = (case ts of None \<Rightarrow> None
     | Some t \<Rightarrow> let s = replace_z t in if utc_shape s then iso_time s else other s)"

subsection \<open>The two calendars agree\<close>

lemma div_rest: "0 < k \<Longrightarrow> d = k * (d div k) + (d - k * (d div k)) \<and> d - k * (d div k) < (k::nat)"
  by (simp add: minus_mult_div_eq_mod)

text \<open>The step \<open>n -= n >> 2\<close>: the last day of a leap period stays in its last part.\<close>

lemma div_rest4:
  fixes d k :: nat
  defines "q \<equiv> d div k - d div k div 4"
  assumes "0 < k" "d < 5 * k"
  shows "q \<le> 3" "d = k * q + (d - k * q)" "d - k * q < k \<or> q = 3 \<and> 4 * k \<le> d"
proof -
  have n: "d div k < 5" using assms(2,3) by (simp add: less_mult_imp_div_less)
  have "q \<le> 3 \<and> d = k * q + (d - k * q) \<and> (d - k * q < k \<or> q = 3 \<and> 4 * k \<le> d)"
  proof (cases "d div k = 4")
    case True
    then have "4 * k \<le> d" using div_times_less_eq_dividend[of d k] by simp
    then show ?thesis using True by (simp add: q_def)
  next
    case False
    then have "q = d div k" using n by (simp add: q_def)
    then show ?thesis using div_rest[OF assms(2), of d] n False by simp
  qed
  then show "q \<le> 3" "d = k * q + (d - k * q)" "d - k * q < k \<or> q = 3 \<and> 4 * k \<le> d" by blast+
qed

lemma go_year_parts:
  obtains a b c e r where "go_year d = (400 * a + 100 * b + 4 * c + e + 1, r)" "b \<le> 3" "c \<le> 24" "e \<le> 3"
    "d = 146097 * a + 36524 * b + 1461 * c + 365 * e + r"
    "r < (if e = 3 \<and> (c \<noteq> 24 \<or> b = 3) then 366 else 365)"
proof -
  define a where "a = d div 146097"
  define d1 where "d1 = d - 146097 * a"
  define b where "b = d1 div 36524 - d1 div 36524 div 4"
  define d2 where "d2 = d1 - 36524 * b"
  define c where "c = d2 div 1461"
  define d3 where "d3 = d2 - 1461 * c"
  define e where "e = d3 div 365 - d3 div 365 div 4"
  define r where "r = d3 - 365 * e"
  have a: "d = 146097 * a + d1" "d1 < 146097" using div_rest[of 146097 d] by (simp_all add: a_def d1_def)
  have b: "b \<le> 3" "d1 = 36524 * b + d2" "d2 < 36524 \<or> b = 3 \<and> d2 = 36524"
    using div_rest4[of 36524 d1] a(2) by (auto simp: b_def[symmetric] d2_def)
  have c: "d2 = 1461 * c + d3" "d3 < 1461" using div_rest[of 1461 d2] by (simp_all add: c_def d3_def)
  have e: "e \<le> 3" "d3 = 365 * e + r" "r < 365 \<or> e = 3 \<and> r = 365"
    using div_rest4[of 365 d3] c(2) by (auto simp: e_def[symmetric] r_def)
  have c24: "c \<le> 24" using b(3) c(1) by linarith
  have "go_year d = (400 * a + 100 * b + 4 * c + e + 1, r)"
    by (simp only: go_year_def Let_def a_def[symmetric] d1_def[symmetric] b_def[symmetric] d2_def[symmetric]
        c_def[symmetric] d3_def[symmetric] e_def[symmetric] r_def[symmetric])
  moreover have "r < (if e = 3 \<and> (c \<noteq> 24 \<or> b = 3) then 366 else 365)"
    using b c e c24 by (auto split: if_splits)
  ultimately show ?thesis using that a b c e c24 by simp
qed

lemma go_year_sound:
  assumes "go_year d = (y, r)"
  shows "1 \<le> y" "days_before_year y + r = d" "r < (if is_leap y then 366 else 365)"
proof -
  obtain a b c e r' where g: "go_year d = (400 * a + 100 * b + 4 * c + e + 1, r')" "b \<le> 3" "c \<le> 24" "e \<le> 3"
    "d = 146097 * a + 36524 * b + 1461 * c + 365 * e + r'"
    "r' < (if e = 3 \<and> (c \<noteq> 24 \<or> b = 3) then 366 else 365)"
    using go_year_parts by blast
  define z where "z = 400 * a + 100 * b + 4 * c + e"
  have y: "y = z + 1" "r = r'" using g(1) assms by (simp_all add: z_def)
  have q: "z div 4 = 100 * a + 25 * b + c" "z div 100 = 4 * a + b" "z div 400 = a"
  proof -
    have "z = e + (100 * a + 25 * b + c) * 4" "z = (4 * c + e) + (4 * a + b) * 100" "z = (100 * b + 4 * c + e) + a * 400"
      by (simp_all add: z_def)
    then have "z div 4 = 100 * a + 25 * b + c + e div 4" "z div 100 = 4 * a + b + (4 * c + e) div 100"
      "z div 400 = a + (100 * b + 4 * c + e) div 400" by (metis div_mult_self1 zero_neq_numeral)+
    then show "z div 4 = 100 * a + 25 * b + c" "z div 100 = 4 * a + b" "z div 400 = a" using g(2-4) by simp_all
  qed
  show "1 \<le> y" using y by simp
  show "days_before_year y + r = d" using q g(5) y by (simp add: days_before_year_def z_def)
  have "z + 1 = (e + 1) + (100 * a + 25 * b + c) * 4" "z + 1 = (4 * c + e + 1) + (4 * a + b) * 100"
    "z + 1 = (100 * b + 4 * c + e + 1) + a * 400" by (simp_all add: z_def)
  then have m: "(z + 1) mod 4 = (e + 1) mod 4" "(z + 1) mod 100 = (4 * c + e + 1) mod 100"
    "(z + 1) mod 400 = (100 * b + 4 * c + e + 1) mod 400" by (metis mod_mult_self1)+
  have top: "(k + 1) mod n = 0 \<longleftrightarrow> k + 1 = n" if "k < n" for k n :: nat
    using that by (cases "k + 1 = n") (auto simp: Suc_lessI)
  have "(z + 1) mod 4 = 0 \<longleftrightarrow> e = 3" unfolding m using top[of e 4] g(4) by linarith
  moreover have "(z + 1) mod 100 = 0 \<longleftrightarrow> c = 24 \<and> e = 3" unfolding m using top[of "4 * c + e" 100] g(3,4) by linarith
  moreover have "(z + 1) mod 400 = 0 \<longleftrightarrow> b = 3 \<and> c = 24 \<and> e = 3"
    unfolding m using top[of "100 * b + 4 * c + e" 400] g(2-4) by linarith
  ultimately have "is_leap y \<longleftrightarrow> e = 3 \<and> (c \<noteq> 24 \<or> b = 3)" using y by (auto simp: is_leap_def)
  then show "r < (if is_leap y then 366 else 365)" using g(6) y by simp
qed

text \<open>The month of a day of an ordinary year is \<open>day / 31\<close> or the one after it.\<close>

lemma month_split:
  assumes "day < 365"
  defines "q \<equiv> day div 31"
  defines "md \<equiv> (if days_before ! (q + 1) \<le> day then (q + 2, day - days_before ! (q + 1) + 1) else (q + 1, day - days_before ! q + 1))"
  shows "1 \<le> fst md \<and> fst md \<le> 12 \<and> 1 \<le> snd md \<and> snd md \<le> month_days ! (fst md - 1) \<and>
    days_before ! (fst md - 1) + snd md = day + 1"
proof -
  have d: "day = 31 * q + (day - 31 * q)" "day - 31 * q < 31" using div_rest[of 31 day] by (simp_all add: q_def)
  then obtain s where s: "day = 31 * q + s" "s < 31" by blast
  have "q < 12" using assms(1) by (simp add: q_def less_mult_imp_div_less)
  then have "q = 0 \<or> q = 1 \<or> q = 2 \<or> q = 3 \<or> q = 4 \<or> q = 5 \<or> q = 6 \<or> q = 7 \<or> q = 8 \<or> q = 9 \<or> q = 10 \<or> q = 11"
    by arith
  then show ?thesis using s assms(1) unfolding md_def
    by (elim disjE) (auto simp: days_before_def month_days_def)
qed

lemma after_february: "1 \<le> m \<Longrightarrow> m \<le> 12 \<Longrightarrow> days_before ! (m - 1) + month_days ! (m - 1) \<le> 59 \<longleftrightarrow> m \<le> 2"
  "1 \<le> m \<Longrightarrow> m \<le> 12 \<Longrightarrow> 59 \<le> days_before ! (m - 1) \<longleftrightarrow> 2 < m"
proof -
  assume "1 \<le> m" "m \<le> 12"
  then have m: "m = 1 \<or> m = 2 \<or> m = 3 \<or> m = 4 \<or> m = 5 \<or> m = 6 \<or> m = 7 \<or> m = 8 \<or> m = 9 \<or> m = 10 \<or> m = 11 \<or> m = 12" by arith
  show "days_before ! (m - 1) + month_days ! (m - 1) \<le> 59 \<longleftrightarrow> m \<le> 2"
    using m by (elim disjE) (simp_all add: days_before_def month_days_def)
  show "59 \<le> days_before ! (m - 1) \<longleftrightarrow> 2 < m"
    using m by (elim disjE) (simp_all add: days_before_def month_days_def)
qed

lemma go_month_sound:
  assumes "go_month (is_leap y) r = (m, d)" "r < (if is_leap y then 366 else 365)"
  shows "1 \<le> m \<and> m \<le> 12 \<and> 1 \<le> d \<and> d \<le> days_in_month y m \<and> days_before_month y m + d = r + 1"
proof (cases "is_leap y \<and> r = 31 + 29 - 1")
  case True
  then show ?thesis using assms(1) by (simp add: go_month_def days_in_month_def days_before_month_def days_before_def)
next
  case False
  define day where "day = (if is_leap y \<and> r > 31 + 29 - 1 then r - 1 else r)"
  have lt: "day < 365" using assms(2) False by (auto simp: day_def split: if_splits)
  have md: "(m, d) = (if days_before ! (day div 31 + 1) \<le> day then (day div 31 + 2, day - days_before ! (day div 31 + 1) + 1)
      else (day div 31 + 1, day - days_before ! (day div 31) + 1))"
    using assms(1) False unfolding go_month_def Let_def day_def[symmetric] by (simp only: if_False)
  have k: "1 \<le> m" "m \<le> 12" "1 \<le> d" "d \<le> month_days ! (m - 1)" "days_before ! (m - 1) + d = day + 1"
    using month_split[OF lt] unfolding md[symmetric] by simp_all
  have dim: "month_days ! (m - 1) \<le> days_in_month y m" by (simp add: days_in_month_def month_days_def)
  have "days_before_month y m + d = r + 1"
  proof (cases "is_leap y")
    case leap: True
    then have "2 < m \<longleftrightarrow> 59 < r" using after_february[OF k(1,2)] k(3-5) False by (auto simp: day_def split: if_splits)
    then show ?thesis using leap k(5) by (auto simp: days_before_month_def day_def)
  qed (use k(5) in \<open>simp add: days_before_month_def day_def\<close>)
  then show ?thesis using k dim by simp
qed

lemma go_date_sound:
  assumes "go_date n = (y, m, d)"
  shows "1 \<le> y" "1 \<le> m" "m \<le> 12" "1 \<le> d" "d \<le> days_in_month y m" "ymd2ord y m d = n + 1"
proof -
  obtain yd where y: "go_year n = (y, yd)" "go_month (is_leap y) yd = (m, d)"
    using assms by (auto simp: go_date_def Let_def split: prod.splits)
  note ys = go_year_sound[OF y(1)] and ms = go_month_sound[OF y(2)]
  show "1 \<le> y" "1 \<le> m" "m \<le> 12" "1 \<le> d" "d \<le> days_in_month y m" "ymd2ord y m d = n + 1"
    using ys ms[OF ys(3)] by (simp_all add: ymd2ord_def)
qed

text \<open>The years that are written with four digits.\<close>

lemma go_date_year:
  assumes "go_date n = (y, m, d)" "n < 3652059"
  shows "y \<le> 9999"
proof (rule ccontr)
  assume big: "\<not> y \<le> 9999"
  obtain yd where yd: "go_year n = (y, yd)" using assms(1) by (auto simp: go_date_def Let_def split: prod.splits)
  show False
  proof (rule go_year_parts[of n])
    fix a b c e r
    assume g: "go_year n = (400 * a + 100 * b + 4 * c + e + 1, r)" "b \<le> 3" "c \<le> 24" "e \<le> 3"
      "n = 146097 * a + 36524 * b + 1461 * c + 365 * e + r"
    then have "y = 400 * a + 100 * b + 4 * c + e + 1" using yd by simp
    then show False using big g(2-5) assms(2) by (cases "a \<le> 24") linarith+
  qed
qed

subsection \<open>Fixed width numbers\<close>

lemma length_pad [simp]: "length (pad w n) = w"
  by (induction w arbitrary: n) auto

lemma list_all_pad [simp]: "list_all is_digit (pad w n)"
  by (induction w arbitrary: n) auto

lemma num_pad: "num (pad w n) = n mod 10 ^ w"
proof (induction w arbitrary: n)
  case (Suc w)
  have "n mod 10 ^ Suc w = 10 * (n div 10 mod 10 ^ w) + n mod 10" by (simp add: mod_mult2_eq)
  then show ?case by (simp add: num_snoc Suc of_digit)
qed (simp add: num_def)

lemma num_pad_less: "n < 10 ^ w \<Longrightarrow> num (pad w n) = n"
  by (simp add: num_pad)

lemma take_pad: "k \<le> w \<Longrightarrow> take k (pad w n) = pad k (n div 10 ^ (w - k))"
proof (induction w arbitrary: n)
  case (Suc w)
  show ?case
  proof (cases "k = Suc w")
    case False
    then have "k \<le> w" using Suc.prems by simp
    then show ?thesis using Suc.IH[of "n div 10"] by (simp add: Suc_diff_le div_mult2_eq)
  qed simp
qed simp

lemma no_z_digit: "is_digit c \<Longrightarrow> c \<noteq> CHR ''Z'' \<and> c \<noteq> CHR ''.''"
  by (auto simp: is_digit_def)

lemma replace_z_digits: "list_all is_digit s \<Longrightarrow> replace_z s = s"
  by (induction s) (auto simp: replace_z_def no_z_digit)

lemma replace_z_append [simp]: "replace_z (s @ t) = replace_z s @ replace_z t"
  by (simp add: replace_z_def)

lemma replace_z_pad [simp]: "replace_z (pad w n) = pad w n"
  by (rule replace_z_digits) simp

subsection \<open>The fraction\<close>

lemma strip_zeros_split: "\<exists>k. s = strip_zeros s @ replicate k (CHR ''0'')"
proof -
  have "rev s = takeWhile (\<lambda>x. x = CHR ''0'') (rev s) @ dropWhile (\<lambda>x. x = CHR ''0'') (rev s)" by simp
  moreover have "takeWhile (\<lambda>x. x = CHR ''0'') t = replicate (length (takeWhile (\<lambda>x. x = CHR ''0'') t)) (CHR ''0'')" for t :: string
    by (intro replicate_eqI) (auto dest: set_takeWhileD)
  ultimately show ?thesis unfolding strip_zeros_def trim_right_def by (metis rev_append rev_replicate rev_rev_ident)
qed

lemma num_zeros: "num (s @ replicate k (CHR ''0'')) = num s * 10 ^ k"
  by (induction k arbitrary: s) (simp_all add: replicate_append_same[symmetric] num_snoc append_assoc[symmetric] del: append_assoc)

lemma micros_stripped:
  assumes "length x = 9"
  shows "micros (strip_zeros x) = num (take 6 x)"
proof -
  obtain k where k: "x = strip_zeros x @ replicate k (CHR ''0'')" using strip_zeros_split by blast
  let ?f = "strip_zeros x"
  have l: "length ?f + k = 9" using assms k by (metis length_append length_replicate)
  have "take 6 x = take 6 (?f @ replicate k (CHR ''0''))" using k by simp
  also have "\<dots> = take 6 ?f @ replicate (6 - length (take 6 ?f)) (CHR ''0'')"
    using l by (auto simp: take_replicate min_def)
  finally show ?thesis by (simp add: micros_def num_zeros)
qed

lemma micros_go_frac: "n < 10 ^ 9 \<Longrightarrow> micros (tl (go_frac n)) = n div 1000"
proof -
  assume n: "n < 10 ^ 9"
  have "num (take 6 (pad 9 n)) = n div 1000" using n by (simp add: take_pad num_pad)
  then show ?thesis by (cases "n = 0") (simp_all add: go_frac_def micros_stripped, simp add: micros_def num_def)
qed

lemma go_frac_shape:
  "go_frac n = [] \<or> (\<exists>f. go_frac n = CHR ''.'' # f \<and> f \<noteq> [] \<and> list_all is_digit f)" if "n < 10 ^ 9"
proof (cases "n = 0")
  case False
  obtain k where k: "pad 9 n = strip_zeros (pad 9 n) @ replicate k (CHR ''0'')" using strip_zeros_split by blast
  have "list_all is_digit (strip_zeros (pad 9 n))" using k list_all_pad[of 9 n] by (metis list_all_append)
  moreover have "strip_zeros (pad 9 n) \<noteq> []"
  proof
    assume "strip_zeros (pad 9 n) = []"
    then have "num (pad 9 n) = 0" using k num_zeros[of "[]" k] by (simp add: num_def)
    then show False using False that by (simp add: num_pad)
  qed
  ultimately show ?thesis by (simp add: go_frac_def)
qed (simp add: go_frac_def)

subsection \<open>The text of a stamp\<close>

definition stamp_text :: "nat \<Rightarrow> nat \<Rightarrow> nat \<Rightarrow> nat \<Rightarrow> nat \<Rightarrow> nat \<Rightarrow> string \<Rightarrow> string" where
  "stamp_text y m d h mi sec r = pad 4 y @ CHR ''-'' # pad 2 m @ CHR ''-'' # pad 2 d @ CHR ''T'' # pad 2 h @
     CHR '':'' # pad 2 mi @ CHR '':'' # pad 2 sec @ r"

lemma stamp_fields:
  "take 4 (stamp_text y m d h mi sec r) = pad 4 y" "sub_str 5 2 (stamp_text y m d h mi sec r) = pad 2 m"
  "sub_str 8 2 (stamp_text y m d h mi sec r) = pad 2 d" "sub_str 11 2 (stamp_text y m d h mi sec r) = pad 2 h"
  "sub_str 14 2 (stamp_text y m d h mi sec r) = pad 2 mi" "sub_str 17 2 (stamp_text y m d h mi sec r) = pad 2 sec"
  "stamp_text y m d h mi sec r ! 4 = CHR ''-''" "stamp_text y m d h mi sec r ! 7 = CHR ''-''"
  "stamp_text y m d h mi sec r ! 10 = CHR ''T''" "stamp_text y m d h mi sec r ! 13 = CHR '':''"
  "stamp_text y m d h mi sec r ! 16 = CHR '':''" "length (stamp_text y m d h mi sec r) = 19 + length r"
  "drop 19 (stamp_text y m d h mi sec r) = r"
  by (simp_all add: stamp_text_def sub_str_def nth_append)

lemma utc_shape_stamp:
  assumes "r = [] \<or> (\<exists>f. r = CHR ''.'' # f \<and> f \<noteq> [] \<and> list_all is_digit f)"
    and s_def: "s = stamp_text y m d h mi sec (r @ ''+00:00'')"
  shows "utc_shape s" "frac_of s = tl r"
proof -
  have l: "length s = 25 + length r" unfolding s_def by (simp add: stamp_fields)
  have "drop (length s - 6) s = drop (length r) (drop 19 s)" by (simp add: l add.commute)
  then have off: "drop (length s - 6) s = ''+00:00''" by (simp add: s_def stamp_fields)
  have d20: "drop 20 s = tl (r @ ''+00:00'')"
  proof -
    have "drop 20 s = drop 1 (drop 19 s)" unfolding drop_drop by simp
    also have "\<dots> = tl (drop 19 s)" by (simp only: One_nat_def drop_Suc drop_0)
    finally show ?thesis by (simp only: s_def stamp_fields)
  qed
  show f: "frac_of s = tl r" unfolding frac_of_def sub_str_def d20 l using assms(1) by auto
  have "s ! 19 = hd (drop 19 s)" by (rule hd_drop_conv_nth[symmetric]) (simp add: l)
  then have dot: "s ! 19 = CHR ''.''" if "r \<noteq> []" using that assms(1) by (auto simp: s_def stamp_fields)
  show "utc_shape s" using assms(1) dot f off l unfolding utc_shape_def
    by (auto simp: s_def stamp_fields Suc_le_eq)
qed

lemma go_stamp_text:
  assumes "go_date (EPOCH_DAY + ns div 10 ^ 9 div 86400) = (y, m, d)"
  shows "replace_z (go_stamp ns) = stamp_text y m d (ns div 10 ^ 9 mod 86400 div 3600)
    (ns div 10 ^ 9 mod 86400 mod 3600 div 60) (ns div 10 ^ 9 mod 86400 mod 60) (go_frac (ns mod 10 ^ 9) @ ''+00:00'')"
proof -
  have lit: "replace_z ''-'' = ''-''" "replace_z ''T'' = ''T''" "replace_z '':'' = '':''" "replace_z ''Z'' = ''+00:00''"
    by (simp_all add: replace_z_def)
  have fr: "replace_z (go_frac (ns mod 10 ^ 9)) = go_frac (ns mod 10 ^ 9)"
  proof -
    have "replace_z (c # f) = c # replace_z f" if "c \<noteq> CHR ''Z''" for c f using that by (simp add: replace_z_def)
    then show ?thesis using go_frac_shape[of "ns mod 10 ^ 9"] replace_z_digits by (auto simp: replace_z_def)
  qed
  show ?thesis unfolding go_stamp_def Let_def assms prod.case replace_z_append replace_z_pad lit fr stamp_text_def by simp
qed

lemma days_in_month_31: "1 \<le> m \<Longrightarrow> m \<le> 12 \<Longrightarrow> days_in_month y m \<le> 31"
proof -
  assume "1 \<le> m" "m \<le> 12"
  then have "m = 1 \<or> m = 2 \<or> m = 3 \<or> m = 4 \<or> m = 5 \<or> m = 6 \<or> m = 7 \<or> m = 8 \<or> m = 9 \<or> m = 10 \<or> m = 11 \<or> m = 12" by arith
  then show ?thesis by (elim disjE) (simp_all add: days_in_month_def month_days_def)
qed

lemma hms: "(t div 3600) * 3600 + (t mod 3600 div 60) * 60 + t mod 60 = (t::nat)"
proof -
  have "t mod 60 = t mod 3600 mod 60" by (simp add: mod_mod_cancel)
  then have "(t mod 3600 div 60) * 60 + t mod 60 = t mod 3600" using div_mult_mod_eq[of "t mod 3600" 60] by simp
  then show ?thesis using div_mult_mod_eq[of t 3600] by linarith
qed

lemma stamp_read_back:
  assumes "ns < 253402300800 * 10 ^ 9"
  shows "utc_shape (replace_z (go_stamp ns)) \<and> epoch_of other (Some (go_stamp ns)) = Some (real (ns div 1000) / 10 ^ 6)"
proof -
  define secs where "secs = ns div 10 ^ 9"
  define t where "t = secs mod 86400"
  obtain y m d where date: "go_date (EPOCH_DAY + secs div 86400) = (y, m, d)" by (metis prod_cases3)
  note ds = go_date_sound[OF date]
  have "secs < 253402300800" using assms by (simp add: secs_def less_mult_imp_div_less)
  then have "EPOCH_DAY + secs div 86400 < 3652059" by (simp add: EPOCH_DAY_def less_mult_imp_div_less)
  then have "y \<le> 9999" using go_date_year[OF date] by simp
  moreover have "d \<le> 31" by (rule le_trans[OF ds(5) days_in_month_31[OF ds(2,3)]])
  ultimately have small: "y < 10 ^ 4" "m < 10 ^ 2" "d < 10 ^ 2" using ds(3) by simp_all
  have tt: "t div 3600 \<le> 23" "t mod 3600 div 60 \<le> 59" "t mod 60 \<le> 59"
    using less_mult_imp_div_less[of t 24 3600] less_mult_imp_div_less[of "t mod 3600" 60 60] by (simp_all add: t_def)
  have tx: "replace_z (go_stamp ns) = stamp_text y m d (t div 3600) (t mod 3600 div 60) (t mod 60) (go_frac (ns mod 10 ^ 9) @ ''+00:00'')"
    using go_stamp_text[of ns] date by (simp add: secs_def t_def)
  have fr: "go_frac (ns mod 10 ^ 9) = [] \<or> (\<exists>f. go_frac (ns mod 10 ^ 9) = CHR ''.'' # f \<and> f \<noteq> [] \<and> list_all is_digit f)"
    by (rule go_frac_shape) simp
  note shape = utc_shape_stamp[OF fr tx]
  have mic: "micros (frac_of (replace_z (go_stamp ns))) = ns mod 10 ^ 9 div 1000"
    unfolding shape(2) by (rule micros_go_frac) simp
  have nums: "num (pad 4 y) = y" "num (pad 2 m) = m" "num (pad 2 d) = d" "num (pad 2 (t div 3600)) = t div 3600"
    "num (pad 2 (t mod 3600 div 60)) = t mod 3600 div 60" "num (pad 2 (t mod 60)) = t mod 60"
    using small tt by (simp_all add: num_pad_less)
  have "real (ymd2ord y m d) - real (EPOCH_DAY + 1) = real (secs div 86400)" unfolding ds(6) by simp
  moreover have "real (secs div 86400) * 86400 + real t = real secs"
    unfolding t_def by (metis (no_types) div_mult_mod_eq of_nat_add of_nat_mult of_nat_numeral)
  moreover have "real secs + real (ns mod 10 ^ 9 div 1000) / 10 ^ 6 = real (ns div 1000) / 10 ^ 6"
  proof -
    have "ns = ns mod 10 ^ 9 + (secs * 10 ^ 6) * 1000"
      using div_mult_mod_eq[of ns "10 ^ 9"] by (simp add: secs_def)
    then have "ns div 1000 = (ns mod 10 ^ 9 + (secs * 10 ^ 6) * 1000) div 1000" by (rule arg_cong)
    also have "\<dots> = secs * 10 ^ 6 + ns mod 10 ^ 9 div 1000" by (rule div_mult_self1) simp
    finally show ?thesis by simp
  qed
  ultimately have "iso_time (replace_z (go_stamp ns)) = Some (real (ns div 1000) / 10 ^ 6)"
    unfolding iso_time_def Let_def mic unfolding tx stamp_fields nums hms[of t] using ds tt by simp
  then show ?thesis using shape(1) by (simp add: epoch_of_def)
qed

lemma epoch_of_stamp:
  "ns < 253402300800 * 10 ^ 9 \<Longrightarrow> epoch_of other (Some (go_stamp ns)) = Some (real (ns div 1000) / 10 ^ 6)"
  using stamp_read_back by blast

lemma pass_stamp_go: "pass_stamp secs = go_stamp (secs * 10 ^ 9)"
  by (simp add: pass_stamp_def go_stamp_def go_frac_def Let_def)

lemma epoch_of_pass_stamp:
  assumes "secs < 253402300800"
  shows "epoch_of other (Some (pass_stamp secs)) = Some (real secs)"
proof -
  have "secs * 10 ^ 9 div 1000 = secs * 10 ^ 6" by simp
  then show ?thesis using epoch_of_stamp[of "secs * 10 ^ 9" other] assms by (simp add: pass_stamp_go)
qed

subsection \<open>Properties\<close>

text \<open>
  C7. The engine reads the stamps that the aggregator writes: for every instant from 1970 to the end of
  the year 9999, to the nanosecond, the text of \<open>time.Time\<close> is of the format of \<open>fromisoformat\<close>, names an
  existing day of the Gregorian calendar, and \<open>_epoch\<close> gives back the instant, truncated to microseconds,
  whatever it does with texts of other formats.  The stamp that the engine puts on its own pass reads back as
  the whole second.
\<close>

theorem stamps_agree:
  assumes "ns < 253402300800 * 10 ^ 9"
  shows "utc_shape (replace_z (go_stamp ns)) \<and> epoch_of other (Some (go_stamp ns)) = Some (real (ns div 1000) / 10 ^ 6) \<and>
    epoch_of other (Some (pass_stamp (ns div 10 ^ 9))) = Some (real (ns div 10 ^ 9))"
proof -
  have "ns div 10 ^ 9 < 253402300800" using assms by (simp add: less_mult_imp_div_less)
  then show ?thesis using stamp_read_back[OF assms] epoch_of_pass_stamp by blast
qed

lemma pad_numeral: "pad (numeral k) n = pad (pred_numeral k) (n div 10) @ [digit (n mod 10)]"
  by (subst numeral_eq_Suc) simp

lemma go_date_example: "go_date 739097 = (2024, 7, 31)"
proof -
  have "(739097::nat) div 146097 = 5" "(739097::nat) - 146097 * 5 = 8612" "(8612::nat) div 36524 = 0" "(8612::nat) div 1461 = 5"
    "(8612::nat) - 1461 * 5 = 1307" "(1307::nat) div 365 = 3" "(1307::nat) - 365 * 3 = 212" by simp_all
  then have "go_year 739097 = (2024, 212)" unfolding go_year_def Let_def by simp
  moreover have "go_month True 212 = (7, 31)" by (simp add: go_month_def days_before_def Let_def)
  moreover have "is_leap 2024" by (simp add: is_leap_def)
  ultimately show ?thesis by (simp add: go_date_def)
qed

lemma go_frac_example: "go_frac 120000500 = ''.1200005''"
  by (simp add: go_frac_def strip_zeros_def trim_right_def pad_numeral digit_simps digit_simps(2)[unfolded One_nat_def])

lemma go_stamp_example: "go_stamp 1722470399120000500 = ''2024-07-31T23:59:59.1200005Z''"
proof -
  have n: "(1722470399120000500::nat) div 10 ^ 9 = 1722470399" "(1722470399120000500::nat) mod 10 ^ 9 = 120000500"
    "(1722470399::nat) div 86400 = 19935" "(1722470399::nat) mod 86400 = 86399"
    "EPOCH_DAY + 19935 = 739097" by (simp_all add: EPOCH_DAY_def)
  show ?thesis unfolding go_stamp_def Let_def n go_date_example go_frac_example prod.case
    by (simp add: pad_numeral digit_simps digit_simps(2)[unfolded One_nat_def])
qed

theorem stamps_agree_witness:
  "epoch_of (\<lambda>_. None) (Some ''2024-07-31T23:59:59.1200005Z'') = Some (1722470399120000 / 10 ^ 6)"
  using stamps_agree[of 1722470399120000500 "\<lambda>_. None"] unfolding go_stamp_example by simp

end
