(* ===== verification/Feed.thy ===== *)
theory Feed
  imports Aggregator Stamps
begin

text \<open>
  What the engine reads of the aggregator: the composition of the ring, its document and the first half of
  \<open>build_inputs\<close> of \<open>correlation/service.py\<close>.  The points of a pod are the last samples of one of its series.
\<close>

subsection \<open>Which series of a pod counts\<close>

text \<open>The entries of a document that count for a pod; the keys of the document rise, so the greatest one counts.\<close>

definition pod_entry :: "(string option \<Rightarrow> real option) \<Rightarrow> string \<Rightarrow> pod \<Rightarrow> string \<times> sample list \<Rightarrow> bool" where
  "pod_entry epoch sg pd ks \<longleftrightarrow> (let parts = split_on slash (fst ks) in
     3 \<le> length parts \<and> last parts = sg \<and> parts ! 1 = pd \<and> 12 \<le> length (read_points epoch (snd ks)))"

lemma kept_series_Cons:
  assumes "sg \<in> sgs"
  shows "points_in sg (kept_series sgs epoch (ks # w)) pd = (case points_in sg (kept_series sgs epoch w) pd of
    Some pts \<Rightarrow> Some pts | None \<Rightarrow> if pod_entry epoch sg pd ks then Some (read_points epoch (snd ks)) else None)"
  using assms by (cases ks) (auto simp: kept_series_def pod_entry_def Let_def List.map_filter_simps points_in_simps split: option.split)

lemma points_in_greatest:
  assumes "sg \<in> sgs" "sorted_wrt (<) (map fst w)"
  shows "case points_in sg (kept_series sgs epoch w) pd of None \<Rightarrow> \<forall>x \<in> set w. \<not> pod_entry epoch sg pd x
    | Some pts \<Rightarrow> \<exists>x \<in> set w. pod_entry epoch sg pd x \<and> pts = read_points epoch (snd x) \<and>
        (\<forall>y \<in> set w. pod_entry epoch sg pd y \<longrightarrow> fst y \<le> fst x)"
  using assms(2)
proof (induction w)
  case Nil
  then show ?case by (simp add: kept_series_def List.map_filter_simps points_in_simps)
next
  case (Cons ks w)
  have up: "fst ks \<le> fst y" if "y \<in> set w" for y using Cons.prems that by auto
  show ?case
  proof (cases "points_in sg (kept_series sgs epoch w) pd")
    case None
    then show ?thesis using Cons by (auto simp: kept_series_Cons[OF assms(1)])
  next
    case (Some pts)
    then obtain x where "x \<in> set w" "pod_entry epoch sg pd x" "pts = read_points epoch (snd x)"
      "\<forall>y \<in> set w. pod_entry epoch sg pd y \<longrightarrow> fst y \<le> fst x" using Cons by auto
    then show ?thesis using up by (simp add: kept_series_Cons[OF assms(1)] Some) (intro disjI2 bexI[of _ x], auto)
  qed
qed

lemma window_doc_rising: "distinct (map fst (rg_data r)) \<Longrightarrow> sorted_wrt (<) (map fst (window_doc fmt r))"
proof -
  assume d: "distinct (map fst (rg_data r))"
  let ?w = "map (\<lambda>(k, ss). (k, map (\<lambda>s. \<lparr>smp_ts = Some (fmt (gs_ts s)), smp_value = Some (gs_value s)\<rparr>) ss)) (rg_data r)"
  have "map fst ?w = map fst (rg_data r)" by (simp add: split_beta)
  then have "distinct (map fst (sort_key fst ?w))" using d by (simp only: distinct_sort_key_fst)
  then show ?thesis unfolding window_doc_def strict_sorted_iff by simp
qed

subsection \<open>The points of a series\<close>

definition point_of :: "(real \<Rightarrow> real) \<Rightarrow> gsample \<Rightarrow> real \<times> real" where
  "point_of rd s = (rd (gs_ts s), gs_value s)"

definition json_sample :: "(real \<Rightarrow> string) \<Rightarrow> gsample \<Rightarrow> sample" where
  "json_sample fmt s = \<lparr>smp_ts = Some (fmt (gs_ts s)), smp_value = Some (gs_value s)\<rparr>"

lemma read_points_ring:
  assumes "\<And>s. s \<in> set ss \<Longrightarrow> epoch (Some (fmt (gs_ts s))) = Some (rd (gs_ts s))"
  shows "read_points epoch (map (json_sample fmt) ss) = sort (map (point_of rd) ss)"
proof -
  have "List.map_filter (\<lambda>s. map_option (\<lambda>t. (t, the (smp_value s))) (epoch (smp_ts s))) (map (json_sample fmt) ss) = map (point_of rd) ss"
    using assms by (induction ss) (simp_all add: List.map_filter_simps json_sample_def point_of_def)
  then show ?thesis by (simp add: read_points_def)
qed

text \<open>The stamps of one series increase, as the reader sees them.\<close>

definition in_time :: "(real \<Rightarrow> real) \<Rightarrow> gsample list \<Rightarrow> bool" where
  "in_time rd ss \<longleftrightarrow> sorted_wrt (\<lambda>a b. rd (gs_ts a) < rd (gs_ts b)) ss"

lemma sort_in_time: "in_time rd ss \<Longrightarrow> sort (map (point_of rd) ss) = map (point_of rd) ss"
proof -
  assume "in_time rd ss"
  then have "sorted_wrt (\<le>) (map (point_of rd) ss)" unfolding sorted_wrt_map in_time_def
    by (rule sorted_wrt_mono_rel[rotated]) (auto simp: point_of_def)
  then show ?thesis by (simp add: sorted_sort_id)
qed

definition no_slash :: "gsample \<Rightarrow> bool" where
  "no_slash s \<longleftrightarrow> slash \<notin> set (gs_ns s) \<and> slash \<notin> set (gs_pod s) \<and> slash \<notin> set (gs_sig s)"

lemma split_key: "no_slash s \<Longrightarrow> split_on slash (key_of s) = [gs_ns s, gs_pod s, gs_sig s]"
proof -
  assume n: "no_slash s"
  have k: "key_of s = gs_ns s @ slash # (gs_pod s @ slash # gs_sig s)" by (simp add: key_of_def series_key_def slash_def)
  show ?thesis unfolding k split_on_sep using n by (simp add: no_slash_def split_on_no_sep)
qed

text \<open>The last \<open>n\<close> samples of a pod of one namespace.\<close>

definition last_scrapes :: "nat \<Rightarrow> gsample list \<Rightarrow> string \<Rightarrow> string \<Rightarrow> pod \<Rightarrow> gsample list" where
  "last_scrapes n hist sg ns pd = last_n n (filter (\<lambda>s. gs_ns s = ns \<and> gs_pod s = pd \<and> gs_sig s = sg) hist)"

lemma last_scrapes_in: "s \<in> set (last_scrapes n hist sg ns pd) \<Longrightarrow> s \<in> set hist \<and> gs_ns s = ns \<and> gs_pod s = pd \<and> gs_sig s = sg"
  by (auto simp: last_scrapes_def last_n_def dest: in_set_dropD)

lemma key_scrapes:
  assumes "\<And>s. s \<in> set hist \<Longrightarrow> no_slash s" "s \<in> set hist"
  shows "last_n n (filter (\<lambda>x. key_of x = key_of s) hist) = last_scrapes n hist (gs_sig s) (gs_ns s) (gs_pod s)"
proof -
  have "key_of x = key_of s \<longleftrightarrow> gs_ns x = gs_ns s \<and> gs_pod x = gs_pod s \<and> gs_sig x = gs_sig s" if x: "x \<in> set hist" for x
  proof
    assume "key_of x = key_of s"
    then have "split_on slash (key_of x) = split_on slash (key_of s)" by simp
    then show "gs_ns x = gs_ns s \<and> gs_pod x = gs_pod s \<and> gs_sig x = gs_sig s" using split_key assms(1) x assms(2) by simp
  qed (simp add: key_of_def)
  then show ?thesis unfolding last_scrapes_def by (intro arg_cong[of _ _ "last_n n"] filter_cong) simp_all
qed

lemma set_window_doc:
  assumes "shows_history r hist"
  shows "set (window_doc fmt r) = (\<lambda>s. (key_of s, map (json_sample fmt)
     (last_n (nat (rg_cap r)) (filter (\<lambda>x. key_of x = key_of s) hist)))) ` set hist"
proof -
  have d: "distinct (map fst (rg_data r))" and k: "fst ` set (rg_data r) = key_of ` set hist"
    and v: "\<And>k. dget (rg_data r) k [] = last_n (nat (rg_cap r)) (filter (\<lambda>s. key_of s = k) hist)"
    using assms by (simp_all add: shows_history_def)
  have mem: "ss = last_n (nat (rg_cap r)) (filter (\<lambda>s. key_of s = k) hist)" if "(k, ss) \<in> set (rg_data r)" for k ss
    using that d v[of k] by (simp add: dget_def)
  have "set (window_doc fmt r) = (\<lambda>(k, ss). (k, map (json_sample fmt) ss)) ` set (rg_data r)"
    by (simp add: window_doc_def json_sample_def[abs_def])
  also have "\<dots> = (\<lambda>k. (k, map (json_sample fmt) (last_n (nat (rg_cap r)) (filter (\<lambda>s. key_of s = k) hist)))) ` fst ` set (rg_data r)"
    using mem by (force simp: image_iff)
  finally show ?thesis unfolding k by (simp add: image_image)
qed

subsection \<open>The documents are complete\<close>

lemma window_doc_complete: "complete_window epoch (window_doc fmt r)"
  by (auto simp: complete_window_def window_doc_def)

lemma events_doc_complete: "events_doc recent = Inr es \<Longrightarrow> complete_events es"
  by (auto simp: events_doc_def complete_events_def split: if_splits)

subsection \<open>The points of the engine\<close>

text \<open>For any format \<open>fmt\<close> whose stamps are read as \<open>rd\<close>.\<close>

lemma points_of_scrapes:
  assumes "0 \<le> ring_cap p" and "run (agg_step p) (agg_start p) evs a"
    and "\<And>s. s \<in> set (accepted evs) \<Longrightarrow> epoch (Some (fmt (gs_ts s))) = Some (rd (gs_ts s)) \<and> no_slash s"
    and "sg \<in> {v_signal cfg, v_write_signal cfg}"
  shows "\<exists>raw latest. collect_window epoch (window_doc fmt (ag_ring a)) (empty_raw cfg) = Inr (raw, latest) \<and>
    (let ss = last_scrapes (nat (ring_cap p)) (accepted evs) sg in
     case map_of (dget raw sg []) pd of None \<Rightarrow> \<forall>ns. length (ss ns pd) < 12
     | Some pts \<Rightarrow> \<exists>ns. 12 \<le> length (ss ns pd) \<and> pts = sort (map (point_of rd) (ss ns pd)) \<and>
         (\<forall>ns'. 12 \<le> length (ss ns' pd) \<longrightarrow> series_key ns' pd sg \<le> series_key ns pd sg))"
proof -
  let ?hist = "accepted evs" and ?w = "window_doc fmt (ag_ring a)"
  define ss where "ss = last_scrapes (nat (ring_cap p)) ?hist"
  have sh: "shows_history (ag_ring a) ?hist" and cap: "rg_cap (ag_ring a) = ring_cap p"
    using agg_run_exact[OF assms(1,2)] by simp_all
  have slash_free: "no_slash s" if "s \<in> set ?hist" for s using assms(3) that by blast
  have read: "read_points epoch (map (json_sample fmt) (ss sg' ns q)) = sort (map (point_of rd) (ss sg' ns q))" for sg' ns q
    by (rule read_points_ring) (use assms(3) last_scrapes_in in \<open>auto simp: ss_def\<close>)
  have w: "set ?w = (\<lambda>s. (key_of s, map (json_sample fmt) (ss (gs_sig s) (gs_ns s) (gs_pod s)))) ` set ?hist"
    unfolding set_window_doc[OF sh] cap ss_def by (intro image_cong refl) (simp add: key_scrapes[OF slash_free])
  have ent: "pod_entry epoch sg pd (key_of s, map (json_sample fmt) (ss (gs_sig s) (gs_ns s) (gs_pod s)))
      \<longleftrightarrow> gs_sig s = sg \<and> gs_pod s = pd \<and> 12 \<le> length (ss sg (gs_ns s) pd)" if "s \<in> set ?hist" for s
    using split_key[OF slash_free[OF that]] by (auto simp: pod_entry_def read)
  have some: "\<exists>s \<in> set ?hist. gs_sig s = sg \<and> gs_pod s = pd \<and> gs_ns s = ns" if "12 \<le> length (ss sg ns pd)" for ns
  proof -
    from that obtain s where "s \<in> set (ss sg ns pd)" by (cases "ss sg ns pd") auto
    then show ?thesis using last_scrapes_in unfolding ss_def by blast
  qed
  obtain raw where c: "collect_window epoch ?w (empty_raw cfg) = Inr (raw, last_stamp (kept_series {v_signal cfg, v_write_signal cfg} epoch ?w))"
    "map_of (dget raw sg []) pd = points_in sg (kept_series {v_signal cfg, v_write_signal cfg} epoch ?w) pd"
    using collect_window_empty[OF window_doc_complete] by blast
  have up: "sorted_wrt (<) (map fst ?w)" using sh window_doc_rising by (simp add: shows_history_def)
  note g = points_in_greatest[OF assms(4) up, of epoch pd, folded c(2)]
  have "case map_of (dget raw sg []) pd of None \<Rightarrow> \<forall>ns. length (ss sg ns pd) < 12
     | Some pts \<Rightarrow> \<exists>ns. 12 \<le> length (ss sg ns pd) \<and> pts = sort (map (point_of rd) (ss sg ns pd)) \<and>
         (\<forall>ns'. 12 \<le> length (ss sg ns' pd) \<longrightarrow> series_key ns' pd sg \<le> series_key ns pd sg)"
  proof (cases "map_of (dget raw sg []) pd")
    case None
    have "length (ss sg ns pd) < 12" for ns
    proof (rule ccontr)
      assume "\<not> length (ss sg ns pd) < 12"
      then obtain s where "s \<in> set ?hist" "gs_sig s = sg" "gs_pod s = pd" "gs_ns s = ns" "12 \<le> length (ss sg ns pd)" using some by force
      then show False using g ent[of s] unfolding None w by auto
    qed
    then show ?thesis by (simp add: None)
  next
    case (Some pts)
    then obtain s where s: "s \<in> set ?hist" "gs_sig s = sg" "gs_pod s = pd" "12 \<le> length (ss sg (gs_ns s) pd)"
      "pts = sort (map (point_of rd) (ss sg (gs_ns s) pd))"
      and top: "\<And>t. t \<in> set ?hist \<Longrightarrow> gs_sig t = sg \<Longrightarrow> gs_pod t = pd \<Longrightarrow> 12 \<le> length (ss sg (gs_ns t) pd) \<Longrightarrow> key_of t \<le> key_of s"
      using g ent unfolding w by (auto simp: read)
    have "series_key ns' pd sg \<le> series_key (gs_ns s) pd sg" if l: "12 \<le> length (ss sg ns' pd)" for ns'
    proof -
      obtain t where "t \<in> set ?hist" "gs_sig t = sg" "gs_pod t = pd" "gs_ns t = ns'" using some[OF l] by blast
      then show ?thesis using top[of t] l s(2,3) by (simp add: key_of_def)
    qed
    then show ?thesis using s by (auto simp: Some)
  qed
  then show ?thesis using c(1) unfolding Let_def ss_def by blast
qed

text \<open>The stamps of the aggregator and what the engine reads: microseconds.\<close>

definition stamp_of :: "real \<Rightarrow> string" where
  "stamp_of t = go_stamp (nat \<lfloor>t * 10 ^ 9\<rfloor>)"

definition micro :: "real \<Rightarrow> real" where
  "micro t = real (nat \<lfloor>t * 10 ^ 9\<rfloor> div 1000) / 10 ^ 6"

definition datable :: "real \<Rightarrow> bool" where
  "datable t \<longleftrightarrow> 0 \<le> t \<and> t < 253402300800"

lemma stamp_read: "datable t \<Longrightarrow> epoch_of other (Some (stamp_of t)) = Some (micro t)"
proof -
  assume "datable t"
  then have "\<lfloor>t * 10 ^ 9\<rfloor> < 253402300800 * 10 ^ 9" by (simp add: datable_def floor_less_iff)
  moreover have "0 \<le> \<lfloor>t * 10 ^ 9\<rfloor>" using \<open>datable t\<close> by (simp add: datable_def)
  ultimately have "nat \<lfloor>t * 10 ^ 9\<rfloor> < 253402300800 * 10 ^ 9" by (simp add: nat_less_iff)
  then show ?thesis by (simp only: stamp_of_def micro_def epoch_of_stamp)
qed

subsection \<open>Properties\<close>

text \<open>
  C6. The engine correlates what was scraped: after every run of the aggregator whose clock runs within the
  years 1970 to 9999, with any number of pods, any order of the stamps and names without slashes, the engine
  reads the stamps of the document, and for each of its two signals it leaves a pod out exactly when no
  namespace has twelve samples of it among the last \<open>capN\<close>.  Otherwise its points are the last \<open>capN\<close> accepted
  samples of that signal and pod in one namespace, to the microsecond, sorted, and so unchanged when the
  stamps of that one series increase.  A pod name of several namespaces is one pod for the engine: the
  namespace with the greatest key counts and the samples of the others are dropped, although the aggregator
  keys its ring by the namespace.
\<close>

theorem engine_reads_scrapes:
  assumes "0 \<le> ring_cap p" and "run (agg_step p) (agg_start p) evs a"
    and "\<And>s. s \<in> set (accepted evs) \<Longrightarrow> datable (gs_ts s) \<and> no_slash s"
    and "sg \<in> {v_signal cfg, v_write_signal cfg}"
  shows "\<exists>raw latest. collect_window (epoch_of other) (window_doc stamp_of (ag_ring a)) (empty_raw cfg) = Inr (raw, latest) \<and>
    (let ss = last_scrapes (nat (ring_cap p)) (accepted evs) sg in
     case map_of (dget raw sg []) pd of None \<Rightarrow> \<forall>ns. length (ss ns pd) < 12
     | Some pts \<Rightarrow> \<exists>ns. 12 \<le> length (ss ns pd) \<and> pts = sort (map (point_of micro) (ss ns pd)) \<and>
         (in_time micro (ss ns pd) \<longrightarrow> pts = map (point_of micro) (ss ns pd)) \<and>
         (\<forall>ns'. 12 \<le> length (ss ns' pd) \<longrightarrow> series_key ns' pd sg \<le> series_key ns pd sg))"
proof -
  have "epoch_of other (Some (stamp_of (gs_ts s))) = Some (micro (gs_ts s)) \<and> no_slash s" if "s \<in> set (accepted evs)" for s
    using assms(3)[OF that] stamp_read by blast
  from points_of_scrapes[OF assms(1,2) this assms(4), of pd] obtain raw latest where
    r: "collect_window (epoch_of other) (window_doc stamp_of (ag_ring a)) (empty_raw cfg) = Inr (raw, latest)"
      "let ss = last_scrapes (nat (ring_cap p)) (accepted evs) sg in
       case map_of (dget raw sg []) pd of None \<Rightarrow> \<forall>ns. length (ss ns pd) < 12
       | Some pts \<Rightarrow> \<exists>ns. 12 \<le> length (ss ns pd) \<and> pts = sort (map (point_of micro) (ss ns pd)) \<and>
           (\<forall>ns'. 12 \<le> length (ss ns' pd) \<longrightarrow> series_key ns' pd sg \<le> series_key ns pd sg)" by blast
  from r(2) show ?thesis unfolding Let_def
    by (intro exI[of _ raw] exI[of _ latest] conjI r(1)) (auto simp: sort_in_time split: option.splits)
qed

text \<open>
  Twelve scrapes of three pods, two of which have the same name in different namespaces.  The samples of one
  scrape have the same stamp.
\<close>

definition scrape_rows :: "nat \<Rightarrow> gsample list" where
  "scrape_rows k = (let row = \<lambda>ns pd v. \<lparr>gs_ts = 5 * real k, gs_pod = pd, gs_ns = ns, gs_sig = [], gs_value = v\<rparr>
     in [row ''a'' ''b-1'' (1/10), row ''a'' ''c-1'' (2/10), row ''z'' ''b-1'' (3/10)])"

definition twelve_scrapes :: "agg_event list" where
  "twelve_scrapes = map (Sampled ''psi_io'') (concat (map scrape_rows [0..<12]))"

lemma accepted_rows:
  "accepted (map (Sampled sg) (concat (map scrape_rows ks))) = map (\<lambda>s. s\<lparr>gs_sig := sg\<rparr>) (concat (map scrape_rows ks))"
  by (induction ks) (simp_all add: scrape_rows_def accepted_append)

lemma filter_map_concat: "filter P (map f (concat (map g ks))) = concat (map (\<lambda>k. filter P (map f (g k))) ks)"
  by (simp add: filter_concat map_concat comp_def)

theorem engine_reads_scrapes_witness:
  "\<exists>a raw latest. run (agg_step test_pack) (agg_start test_pack) twelve_scrapes a \<and>
     collect_window (epoch_of (\<lambda>_. None)) (window_doc stamp_of (ag_ring a)) (empty_raw default_svc) = Inr (raw, latest) \<and>
     map_of (dget raw ''psi_io'' []) ''b-1'' = Some (map (\<lambda>k. (5 * real k, 3/10)) [0..<12])"
proof -
  have c: "0 \<le> ring_cap test_pack" by (simp add: test_cap)
  have cap: "0 \<le> rg_cap (ag_ring (agg_start test_pack))" by (simp add: agg_start_def test_cap)
  obtain a where a: "run (agg_step test_pack) (agg_start test_pack) twelve_scrapes a"
    using eval_samples_run[OF cap, of test_pack "''psi_io''" "concat (map scrape_rows [0..<12])"] unfolding twelve_scrapes_def by blast
  have mic: "micro (5 * real k) = 5 * real k" for k
  proof -
    have e: "5 * real k * 10 ^ 9 = of_int (int (5 * k * 10 ^ 6 * 1000))" by simp
    have "(5 * k * 10 ^ 6 * 1000) div 1000 = 5 * k * 10 ^ 6" by (rule nonzero_mult_div_cancel_right) simp
    then show ?thesis unfolding micro_def e floor_of_int nat_int by simp
  qed
  note acc = accepted_rows[of "''psi_io''" "[0..<12]", folded twelve_scrapes_def]
  have h: "datable (gs_ts s) \<and> no_slash s" if "s \<in> set (accepted twelve_scrapes)" for s
    using that unfolding acc by (auto simp: scrape_rows_def datable_def no_slash_def slash_def)
  have sg: "''psi_io'' \<in> {v_signal default_svc, v_write_signal default_svc}" by (simp add: default_svc_def)
  let ?row = "\<lambda>ns v k. \<lparr>gs_ts = 5 * real k, gs_pod = ''b-1'', gs_ns = ns, gs_sig = ''psi_io'', gs_value = v\<rparr>"
  let ?ss = "\<lambda>ns. last_scrapes (nat (ring_cap test_pack)) (accepted twelve_scrapes) ''psi_io'' ns ''b-1''"
  have rows: "?ss ns = (if ns = ''a'' then map (?row ''a'' (1/10)) [0..<12] else if ns = ''z'' then map (?row ''z'' (3/10)) [0..<12] else [])" for ns
  proof -
    have one: "concat (map (\<lambda>k. [f k]) ks) = map f ks" for f :: "nat \<Rightarrow> gsample" and ks by (induction ks) simp_all
    have none: "concat (map (\<lambda>k. []) ks) = ([] :: gsample list)" for ks :: "nat list" by (induction ks) simp_all
    show ?thesis unfolding acc last_scrapes_def filter_map_concat by (simp add: scrape_rows_def last_n_def test_cap one none)
  qed
  have t: "in_time micro (?ss ''z'')" by (simp add: rows in_time_def sorted_wrt_map mic)
  have less: "\<not> series_key ''z'' ''b-1'' ''psi_io'' \<le> series_key ''a'' ''b-1'' ''psi_io''" by (simp add: series_key_def)
  from engine_reads_scrapes[OF c a h sg, where pd = "''b-1''" and other = "\<lambda>_. None"] obtain raw latest where
    r: "collect_window (epoch_of (\<lambda>_. None)) (window_doc stamp_of (ag_ring a)) (empty_raw default_svc) = Inr (raw, latest)"
      "case map_of (dget raw ''psi_io'' []) ''b-1'' of None \<Rightarrow> \<forall>ns. length (?ss ns) < 12
       | Some pts \<Rightarrow> \<exists>ns. 12 \<le> length (?ss ns) \<and> pts = sort (map (point_of micro) (?ss ns)) \<and>
         (in_time micro (?ss ns) \<longrightarrow> pts = map (point_of micro) (?ss ns)) \<and>
         (\<forall>ns'. 12 \<le> length (?ss ns') \<longrightarrow> series_key ns' ''b-1'' ''psi_io'' \<le> series_key ns ''b-1'' ''psi_io'')"
    unfolding Let_def by blast
  have z: "12 \<le> length (?ss ''z'')" by (simp add: rows)
  then obtain pts ns where p: "map_of (dget raw ''psi_io'' []) ''b-1'' = Some pts" "12 \<le> length (?ss ns)"
    "in_time micro (?ss ns) \<longrightarrow> pts = map (point_of micro) (?ss ns)" "series_key ''z'' ''b-1'' ''psi_io'' \<le> series_key ns ''b-1'' ''psi_io''"
  proof (cases "map_of (dget raw ''psi_io'' []) ''b-1''")
    case None
    then have "length (?ss ''z'') < 12" using r(2) by simp
    with z show ?thesis by simp
  next
    case (Some pts)
    then show ?thesis using r(2) z that by (simp only: option.case) blast
  qed
  have "ns = ''z''" using p(2,4) less unfolding rows by (simp split: if_splits)
  then have "pts = map (\<lambda>k. (5 * real k, 3/10)) [0..<12]" using p(3) t by (simp add: rows point_of_def comp_def mic)
  with p(1) show ?thesis by (intro exI[of _ a] exI[of _ raw] exI[of _ latest] conjI a r(1)) simp
qed

end
