(* ===== verification/EdgeMemory.thy ===== *)
theory EdgeMemory
  imports Names Machine Gate
begin

text \<open>
  The edge table of the engine's memory, \<open>correlation/engine/state.py\<close>: \<open>MemoryConfig\<close>, the table
  \<open>edge_memory\<close> and the three operations that change it in a pass (\<open>_seed_structural\<close>,
  \<open>_confirm_edge\<close>, \<open>_decay_absent_edges\<close>).  The table is the list of its rows in the order of the
  row ids: INSERT appends, UPDATE changes a row in place, INSERT OR REPLACE deletes the row with the
  same key and appends, SELECT returns the rows in this order.  The evidence column holds the list
  itself, the JSON text being written and read by the same library.  Time stamps are arguments.
\<close>

record mem_config =
  c_signal :: string
  c_alpha :: real
  c_decay :: real
  c_show :: real
  c_hide :: real
  c_prior :: real
  c_floor_frac :: real
  c_tau_merge :: real
  c_tau_family :: real
  c_base_alpha :: real
  c_dev_k :: real
  c_mad_floor :: real
  c_base_min_n :: nat

definition default_config :: mem_config where
  "default_config = \<lparr>c_signal = ''psi_io'', c_alpha = 4/10, c_decay = 1/10, c_show = 6/10,
     c_hide = 25/100, c_prior = 2/10, c_floor_frac = 4/10, c_tau_merge = 85/100,
     c_tau_family = 60/100, c_base_alpha = 5/100, c_dev_k = 4, c_mad_floor = 1/100, c_base_min_n = 12\<rparr>"

datatype edge_state = Active | Confirming | Steady | Decaying | Hidden

record edge_row =
  m_src :: string
  m_dst :: string
  m_signal :: string
  m_conf :: real
  m_r :: real
  m_lag_s :: int
  m_evidence :: "string list"
  m_hits :: nat
  m_visible :: bool
  m_state :: edge_state
  m_first_ts :: real
  m_last_ts :: real
  m_updated_ts :: real
  m_base :: real

type_synonym edge_key = "string \<times> string \<times> string"
type_synonym edge_table = "edge_row list"

definition row_key :: "edge_row \<Rightarrow> edge_key" where
  "row_key r = (m_src r, m_dst r, m_signal r)"

definition find_row :: "edge_key \<Rightarrow> edge_table \<Rightarrow> edge_row option" where
  "find_row k tab = find (\<lambda>r. row_key r = k) tab"

definition replace_row :: "edge_row \<Rightarrow> edge_table \<Rightarrow> edge_table" where
  "replace_row r tab = filter (\<lambda>x. row_key x \<noteq> row_key r) tab @ [r]"

definition update_row :: "edge_key \<Rightarrow> (edge_row \<Rightarrow> edge_row) \<Rightarrow> edge_table \<Rightarrow> edge_table" where
  "update_row k f tab = map (\<lambda>r. if row_key r = k then f r else r) tab"

subsection \<open>The operations\<close>

definition seed_pair :: "mem_config \<Rightarrow> string set \<Rightarrow> real \<Rightarrow> pod set \<Rightarrow> edge_table \<Rightarrow> edge_table" where
  "seed_pair cfg present ts pair tab =
     (let wls = sorted_list_of_set (stable_workload ` pair) in
      case wls of [a, b] \<Rightarrow>
        if a \<notin> present \<or> b \<notin> present then tab
        else let k = (a, b, c_signal cfg) in
          (case find_row k tab of
             None \<Rightarrow> tab @ [\<lparr>m_src = a, m_dst = b, m_signal = c_signal cfg, m_conf = c_prior cfg, m_r = 0,
               m_lag_s = 0, m_evidence = [''pvc''], m_hits = 0, m_visible = False, m_state = Steady,
               m_first_ts = ts, m_last_ts = ts, m_updated_ts = ts, m_base = c_prior cfg\<rparr>]
           | Some r \<Rightarrow> if m_base r < c_prior cfg then update_row k (\<lambda>r. r\<lparr>m_base := c_prior cfg\<rparr>) tab else tab)
      | _ \<Rightarrow> tab)"

text \<open>The pairs of the shared relation, in the order the set is iterated.\<close>

definition seed_structural :: "mem_config \<Rightarrow> string set \<Rightarrow> real \<Rightarrow> pod set list \<Rightarrow> edge_table \<Rightarrow> edge_table" where
  "seed_structural cfg present ts pairs tab = fold (seed_pair cfg present ts) pairs tab"

definition edge_key_of :: "mem_config \<Rightarrow> edge \<Rightarrow> edge_key" where
  "edge_key_of cfg e = (stable_workload (e_src e), stable_workload (e_dst e), c_signal cfg)"

definition confirmed_row :: "mem_config \<Rightarrow> real \<Rightarrow> edge \<Rightarrow> edge_row option \<Rightarrow> edge_row" where
  "confirmed_row cfg ts e old =
     (let prev_base = (case old of None \<Rightarrow> 0 | Some r \<Rightarrow> m_base r);
          conf = (case old of None \<Rightarrow> c_alpha cfg | Some r \<Rightarrow> m_conf r + c_alpha cfg * (1 - m_conf r));
          hits = (case old of None \<Rightarrow> 1 | Some r \<Rightarrow> m_hits r + 1);
          first = (case old of None \<Rightarrow> ts | Some r \<Rightarrow> m_first_ts r);
          visible = (case old of None \<Rightarrow> conf \<ge> c_show cfg | Some r \<Rightarrow> m_visible r \<or> conf \<ge> c_show cfg);
          base = max prev_base (c_floor_frac cfg * conf)
      in \<lparr>m_src = stable_workload (e_src e), m_dst = stable_workload (e_dst e), m_signal = c_signal cfg,
          m_conf = conf, m_r = e_r e, m_lag_s = e_lag_s e, m_evidence = e_evidence e, m_hits = hits,
          m_visible = visible, m_state = (if visible then Active else Confirming),
          m_first_ts = first, m_last_ts = ts, m_updated_ts = ts, m_base = base\<rparr>)"

definition confirm_edge :: "mem_config \<Rightarrow> real \<Rightarrow> edge \<Rightarrow> edge_table \<Rightarrow> edge_table" where
  "confirm_edge cfg ts e tab =
     replace_row (confirmed_row cfg ts e (find_row (edge_key_of cfg e) tab)) tab"

definition decayed_row :: "mem_config \<Rightarrow> real \<Rightarrow> edge_row \<Rightarrow> edge_row" where
  "decayed_row cfg ts r =
     (let base = m_base r;
          conf = max base (m_conf r * (1 - c_decay cfg));
          visible = (m_visible r \<and> conf \<ge> c_hide cfg);
          at_floor = (conf \<le> base + 1 / 1000000000 \<and> base > 0);
          state = (if at_floor then Steady else if visible then Decaying else Hidden)
      in r\<lparr>m_conf := conf, m_visible := visible, m_state := state, m_updated_ts := ts\<rparr>)"

definition decay_absent_edges :: "mem_config \<Rightarrow> edge_key set \<Rightarrow> string set \<Rightarrow> real \<Rightarrow> edge_table \<Rightarrow> edge_table" where
  "decay_absent_edges cfg seen present ts tab =
     map (\<lambda>r. if m_signal r \<noteq> c_signal cfg then r
              else if row_key r \<in> seen then r
              else if m_src r \<notin> present \<or> m_dst r \<notin> present then r
              else decayed_row cfg ts r) tab"

text \<open>The edge part of \<open>observe\<close>: lines 248 to 261.\<close>

record pass_event =
  ev_edges :: "edge list"
  ev_pods :: "pod set"
  ev_pairs :: "pod set list option"
  ev_ts :: real

definition observe_edges :: "mem_config \<Rightarrow> pass_event \<Rightarrow> edge_table \<Rightarrow> edge_table" where
  "observe_edges cfg ev tab =
     (let present = stable_workload ` ev_pods ev;
          seen = edge_key_of cfg ` set (ev_edges ev);
          tab1 = (case ev_pairs ev of None \<Rightarrow> tab | Some ps \<Rightarrow> seed_structural cfg present (ev_ts ev) ps tab);
          tab2 = fold (confirm_edge cfg (ev_ts ev)) (ev_edges ev) tab1
      in decay_absent_edges cfg seen present (ev_ts ev) tab2)"

definition observe_step :: "mem_config \<Rightarrow> edge_table \<Rightarrow> pass_event \<Rightarrow> edge_table \<Rightarrow> bool" where
  "observe_step cfg tab ev tab' \<longleftrightarrow> tab' = observe_edges cfg ev tab"

subsection \<open>The table\<close>

lemma find_row_Some: "find_row k tab = Some r \<Longrightarrow> r \<in> set tab \<and> row_key r = k"
  by (auto simp: find_row_def find_Some_iff)

lemma find_row_None: "find_row k tab = None \<longleftrightarrow> (\<forall>r \<in> set tab. row_key r \<noteq> k)"
  by (auto simp: find_row_def find_None_iff)

lemma find_row_unique:
  assumes "distinct (map row_key tab)" "r \<in> set tab"
  shows "find_row (row_key r) tab = Some r"
proof (cases "find_row (row_key r) tab")
  case None
  with assms(2) show ?thesis by (auto simp: find_row_None)
next
  case (Some x)
  with find_row_Some[OF Some] assms show ?thesis by (auto simp: distinct_map inj_on_def)
qed

lemma set_replace_row: "set (replace_row r tab) = insert r {x \<in> set tab. row_key x \<noteq> row_key r}"
  by (auto simp: replace_row_def)

lemma distinct_replace_row: "distinct (map row_key tab) \<Longrightarrow> distinct (map row_key (replace_row r tab))"
  by (auto simp: replace_row_def distinct_map_filter)

lemma keys_update_row: "(\<And>r. row_key (f r) = row_key r) \<Longrightarrow> map row_key (update_row k f tab) = map row_key tab"
  by (simp add: update_row_def)

lemma row_key_base [simp]: "row_key (r\<lparr>m_base := b\<rparr>) = row_key r"
  by (simp add: row_key_def)

lemma row_key_decayed [simp]: "row_key (decayed_row cfg ts r) = row_key r"
  by (simp add: row_key_def decayed_row_def Let_def)

lemma decayed_row_sel [simp]:
  "m_base (decayed_row cfg ts r) = m_base r" "m_hits (decayed_row cfg ts r) = m_hits r"
  "m_first_ts (decayed_row cfg ts r) = m_first_ts r" "m_src (decayed_row cfg ts r) = m_src r"
  "m_dst (decayed_row cfg ts r) = m_dst r" "m_signal (decayed_row cfg ts r) = m_signal r"
  "m_conf (decayed_row cfg ts r) = max (m_base r) (m_conf r * (1 - c_decay cfg))"
  by (simp_all add: decayed_row_def Let_def)

lemma confirmed_row_old:
  "m_base (confirmed_row cfg ts e (Some r)) = max (m_base r) (c_floor_frac cfg * m_conf (confirmed_row cfg ts e (Some r)))"
  "m_hits (confirmed_row cfg ts e (Some r)) = m_hits r + 1"
  "m_first_ts (confirmed_row cfg ts e (Some r)) = m_first_ts r"
  "m_conf (confirmed_row cfg ts e (Some r)) = m_conf r + c_alpha cfg * (1 - m_conf r)"
  "m_visible (confirmed_row cfg ts e (Some r)) = (m_visible r \<or> m_conf r + c_alpha cfg * (1 - m_conf r) \<ge> c_show cfg)"
  by (simp_all add: confirmed_row_def Let_def)

lemma confirmed_row_new:
  "m_base (confirmed_row cfg ts e None) = max 0 (c_floor_frac cfg * c_alpha cfg)"
  "m_hits (confirmed_row cfg ts e None) = 1" "m_first_ts (confirmed_row cfg ts e None) = ts"
  "m_conf (confirmed_row cfg ts e None) = c_alpha cfg"
  "m_visible (confirmed_row cfg ts e None) = (c_alpha cfg \<ge> c_show cfg)"
  by (simp_all add: confirmed_row_def Let_def)

lemma row_key_confirmed [simp]: "row_key (confirmed_row cfg ts e old) = edge_key_of cfg e"
  by (simp add: row_key_def confirmed_row_def edge_key_of_def Let_def)

subsection \<open>The invariant\<close>

text \<open>The bounds the deployed parameters satisfy.\<close>

definition sane_config :: "mem_config \<Rightarrow> bool" where
  "sane_config cfg \<longleftrightarrow> 0 < c_prior cfg \<and> c_prior cfg \<le> c_alpha cfg \<and> c_alpha cfg \<le> 1 \<and>
     0 \<le> c_decay cfg \<and> c_decay cfg \<le> 1 \<and> 0 < c_floor_frac cfg \<and> c_floor_frac cfg \<le> 1"

lemma sane_default: "sane_config default_config"
  by (simp add: sane_config_def default_config_def)

definition state_ok :: "edge_row \<Rightarrow> bool" where
  "state_ok r \<longleftrightarrow> (m_state r \<in> {Active, Decaying} \<longrightarrow> m_visible r) \<and>
     (m_state r \<in> {Confirming, Hidden} \<longrightarrow> \<not> m_visible r)"

definition wf_row :: "edge_row \<Rightarrow> bool" where
  "wf_row r \<longleftrightarrow> 0 < m_base r \<and> m_base r \<le> m_conf r \<and> m_conf r \<le> 1 \<and> state_ok r"

definition wf_table :: "edge_table \<Rightarrow> bool" where
  "wf_table tab \<longleftrightarrow> distinct (map row_key tab) \<and> (\<forall>r \<in> set tab. wf_row r)"

text \<open>
  Between the seeding and the end of a pass a row of two running workloads may have its base raised
  to the prior above its confidence; confirmation or decay repairs it.
\<close>

definition mid_row :: "mem_config \<Rightarrow> string set \<Rightarrow> edge_row \<Rightarrow> bool" where
  "mid_row cfg present r \<longleftrightarrow> 0 < m_base r \<and> 0 < m_conf r \<and> m_conf r \<le> 1 \<and> m_base r \<le> 1 \<and> state_ok r \<and>
     (m_base r \<le> m_conf r \<or>
      m_base r \<le> c_prior cfg \<and> m_src r \<in> present \<and> m_dst r \<in> present \<and> m_signal r = c_signal cfg)"

definition mid_table :: "mem_config \<Rightarrow> string set \<Rightarrow> edge_table \<Rightarrow> bool" where
  "mid_table cfg present tab \<longleftrightarrow> distinct (map row_key tab) \<and> (\<forall>r \<in> set tab. mid_row cfg present r)"

lemma wf_mid_row: "wf_row r \<Longrightarrow> mid_row cfg present r"
  by (auto simp: wf_row_def mid_row_def)

lemma wf_mid_table: "wf_table tab \<Longrightarrow> mid_table cfg present tab"
  by (auto simp: wf_table_def mid_table_def intro: wf_mid_row)

lemma seed_pair_cases:
  obtains "seed_pair cfg present ts pair tab = tab"
  | r where "seed_pair cfg present ts pair tab = tab @ [r]" "find_row (row_key r) tab = None"
      "m_conf r = c_prior cfg" "m_base r = c_prior cfg" "m_state r = Steady" "m_hits r = 0" "\<not> m_visible r"
      "m_src r \<in> present" "m_dst r \<in> present" "m_signal r = c_signal cfg" "m_r r = 0" "m_src r < m_dst r"
  | a b where "seed_pair cfg present ts pair tab =
        update_row (a, b, c_signal cfg) (\<lambda>r. r\<lparr>m_base := c_prior cfg\<rparr>) tab"
      "a \<in> present" "b \<in> present" "\<exists>r. find_row (a, b, c_signal cfg) tab = Some r \<and> m_base r < c_prior cfg"
proof (cases "\<exists>a b. sorted_list_of_set (stable_workload ` pair) = [a, b] \<and> a \<in> present \<and> b \<in> present")
  case False
  then have "seed_pair cfg present ts pair tab = tab" by (auto simp: seed_pair_def Let_def split: list.splits)
  then show ?thesis by (rule that(1))
next
  case True
  then obtain a b where ab: "sorted_list_of_set (stable_workload ` pair) = [a, b]" "a \<in> present" "b \<in> present" by blast
  have "sorted_wrt (<) [a, b]" using strict_sorted_list_of_set[of "stable_workload ` pair"] by (simp only: ab(1))
  then have lt: "a < b" by simp
  show ?thesis
  proof (cases "find_row (a, b, c_signal cfg) tab")
    case None
    then show ?thesis using ab lt by (intro that(2)) (auto simp: seed_pair_def Let_def row_key_def)
  next
    case (Some r)
    show ?thesis
    proof (cases "m_base r < c_prior cfg")
      case True
      then show ?thesis using ab Some by (intro that(3)[of a b]) (auto simp: seed_pair_def Let_def)
    next
      case False
      then show ?thesis using ab Some by (intro that(1)) (simp add: seed_pair_def Let_def)
    qed
  qed
qed

lemma seed_pair_mid:
  assumes cfg: "sane_config cfg" and tab: "mid_table cfg present tab"
  shows "mid_table cfg present (seed_pair cfg present ts pair tab)"
proof (cases rule: seed_pair_cases[of cfg present ts pair tab])
  case 1
  with tab show ?thesis by simp
next
  case (2 r)
  have "mid_row cfg present r" using 2 cfg by (auto simp: mid_row_def sane_config_def state_ok_def)
  moreover have "row_key r \<notin> set (map row_key tab)" using 2(2) by (auto simp: find_row_None)
  ultimately show ?thesis using tab by (auto simp: mid_table_def 2(1))
next
  case (3 a b)
  let ?f = "\<lambda>r. r\<lparr>m_base := c_prior cfg\<rparr>"
  obtain x where x: "find_row (a, b, c_signal cfg) tab = Some x" "m_base x < c_prior cfg" using 3(4) by blast
  have "mid_row cfg present (?f r)" if r: "r \<in> set tab" "row_key r = (a, b, c_signal cfg)" for r
    using tab r 3 cfg by (auto simp: mid_table_def mid_row_def sane_config_def state_ok_def row_key_def)
  then show ?thesis using tab unfolding 3(1) mid_table_def
    by (auto simp: keys_update_row) (auto simp: update_row_def split: if_splits)
qed

lemma seed_structural_mid:
  "sane_config cfg \<Longrightarrow> mid_table cfg present tab \<Longrightarrow> mid_table cfg present (seed_structural cfg present ts pairs tab)"
  unfolding seed_structural_def
  by (induction pairs arbitrary: tab) (auto intro: seed_pair_mid)

lemma confirmed_row_wf:
  assumes cfg: "sane_config cfg" and old: "\<And>r. old = Some r \<Longrightarrow> mid_row cfg present r"
  shows "wf_row (confirmed_row cfg ts e old)"
proof (cases old)
  case None
  have "c_floor_frac cfg * c_alpha cfg \<le> c_alpha cfg"
    using cfg by (intro mult_left_le_one_le) (auto simp: sane_config_def)
  then show ?thesis using cfg None
    by (auto simp: wf_row_def confirmed_row_def sane_config_def state_ok_def Let_def)
next
  case (Some r)
  define conf where "conf = m_conf r + c_alpha cfg * (1 - m_conf r)"
  have r: "0 < m_conf r" "m_conf r \<le> 1" "0 < m_base r" "m_base r \<le> max (m_conf r) (c_prior cfg)"
    using old[OF Some] by (auto simp: mid_row_def)
  have "0 \<le> c_alpha cfg * (1 - m_conf r)" using cfg r by (simp add: sane_config_def)
  then have c1: "m_conf r \<le> conf" by (simp add: conf_def)
  have "c_alpha cfg * (1 - m_conf r) \<le> 1 * (1 - m_conf r)"
    using cfg r by (intro mult_right_mono) (auto simp: sane_config_def)
  then have c2: "conf \<le> 1" by (simp add: conf_def)
  have "conf = c_alpha cfg + (1 - c_alpha cfg) * m_conf r" by (simp add: conf_def algebra_simps)
  moreover have "0 \<le> (1 - c_alpha cfg) * m_conf r" using cfg r by (simp add: sane_config_def)
  ultimately have "c_prior cfg \<le> conf" using cfg by (simp add: sane_config_def)
  then have b: "m_base r \<le> conf" using r(4) c1 by simp
  have "c_floor_frac cfg * conf \<le> conf"
    using cfg r(1) c1 by (intro mult_left_le_one_le) (auto simp: sane_config_def)
  then show ?thesis using b c2 r(3)
    by (auto simp: Some wf_row_def confirmed_row_def state_ok_def Let_def conf_def[symmetric])
qed

lemma decayed_row_wf:
  assumes cfg: "sane_config cfg" and r: "mid_row cfg present r"
  shows "wf_row (decayed_row cfg ts r)"
proof -
  have "m_conf r * (1 - c_decay cfg) \<le> m_conf r"
    using cfg r by (intro mult_right_le_one_le) (auto simp: sane_config_def mid_row_def)
  also have "\<dots> \<le> 1" using r by (simp add: mid_row_def)
  finally have "max (m_base r) (m_conf r * (1 - c_decay cfg)) \<le> 1" "0 < m_base r"
    using r by (auto simp: mid_row_def)
  then show ?thesis by (simp add: wf_row_def decayed_row_def state_ok_def Let_def)
qed

lemma confirm_edge_mid:
  assumes cfg: "sane_config cfg" and tab: "mid_table cfg present tab"
  shows "mid_table cfg present (confirm_edge cfg ts e tab)"
proof -
  let ?r = "confirmed_row cfg ts e (find_row (edge_key_of cfg e) tab)"
  have "wf_row ?r"
    by (rule confirmed_row_wf[OF cfg, of _ present]) (use tab find_row_Some in \<open>auto simp: mid_table_def\<close>)
  then have "mid_row cfg present ?r" by (rule wf_mid_row)
  then show ?thesis using tab by (auto simp: confirm_edge_def mid_table_def set_replace_row distinct_replace_row)
qed

lemma confirm_edges_mid:
  assumes cfg: "sane_config cfg"
  shows "mid_table cfg present tab \<Longrightarrow> (\<And>r. r \<in> set tab \<Longrightarrow> row_key r \<in> done \<Longrightarrow> wf_row r) \<Longrightarrow>
    mid_table cfg present (fold (confirm_edge cfg ts) es tab) \<and>
    (\<forall>r \<in> set (fold (confirm_edge cfg ts) es tab). row_key r \<in> done \<union> edge_key_of cfg ` set es \<longrightarrow> wf_row r)"
proof (induction es arbitrary: tab "done")
  case (Cons e es)
  let ?r = "confirmed_row cfg ts e (find_row (edge_key_of cfg e) tab)"
  have wf: "wf_row ?r"
    by (rule confirmed_row_wf[OF cfg, of _ present])
       (use Cons.prems(1) find_row_Some in \<open>auto simp: mid_table_def\<close>)
  have "wf_row r" if "r \<in> set (confirm_edge cfg ts e tab)" "row_key r \<in> insert (edge_key_of cfg e) done" for r
    using that wf Cons.prems(2) by (auto simp: confirm_edge_def set_replace_row)
  from Cons.IH[of "confirm_edge cfg ts e tab" "insert (edge_key_of cfg e) done",
      OF confirm_edge_mid[OF cfg Cons.prems(1)] this]
  show ?case by simp
qed auto

lemma observe_edges_wf:
  assumes cfg: "sane_config cfg" and tab: "wf_table tab"
  shows "wf_table (observe_edges cfg ev tab)"
proof -
  let ?present = "stable_workload ` ev_pods ev" and ?seen = "edge_key_of cfg ` set (ev_edges ev)"
  define tab1 where "tab1 = (case ev_pairs ev of None \<Rightarrow> tab | Some ps \<Rightarrow> seed_structural cfg ?present (ev_ts ev) ps tab)"
  define tab2 where "tab2 = fold (confirm_edge cfg (ev_ts ev)) (ev_edges ev) tab1"
  have "mid_table cfg ?present tab1"
    using wf_mid_table[OF tab] by (auto simp: tab1_def intro: seed_structural_mid[OF cfg] split: option.splits)
  then have mid: "mid_table cfg ?present tab2" and seen: "\<And>r. r \<in> set tab2 \<Longrightarrow> row_key r \<in> ?seen \<Longrightarrow> wf_row r"
    using confirm_edges_mid[OF cfg, of ?present tab1 "{}"] by (auto simp: tab2_def)
  have eq: "observe_edges cfg ev tab = decay_absent_edges cfg ?seen ?present (ev_ts ev) tab2"
    by (simp add: observe_edges_def tab1_def tab2_def Let_def)
  have keys: "map row_key (observe_edges cfg ev tab) = map row_key tab2"
    by (simp add: eq decay_absent_edges_def)
  have "wf_row r" if r: "r \<in> set (observe_edges cfg ev tab)" for r
  proof -
    obtain x where x: "x \<in> set tab2" "r = (if m_signal x \<noteq> c_signal cfg then x else if row_key x \<in> ?seen then x
        else if m_src x \<notin> ?present \<or> m_dst x \<notin> ?present then x else decayed_row cfg (ev_ts ev) x)"
      using r by (auto simp: eq decay_absent_edges_def)
    have m: "mid_row cfg ?present x" using mid x(1) by (simp add: mid_table_def)
    show ?thesis
    proof (cases "m_signal x \<noteq> c_signal cfg \<or> m_src x \<notin> ?present \<or> m_dst x \<notin> ?present")
      case True
      then have "wf_row x" using m by (auto simp: mid_row_def wf_row_def)
      then show ?thesis using x(2) True by (auto split: if_splits)
    next
      case False
      then show ?thesis using x seen[OF x(1)] decayed_row_wf[OF cfg m] by (auto split: if_splits)
    qed
  qed
  then show ?thesis using keys mid by (simp add: wf_table_def mid_table_def)
qed

interpretation edges: invariant_machine "observe_step cfg" wf_table "\<lambda>_. sane_config cfg" for cfg
  by unfold_locales (simp add: observe_step_def observe_edges_wf)

subsection \<open>What a pass never takes back\<close>

text \<open>Every row persists under its key, its base and its hits never fall, its first sighting stays.\<close>

definition kept :: "edge_table \<Rightarrow> edge_table \<Rightarrow> bool" where
  "kept tab tab' \<longleftrightarrow> (\<forall>r \<in> set tab. \<exists>r' \<in> set tab'. row_key r' = row_key r \<and> m_base r \<le> m_base r' \<and>
     m_hits r \<le> m_hits r' \<and> m_first_ts r' = m_first_ts r)"

lemma keptI:
  "(\<And>r. r \<in> set tab \<Longrightarrow> \<exists>r' \<in> set tab'. row_key r' = row_key r \<and> m_base r \<le> m_base r' \<and>
     m_hits r \<le> m_hits r' \<and> m_first_ts r' = m_first_ts r) \<Longrightarrow> kept tab tab'"
  by (auto simp: kept_def)

lemma kept_refl: "kept tab tab"
  by (auto simp: kept_def)

lemma kept_trans: "kept a b \<Longrightarrow> kept b c \<Longrightarrow> kept a c"
  unfolding kept_def by (metis order_trans)

lemma kept_map:
  "(\<And>r. r \<in> set tab \<Longrightarrow> row_key (f r) = row_key r \<and> m_base r \<le> m_base (f r) \<and> m_hits r \<le> m_hits (f r) \<and>
     m_first_ts (f r) = m_first_ts r) \<Longrightarrow> kept tab (map f tab)"
  by (rule keptI) (force intro: bexI)

lemma kept_seed_pair:
  assumes "distinct (map row_key tab)"
  shows "kept tab (seed_pair cfg present ts pair tab)"
proof (cases rule: seed_pair_cases[of cfg present ts pair tab])
  case 1
  then show ?thesis by (simp add: kept_refl)
next
  case (2 r)
  then show ?thesis by (auto simp: kept_def)
next
  case (3 a b)
  obtain x where x: "find_row (a, b, c_signal cfg) tab = Some x" "m_base x < c_prior cfg" using 3(4) by blast
  have "m_base r \<le> c_prior cfg" if "r \<in> set tab" "row_key r = (a, b, c_signal cfg)" for r
    using find_row_unique[OF assms that(1)] that(2) x by simp
  then show ?thesis unfolding 3(1) update_row_def by (intro kept_map) auto
qed

lemma kept_confirm:
  assumes "distinct (map row_key tab)"
  shows "kept tab (confirm_edge cfg ts e tab)"
proof (rule keptI)
  fix r assume r: "r \<in> set tab"
  let ?k = "edge_key_of cfg e"
  let ?r = "confirmed_row cfg ts e (find_row ?k tab)"
  show "\<exists>r' \<in> set (confirm_edge cfg ts e tab). row_key r' = row_key r \<and> m_base r \<le> m_base r' \<and>
     m_hits r \<le> m_hits r' \<and> m_first_ts r' = m_first_ts r"
  proof (cases "row_key r = ?k")
    case True
    then have "find_row ?k tab = Some r" using find_row_unique[OF assms r] by simp
    then show ?thesis using True
      by (intro bexI[of _ ?r]) (simp_all add: confirm_edge_def set_replace_row confirmed_row_old(1-3))
  next
    case False
    then show ?thesis using r by (intro bexI[of _ r]) (auto simp: confirm_edge_def set_replace_row)
  qed
qed

lemma kept_decay: "kept tab (decay_absent_edges cfg seen present ts tab)"
  unfolding decay_absent_edges_def by (rule kept_map) auto

lemma kept_observe:
  assumes cfg: "sane_config cfg" and tab: "wf_table tab"
  shows "kept tab (observe_edges cfg ev tab)"
proof -
  let ?present = "stable_workload ` ev_pods ev"
  have seed: "kept t (seed_structural cfg ?present ts ps t)" if "mid_table cfg ?present t" for t ts ps
    unfolding seed_structural_def using that
  proof (induction ps arbitrary: t)
    case (Cons p ps)
    have "kept t (seed_pair cfg ?present ts p t)" using Cons.prems by (intro kept_seed_pair) (simp add: mid_table_def)
    moreover have "kept (seed_pair cfg ?present ts p t) (fold (seed_pair cfg ?present ts) ps (seed_pair cfg ?present ts p t))"
      by (rule Cons.IH[OF seed_pair_mid[OF cfg Cons.prems]])
    ultimately show ?case by (auto intro: kept_trans)
  qed (simp add: kept_refl)
  have conf: "kept t (fold (confirm_edge cfg ts) es t)" if "mid_table cfg ?present t" for t ts es
    using that
  proof (induction es arbitrary: t)
    case (Cons e es)
    have "kept t (confirm_edge cfg ts e t)" using Cons.prems by (intro kept_confirm) (simp add: mid_table_def)
    moreover have "kept (confirm_edge cfg ts e t) (fold (confirm_edge cfg ts) es (confirm_edge cfg ts e t))"
      by (rule Cons.IH[OF confirm_edge_mid[OF cfg Cons.prems]])
    ultimately show ?case by (auto intro: kept_trans)
  qed (simp add: kept_refl)
  define tab1 where "tab1 = (case ev_pairs ev of None \<Rightarrow> tab | Some ps \<Rightarrow> seed_structural cfg ?present (ev_ts ev) ps tab)"
  have m: "mid_table cfg ?present tab" by (rule wf_mid_table[OF tab])
  then have m1: "mid_table cfg ?present tab1" and k1: "kept tab tab1"
    using seed_structural_mid[OF cfg] seed kept_refl by (auto simp: tab1_def split: option.splits)
  have "kept tab1 (fold (confirm_edge cfg (ev_ts ev)) (ev_edges ev) tab1)" by (rule conf[OF m1])
  then show ?thesis using k1 kept_decay kept_trans
    unfolding observe_edges_def Let_def tab1_def[symmetric] by blast
qed

interpretation edges: monotone_machine "observe_step cfg" wf_table "\<lambda>_. sane_config cfg" kept for cfg
  by unfold_locales (auto simp: observe_step_def kept_refl kept_observe intro: kept_trans)

subsection \<open>One key at a time\<close>

text \<open>What each operation does to the row of one key; these equations carry the closed forms below.\<close>

lemma find_row_replace:
  "find_row k (replace_row r tab) = (if row_key r = k then Some r else find_row k tab)"
proof -
  have *: "find P (xs @ ys) = (case find P xs of None \<Rightarrow> find P ys | Some x \<Rightarrow> Some x)" for P :: "edge_row \<Rightarrow> bool" and xs ys
    by (induction xs) auto
  have "find_row k (filter (\<lambda>x. row_key x \<noteq> row_key r) tab) = (if row_key r = k then None else find_row k tab)"
    by (induction tab) (auto simp: find_row_def)
  then show ?thesis unfolding replace_row_def find_row_def by (simp add: * split: option.splits)
qed

lemma find_row_confirm:
  "find_row k (confirm_edge cfg ts e tab) =
     (if edge_key_of cfg e = k then Some (confirmed_row cfg ts e (find_row k tab)) else find_row k tab)"
  by (simp add: confirm_edge_def find_row_replace)

lemma find_row_map:
  "(\<And>r. row_key (f r) = row_key r) \<Longrightarrow> find_row k (map f tab) = map_option f (find_row k tab)"
  by (induction tab) (auto simp: find_row_def)

lemma find_row_decay:
  "find_row k (decay_absent_edges cfg seen present ts tab) = map_option
     (\<lambda>r. if m_signal r \<noteq> c_signal cfg then r else if row_key r \<in> seen then r
           else if m_src r \<notin> present \<or> m_dst r \<notin> present then r else decayed_row cfg ts r) (find_row k tab)"
  unfolding decay_absent_edges_def by (rule find_row_map) auto

lemma find_row_fold_confirm_other:
  "k \<notin> edge_key_of cfg ` set es \<Longrightarrow> find_row k (fold (confirm_edge cfg ts) es tab) = find_row k tab"
  by (induction es arbitrary: tab) (auto simp: find_row_confirm)

lemma find_row_fold_confirm:
  "filter (\<lambda>e. edge_key_of cfg e = k) es = [e] \<Longrightarrow>
   find_row k (fold (confirm_edge cfg ts) es tab) = Some (confirmed_row cfg ts e (find_row k tab))"
proof (induction es arbitrary: tab)
  case (Cons x es)
  show ?case
  proof (cases "edge_key_of cfg x = k")
    case True
    with Cons.prems have x: "x = e" and "filter (\<lambda>e. edge_key_of cfg e = k) es = []" by simp_all
    then have "k \<notin> edge_key_of cfg ` set es" by (auto simp: filter_empty_conv)
    then show ?thesis using True x by (simp add: find_row_fold_confirm_other find_row_confirm)
  next
    case False
    then show ?thesis using Cons by (simp add: find_row_confirm)
  qed
qed simp

lemma find_row_append_new: "row_key r \<noteq> k \<Longrightarrow> find_row k (tab @ [r]) = find_row k tab"
  by (induction tab) (auto simp: find_row_def)

lemma find_row_seed_other:
  assumes "\<not> (fst k \<in> present \<and> fst (snd k) \<in> present)"
  shows "find_row k (seed_structural cfg present ts ps tab) = find_row k tab"
proof -
  have "find_row k (seed_pair cfg present ts p t) = find_row k t" for p t
  proof (cases rule: seed_pair_cases[of cfg present ts p t])
    case (2 r)
    then have "row_key r \<noteq> k" using assms by (auto simp: row_key_def)
    then show ?thesis by (simp add: 2(1) find_row_append_new)
  next
    case (3 a b)
    then have ab: "(a, b, c_signal cfg) \<noteq> k" using assms by auto
    have "find_row k (update_row (a, b, c_signal cfg) f t) = find_row k t" if "\<And>r. row_key (f r) = row_key r" for f
      using ab that by (induction t) (auto simp: find_row_def update_row_def)
    then show ?thesis unfolding 3(1) by simp
  qed simp
  then show ?thesis unfolding seed_structural_def by (induction ps arbitrary: tab) simp_all
qed

lemma observe_confirms:
  assumes "ev_pairs ev = None" "filter (\<lambda>e. edge_key_of cfg e = k) (ev_edges ev) = [e]"
  shows "find_row k (observe_edges cfg ev tab) = Some (confirmed_row cfg (ev_ts ev) e (find_row k tab))"
proof -
  have k: "edge_key_of cfg e = k" "e \<in> set (ev_edges ev)"
    using arg_cong[OF assms(2), of set] by auto
  then show ?thesis
    using find_row_fold_confirm[OF assms(2)] by (auto simp: observe_edges_def Let_def assms(1) find_row_decay)
qed

lemma observe_keeps_seen:
  assumes "e \<in> set (ev_edges ev)"
  shows "find_row (edge_key_of cfg e) (observe_edges cfg ev tab) \<noteq> None"
proof -
  have "find_row (edge_key_of cfg e) (fold (confirm_edge cfg ts) es tab') \<noteq> None"
    if "e \<in> set es \<or> find_row (edge_key_of cfg e) tab' \<noteq> None" for es ts tab'
    using that by (induction es arbitrary: tab') (auto simp: find_row_confirm)
  then show ?thesis using assms by (simp add: observe_edges_def Let_def find_row_decay)
qed

lemma observe_decays:
  assumes "ev_pairs ev = None" "k \<notin> edge_key_of cfg ` set (ev_edges ev)"
    "fst k \<in> stable_workload ` ev_pods ev" "fst (snd k) \<in> stable_workload ` ev_pods ev" "snd (snd k) = c_signal cfg"
    "find_row k tab = Some r"
  shows "find_row k (observe_edges cfg ev tab) = Some (decayed_row cfg (ev_ts ev) r)"
proof -
  have "row_key r = k" using find_row_Some[OF assms(6)] by simp
  then have "m_src r = fst k" "m_dst r = fst (snd k)" "m_signal r = snd (snd k)" by (auto simp: row_key_def)
  then show ?thesis using assms \<open>row_key r = k\<close>
    by (simp add: observe_edges_def Let_def find_row_decay find_row_fold_confirm_other)
qed

lemma observe_ignores:
  assumes "k \<notin> edge_key_of cfg ` set (ev_edges ev)"
    "\<not> (fst k \<in> stable_workload ` ev_pods ev \<and> fst (snd k) \<in> stable_workload ` ev_pods ev)"
  shows "find_row k (observe_edges cfg ev tab) = find_row k tab"
proof -
  define tab1 where "tab1 = (case ev_pairs ev of None \<Rightarrow> tab
    | Some ps \<Rightarrow> seed_structural cfg (stable_workload ` ev_pods ev) (ev_ts ev) ps tab)"
  have t1: "find_row k tab1 = find_row k tab" using find_row_seed_other[OF assms(2)] by (auto simp: tab1_def split: option.splits)
  have "(if m_signal r \<noteq> c_signal cfg then r else if row_key r \<in> edge_key_of cfg ` set (ev_edges ev) then r
         else if m_src r \<notin> stable_workload ` ev_pods ev \<or> m_dst r \<notin> stable_workload ` ev_pods ev then r
         else decayed_row cfg (ev_ts ev) r) = r" if "find_row k tab = Some r" for r
    using find_row_Some[OF that] assms(2) by (auto simp: row_key_def)
  then show ?thesis
    using t1 by (cases "find_row k tab") (simp_all add: observe_edges_def Let_def tab1_def[symmetric]
        find_row_decay find_row_fold_confirm_other[OF assms(1)])
qed

lemma confirmed_floor:
  assumes cfg: "sane_config cfg" and mid: "mid_table cfg present tab"
  shows "\<forall>e \<in> set es. \<exists>r \<in> set (fold (confirm_edge cfg ts) es tab). row_key r = edge_key_of cfg e \<and>
    c_floor_frac cfg * m_conf r \<le> m_base r \<and> 0 < m_hits r"
proof (induction es rule: rev_induct)
  case (snoc x es)
  let ?t = "fold (confirm_edge cfg ts) es tab"
  let ?r = "confirmed_row cfg ts x (find_row (edge_key_of cfg x) ?t)"
  have last: "row_key ?r = edge_key_of cfg x \<and> c_floor_frac cfg * m_conf ?r \<le> m_base ?r \<and> 0 < m_hits ?r"
    by (cases "find_row (edge_key_of cfg x) ?t") (simp_all add: confirmed_row_def Let_def row_key_def edge_key_of_def)
  have mem: "r \<in> set (fold (confirm_edge cfg ts) (es @ [x]) tab) \<longleftrightarrow> r = ?r \<or> r \<in> set ?t \<and> row_key r \<noteq> edge_key_of cfg x" for r
    by (auto simp: confirm_edge_def set_replace_row)
  show ?case
  proof
    fix e assume "e \<in> set (es @ [x])"
    then consider "edge_key_of cfg e = edge_key_of cfg x" | "e \<in> set es" "edge_key_of cfg e \<noteq> edge_key_of cfg x" by auto
    then show "\<exists>r \<in> set (fold (confirm_edge cfg ts) (es @ [x]) tab). row_key r = edge_key_of cfg e \<and>
      c_floor_frac cfg * m_conf r \<le> m_base r \<and> 0 < m_hits r"
    proof cases
      case 1
      then show ?thesis using last mem by (intro bexI[of _ ?r]) auto
    next
      case 2
      then obtain r where "r \<in> set ?t" "row_key r = edge_key_of cfg e" "c_floor_frac cfg * m_conf r \<le> m_base r" "0 < m_hits r"
        using snoc.IH by blast
      then show ?thesis using 2(2) mem by (intro bexI[of _ r]) auto
    qed
  qed
qed simp

lemma observe_floor:
  assumes cfg: "sane_config cfg" and wf: "wf_table tab" and e: "e \<in> set (ev_edges ev)"
  shows "\<exists>r \<in> set (observe_edges cfg ev tab). row_key r = edge_key_of cfg e \<and>
    c_floor_frac cfg * m_conf r \<le> m_base r \<and> 0 < m_hits r"
proof -
  let ?present = "stable_workload ` ev_pods ev"
  define tab1 where "tab1 = (case ev_pairs ev of None \<Rightarrow> tab | Some ps \<Rightarrow> seed_structural cfg ?present (ev_ts ev) ps tab)"
  have "mid_table cfg ?present tab1"
    using wf_mid_table[OF wf] by (auto simp: tab1_def intro: seed_structural_mid[OF cfg] split: option.splits)
  then obtain r where r: "r \<in> set (fold (confirm_edge cfg (ev_ts ev)) (ev_edges ev) tab1)"
    "row_key r = edge_key_of cfg e" "c_floor_frac cfg * m_conf r \<le> m_base r" "0 < m_hits r"
    using confirmed_floor[OF cfg] e by blast
  moreover have "row_key r \<in> edge_key_of cfg ` set (ev_edges ev)" using r(2) e by auto
  ultimately have "r \<in> set (observe_edges cfg ev tab)"
    unfolding observe_edges_def Let_def tab1_def[symmetric] decay_absent_edges_def set_map
    by (intro image_eqI[of _ _ r]) simp_all
  then show ?thesis using r by blast
qed

lemma wf_table_Nil [simp]: "wf_table []"
  by (simp add: wf_table_def)

subsection \<open>Properties\<close>

text \<open>
  C15. The edge memory stays well formed over every sequence of passes, whatever edges, pods and
  witnessed pairs they bring: one row per (source, target, signal), the confidence between the learned
  base and 1, the base positive, and the state in step with the visibility flag.
\<close>

theorem memory_invariant:
  assumes "sane_config cfg" and "run (observe_step cfg) [] evs tab"
  shows "distinct (map row_key tab) \<and> (\<forall>r \<in> set tab. 0 < m_base r \<and> m_base r \<le> m_conf r \<and> m_conf r \<le> 1 \<and>
    (m_state r \<in> {Active, Decaying} \<longrightarrow> m_visible r) \<and> (m_state r \<in> {Confirming, Hidden} \<longrightarrow> \<not> m_visible r))"
proof -
  have "wf_table tab" using edges.run_inv[OF assms(2)] assms(1) by simp
  then show ?thesis by (auto simp: wf_table_def wf_row_def state_ok_def)
qed

definition sighting :: "real \<Rightarrow> pass_event" where
  "sighting t = \<lparr>ev_edges = [\<lparr>e_src = ''a-1-1'', e_dst = ''b-1-1'', e_r = 7/10, e_lag_s = 5, e_evidence = [''stat'']\<rparr>],
     ev_pods = {''a-1-1'', ''b-1-1''}, ev_pairs = None, ev_ts = t\<rparr>"

lemma run_observe: "run (observe_step cfg) tab evs tab' \<longleftrightarrow> tab' = fold (observe_edges cfg) evs tab"
  by (induction evs arbitrary: tab) (auto simp: run_Cons_iff observe_step_def)

theorem memory_invariant_witness:
  "distinct (map row_key (observe_edges default_config (sighting 0) []))"
proof -
  have "run (observe_step default_config) [] [sighting 0] (observe_edges default_config (sighting 0) [])"
    by (simp add: run_observe)
  from memory_invariant[OF sane_default this] show ?thesis by blast
qed

text \<open>
  C38. What was seen once is never forgotten: after any pass that reports an edge, its row carries a
  confidence \<open>c\<close>, and after every later sequence of passes the row of the same key still exists, with
  its first sighting, at least as many hits, and a confidence of at least \<open>floor_frac\<close> times \<open>c\<close>.
\<close>

theorem confidence_floor:
  assumes "sane_config cfg" and "run (observe_step cfg) [] evs tab" and "e \<in> set (ev_edges ev)"
    and "run (observe_step cfg) (observe_edges cfg ev tab) evs' tab'"
  shows "\<exists>r \<in> set (observe_edges cfg ev tab). \<exists>r' \<in> set tab'. row_key r = edge_key_of cfg e \<and>
    row_key r' = edge_key_of cfg e \<and> c_floor_frac cfg * m_conf r \<le> m_conf r' \<and>
    m_hits r \<le> m_hits r' \<and> m_first_ts r' = m_first_ts r"
proof -
  have wf: "wf_table tab" using edges.run_inv[OF assms(2)] assms(1) by simp
  have wf1: "wf_table (observe_edges cfg ev tab)" by (rule observe_edges_wf[OF assms(1) wf])
  have wf2: "wf_table tab'" using edges.run_inv[OF assms(4) wf1] assms(1) by simp
  obtain r where r: "r \<in> set (observe_edges cfg ev tab)" "row_key r = edge_key_of cfg e"
    "c_floor_frac cfg * m_conf r \<le> m_base r" using observe_floor[OF assms(1) wf assms(3)] by blast
  have "kept (observe_edges cfg ev tab) tab'" using edges.run_rel[OF assms(4) wf1] assms(1) by simp
  then obtain r' where r': "r' \<in> set tab'" "row_key r' = row_key r" "m_base r \<le> m_base r'" "m_hits r \<le> m_hits r'"
    "m_first_ts r' = m_first_ts r" using r(1) unfolding kept_def by blast
  have "m_base r' \<le> m_conf r'" using wf2 r'(1) by (auto simp: wf_table_def wf_row_def)
  then show ?thesis using r r' by (intro bexI[of _ r] bexI[of _ r']) auto
qed

theorem confidence_floor_witness:
  "\<exists>r \<in> set (observe_edges default_config (sighting 0) []). \<exists>r' \<in> set (observe_edges default_config (sighting 0) []).
     4/10 * m_conf r \<le> m_conf r'"
proof -
  have "run (observe_step default_config) [] [] []" by simp
  moreover have "\<lparr>e_src = ''a-1-1'', e_dst = ''b-1-1'', e_r = 7/10, e_lag_s = 5, e_evidence = [''stat'']\<rparr>
      \<in> set (ev_edges (sighting 0))" by (simp add: sighting_def)
  moreover have "run (observe_step default_config) (observe_edges default_config (sighting 0) []) []
      (observe_edges default_config (sighting 0) [])" by simp
  moreover have "c_floor_frac default_config = 4/10" by (simp add: default_config_def)
  ultimately show ?thesis using confidence_floor[OF sane_default] by metis
qed

text \<open>
  Confidence grows geometrically and visibility is a matter of the number of sightings: when an
  edge is reported once in each of \<open>n > 0\<close> consecutive passes (beside any other edges, the table being
  empty at first), its row has \<open>n\<close> hits and confidence \<open>1 - (1 - alpha) ^ n\<close>, and it is visible
  exactly when this reaches the \<open>show\<close> threshold.
\<close>

theorem sightings_closed_form:
  assumes "0 \<le> c_alpha cfg" and "c_alpha cfg \<le> 1" and "run (observe_step cfg) [] evs tab" and "evs \<noteq> []"
    and "\<And>ev. ev \<in> set evs \<Longrightarrow> ev_pairs ev = None \<and>
      (\<exists>e. filter (\<lambda>e. edge_key_of cfg e = k) (ev_edges ev) = [e])"
  shows "\<exists>r. find_row k tab = Some r \<and> m_hits r = length evs \<and>
    m_conf r = 1 - (1 - c_alpha cfg) ^ length evs \<and>
    (m_visible r \<longleftrightarrow> c_show cfg \<le> 1 - (1 - c_alpha cfg) ^ length evs)"
  using assms(3-5)
proof (induction evs arbitrary: tab rule: rev_induct)
  case (snoc ev evs)
  let ?q = "1 - c_alpha cfg"
  let ?t = "fold (observe_edges cfg) evs []"
  have tab: "tab = observe_edges cfg ev ?t" using snoc.prems(1) by (simp add: run_observe)
  obtain e where e: "filter (\<lambda>e. edge_key_of cfg e = k) (ev_edges ev) = [e]" and n: "ev_pairs ev = None"
    using snoc.prems(3)[of ev] by auto
  have new: "find_row k tab = Some (confirmed_row cfg (ev_ts ev) e (find_row k ?t))"
    unfolding tab by (rule observe_confirms[OF n e])
  show ?case
  proof (cases "evs = []")
    case True
    then have "find_row k ?t = None" by (simp add: find_row_def)
    then show ?thesis using new True by (simp add: confirmed_row_new)
  next
    case False
    have "run (observe_step cfg) [] evs ?t" by (simp add: run_observe)
    from snoc.IH[OF this False] snoc.prems(3) obtain r where r: "find_row k ?t = Some r"
      "m_hits r = length evs" "m_conf r = 1 - ?q ^ length evs" "m_visible r \<longleftrightarrow> c_show cfg \<le> 1 - ?q ^ length evs" by auto
    have conf: "m_conf r + c_alpha cfg * (1 - m_conf r) = 1 - ?q ^ Suc (length evs)"
      by (simp add: r(3) algebra_simps)
    have "?q ^ Suc (length evs) \<le> ?q ^ length evs"
      using assms(1,2) by (intro power_decreasing) auto
    then show ?thesis using new r conf by (auto simp: confirmed_row_old)
  qed
qed simp

theorem sightings_closed_form_witness:
  "\<exists>r. find_row (''a'', ''b'', ''psi_io'') (fold (observe_edges default_config) [sighting 0, sighting 10] []) = Some r \<and>
     m_hits r = 2 \<and> m_conf r = 64/100 \<and> m_visible r"
proof -
  have k: "edge_key_of default_config \<lparr>e_src = ''a-1-1'', e_dst = ''b-1-1'', e_r = 7/10, e_lag_s = 5, e_evidence = [''stat'']\<rparr>
      = (''a'', ''b'', ''psi_io'')" by code_simp
  have "run (observe_step default_config) [] [sighting 0, sighting 10]
      (fold (observe_edges default_config) [sighting 0, sighting 10] [])" by (simp add: run_observe)
  moreover have "ev_pairs ev = None \<and>
      (\<exists>e. filter (\<lambda>e. edge_key_of default_config e = (''a'', ''b'', ''psi_io'')) (ev_edges ev) = [e])"
    if "ev \<in> set [sighting 0, sighting 10]" for ev using that k by (auto simp: sighting_def)
  moreover have "0 \<le> c_alpha default_config" "c_alpha default_config \<le> 1" by (simp_all add: default_config_def)
  ultimately have "\<exists>r. find_row (''a'', ''b'', ''psi_io'') (fold (observe_edges default_config) [sighting 0, sighting 10] []) = Some r \<and>
     m_hits r = length [sighting 0, sighting 10] \<and> m_conf r = 1 - (1 - c_alpha default_config) ^ length [sighting 0, sighting 10] \<and>
    (m_visible r \<longleftrightarrow> c_show default_config \<le> 1 - (1 - c_alpha default_config) ^ length [sighting 0, sighting 10])"
    by (intro sightings_closed_form) simp_all
  moreover have "1 - (1 - c_alpha default_config) ^ 2 = 64/100" "c_show default_config \<le> 64/100"
    by (simp_all add: default_config_def power2_eq_square)
  ultimately show ?thesis by (auto simp: numeral_2_eq_2)
qed

text \<open>
  An absent edge fades to its learned base and no further, and only while both of its workloads
  are running: over \<open>n\<close> passes that run both and do not report the edge, the confidence \<open>c\<close> becomes
  the larger of the base and \<open>c * (1 - decay) ^ n\<close>.
\<close>

theorem fading_closed_form:
  assumes "0 \<le> c_decay cfg" and "c_decay cfg \<le> 1" and "find_row k tab = Some r" and "0 \<le> m_base r"
    and "m_base r \<le> m_conf r" and "snd (snd k) = c_signal cfg" and "run (observe_step cfg) tab evs tab'"
    and "\<And>ev. ev \<in> set evs \<Longrightarrow> ev_pairs ev = None \<and> k \<notin> edge_key_of cfg ` set (ev_edges ev) \<and>
      {fst k, fst (snd k)} \<subseteq> stable_workload ` ev_pods ev"
  shows "\<exists>r'. find_row k tab' = Some r' \<and> m_conf r' = max (m_base r) (m_conf r * (1 - c_decay cfg) ^ length evs) \<and>
    m_base r' = m_base r \<and> m_hits r' = m_hits r"
  using assms(7,8)
proof (induction evs arbitrary: tab' rule: rev_induct)
  case Nil
  then show ?case using assms(3,5) by (simp add: run_observe max_def)
next
  case (snoc ev evs)
  let ?q = "1 - c_decay cfg"
  let ?t = "fold (observe_edges cfg) evs tab"
  have tab': "tab' = observe_edges cfg ev ?t" using snoc.prems(1) by (simp add: run_observe)
  have "run (observe_step cfg) tab evs ?t" by (simp add: run_observe)
  from snoc.IH[OF this] snoc.prems(2) obtain x where x: "find_row k ?t = Some x"
    "m_conf x = max (m_base r) (m_conf r * ?q ^ length evs)" "m_base x = m_base r" "m_hits x = m_hits r" by auto
  have ev: "ev_pairs ev = None" "k \<notin> edge_key_of cfg ` set (ev_edges ev)"
    "fst k \<in> stable_workload ` ev_pods ev" "fst (snd k) \<in> stable_workload ` ev_pods ev"
    using snoc.prems(2)[of ev] by auto
  have "m_base r * ?q \<le> m_base r" using assms(1,2,4) by (intro mult_right_le_one_le) auto
  moreover have "max (m_base r) (m_conf r * ?q ^ length evs) * ?q
      = max (m_base r * ?q) (m_conf r * ?q ^ length evs * ?q)"
    using assms(2) by (simp add: max_mult_distrib_right)
  ultimately have "max (m_base r) (max (m_base r) (m_conf r * ?q ^ length evs) * ?q)
      = max (m_base r) (m_conf r * ?q ^ Suc (length evs))" by (simp add: mult.assoc mult.commute[of ?q] max_def)
  then show ?case using observe_decays[OF ev(1,2,3,4) assms(6) x(1)] x(2-4) unfolding tab'
    by (intro exI[of _ "decayed_row cfg (ev_ts ev) x"]) simp
qed

definition pause :: "pod set \<Rightarrow> real \<Rightarrow> pass_event" where
  "pause pods t = \<lparr>ev_edges = [], ev_pods = pods, ev_pairs = None, ev_ts = t\<rparr>"

definition some_row :: edge_row where
  "some_row = \<lparr>m_src = ''a'', m_dst = ''b'', m_signal = ''psi_io'', m_conf = 8/10, m_r = 7/10, m_lag_s = 5,
     m_evidence = [''stat''], m_hits = 3, m_visible = True, m_state = Active, m_first_ts = 0, m_last_ts = 0,
     m_updated_ts = 0, m_base = 32/100\<rparr>"

lemma some_row_find: "find_row (''a'', ''b'', ''psi_io'') [some_row] = Some some_row"
  by (simp add: find_row_def row_key_def some_row_def)

lemma some_row_wf: "wf_table [some_row]"
  by (simp add: wf_table_def wf_row_def state_ok_def some_row_def)

theorem fading_closed_form_witness:
  "\<exists>r'. find_row (''a'', ''b'', ''psi_io'') (observe_edges default_config (pause {''a-1-1'', ''b-1-1''} 9) [some_row]) = Some r' \<and>
     m_conf r' = 72/100"
proof -
  have st: "stable_workload ''a-1-1'' = ''a''" "stable_workload ''b-1-1'' = ''b''" by code_simp+
  have r: "run (observe_step default_config) [some_row] [pause {''a-1-1'', ''b-1-1''} 9]
      (observe_edges default_config (pause {''a-1-1'', ''b-1-1''} 9) [some_row])" by (simp add: run_observe)
  have ev: "ev_pairs ev = None \<and> (''a'', ''b'', ''psi_io'') \<notin> edge_key_of default_config ` set (ev_edges ev) \<and>
      {fst (''a'', ''b'', ''psi_io''), fst (snd (''a'', ''b'', ''psi_io''))} \<subseteq> stable_workload ` ev_pods ev"
    if "ev \<in> set [pause {''a-1-1'', ''b-1-1''} 9]" for ev
  proof -
    have "ev_pods ev = {''a-1-1'', ''b-1-1''}" "ev_edges ev = []" "ev_pairs ev = None" using that by (simp_all add: pause_def)
    then show ?thesis by (simp add: st)
  qed
  have p: "0 \<le> c_decay default_config" "c_decay default_config \<le> 1" "0 \<le> m_base some_row"
    "m_base some_row \<le> m_conf some_row" "snd (snd (''a'', ''b'', ''psi_io'')) = c_signal default_config"
    by (simp_all add: default_config_def some_row_def)
  have "max (m_base some_row) (m_conf some_row * (1 - c_decay default_config) ^ length [pause {''a-1-1'', ''b-1-1''} 9]) = 72/100"
    by (simp add: default_config_def some_row_def)
  then show ?thesis using fading_closed_form[OF p(1,2) some_row_find p(3-5) r ev] by metis
qed

text \<open>
  A stopped workload freezes its edges: as long as one end point of an edge is not among the
  running workloads and no reported edge has its key, every pass leaves its row exactly as it is,
  whatever else it reports or seeds.
\<close>

theorem stopped_workload_frozen:
  assumes "run (observe_step cfg) tab evs tab'"
    and "\<And>ev. ev \<in> set evs \<Longrightarrow> k \<notin> edge_key_of cfg ` set (ev_edges ev) \<and>
      \<not> {fst k, fst (snd k)} \<subseteq> stable_workload ` ev_pods ev"
  shows "find_row k tab' = find_row k tab"
  using assms
proof (induction evs arbitrary: tab)
  case (Cons ev evs)
  have "find_row k (observe_edges cfg ev tab) = find_row k tab"
    by (rule observe_ignores) (use Cons.prems(2)[of ev] in auto)
  moreover have "run (observe_step cfg) (observe_edges cfg ev tab) evs tab'"
    using Cons.prems(1) by (simp add: run_observe)
  ultimately show ?case using Cons.IH Cons.prems(2) by simp
qed simp

theorem stopped_workload_frozen_witness:
  "find_row (''a'', ''b'', ''psi_io'') (observe_edges default_config (pause {''a-1-1''} 9) [some_row]) = Some some_row"
proof -
  have st: "stable_workload ''a-1-1'' = ''a''" by code_simp
  have "run (observe_step default_config) [some_row] [pause {''a-1-1''} 9]
      (observe_edges default_config (pause {''a-1-1''} 9) [some_row])" by (simp add: run_observe)
  from stopped_workload_frozen[OF this, of "(''a'', ''b'', ''psi_io'')"] show ?thesis
    by (simp add: some_row_find pause_def st)
qed

definition locked :: "mem_config \<Rightarrow> edge_key \<Rightarrow> edge_table \<Rightarrow> bool" where
  "locked cfg k tab \<longleftrightarrow> (\<exists>r \<in> set tab. row_key r = k \<and> m_visible r \<and> c_hide cfg \<le> m_base r)"

lemma locked_iff:
  assumes "distinct (map row_key tab)"
  shows "locked cfg k tab \<longleftrightarrow> (\<exists>r. find_row k tab = Some r \<and> m_visible r \<and> c_hide cfg \<le> m_base r)"
  unfolding locked_def using find_row_unique[OF assms] find_row_Some[of k tab] by metis

lemma locked_seed_pair:
  assumes cfg: "sane_config cfg" and tab: "mid_table cfg present tab" and l: "locked cfg k tab"
  shows "locked cfg k (seed_pair cfg present ts pair tab)"
proof (cases rule: seed_pair_cases[of cfg present ts pair tab])
  case (3 a b)
  obtain r where r: "r \<in> set tab" "row_key r = k" "m_visible r" "c_hide cfg \<le> m_base r"
    using l by (auto simp: locked_def)
  let ?f = "\<lambda>r. if row_key r = (a, b, c_signal cfg) then r\<lparr>m_base := c_prior cfg\<rparr> else r"
  have d: "distinct (map row_key tab)" using tab by (simp add: mid_table_def)
  have "m_base r \<le> m_base (?f r)"
    using 3(4) find_row_unique[OF d r(1)] by auto
  then have "row_key (?f r) = k \<and> m_visible (?f r) \<and> c_hide cfg \<le> m_base (?f r)" using r by auto
  moreover have "?f r \<in> set (seed_pair cfg present ts pair tab)" using r(1) by (auto simp: 3(1) update_row_def)
  ultimately show ?thesis unfolding locked_def by blast
qed (use l in \<open>auto simp: locked_def\<close>)

lemma locked_confirm:
  assumes tab: "mid_table cfg present tab" and l: "locked cfg k tab"
  shows "locked cfg k (confirm_edge cfg ts e tab)"
proof -
  have d: "distinct (map row_key tab)" using tab by (simp add: mid_table_def)
  then have d': "distinct (map row_key (confirm_edge cfg ts e tab))" by (simp add: confirm_edge_def distinct_replace_row)
  obtain r where "find_row k tab = Some r" "m_visible r" "c_hide cfg \<le> m_base r" using l locked_iff[OF d] by blast
  then show ?thesis unfolding locked_iff[OF d'] by (auto simp: find_row_confirm confirmed_row_old)
qed

lemma locked_observe:
  assumes cfg: "sane_config cfg" and wf: "wf_table tab" and l: "locked cfg k tab"
  shows "locked cfg k (observe_edges cfg ev tab)"
proof -
  let ?present = "stable_workload ` ev_pods ev"
  define tab1 where "tab1 = (case ev_pairs ev of None \<Rightarrow> tab | Some ps \<Rightarrow> seed_structural cfg ?present (ev_ts ev) ps tab)"
  define tab2 where "tab2 = fold (confirm_edge cfg (ev_ts ev)) (ev_edges ev) tab1"
  have seed: "mid_table cfg ?present t \<Longrightarrow> locked cfg k t \<Longrightarrow> locked cfg k (fold (seed_pair cfg ?present ts) ps t)" for ts ps t
    by (induction ps arbitrary: t) (auto intro: locked_seed_pair[OF cfg] seed_pair_mid[OF cfg])
  have conf: "mid_table cfg ?present t \<Longrightarrow> locked cfg k t \<Longrightarrow>
      mid_table cfg ?present (fold (confirm_edge cfg ts) es t) \<and> locked cfg k (fold (confirm_edge cfg ts) es t)" for ts es t
    by (induction es arbitrary: t) (auto intro: locked_confirm confirm_edge_mid[OF cfg])
  have m: "mid_table cfg ?present tab" by (rule wf_mid_table[OF wf])
  have "mid_table cfg ?present tab1 \<and> locked cfg k tab1"
    using m l seed seed_structural_mid[OF cfg] by (auto simp: tab1_def seed_structural_def split: option.splits)
  then have "locked cfg k tab2" using conf by (simp add: tab2_def)
  then obtain r where r: "r \<in> set tab2" "row_key r = k" "m_visible r" "c_hide cfg \<le> m_base r" by (auto simp: locked_def)
  let ?d = "\<lambda>r. if m_signal r \<noteq> c_signal cfg then r else if row_key r \<in> edge_key_of cfg ` set (ev_edges ev) then r
      else if m_src r \<notin> ?present \<or> m_dst r \<notin> ?present then r else decayed_row cfg (ev_ts ev) r"
  have "row_key (?d r) = k" using r(2) by simp
  moreover have "m_visible (?d r)" using r(3,4) by (simp add: decayed_row_def Let_def le_max_iff_disj)
  moreover have "c_hide cfg \<le> m_base (?d r)" using r(4) by simp
  moreover have "?d r \<in> set (observe_edges cfg ev tab)"
    using r(1) by (auto simp: observe_edges_def Let_def tab1_def[symmetric] tab2_def[symmetric] decay_absent_edges_def)
  ultimately show ?thesis unfolding locked_def by blast
qed

interpretation lock: invariant_machine "observe_step cfg" "\<lambda>tab. wf_table tab \<and> locked cfg k tab" "\<lambda>_. sane_config cfg" for cfg k
  by unfold_locales (auto simp: observe_step_def locked_observe observe_edges_wf)

text \<open>
  The \<open>hide\<close> threshold cannot fire once the learned base has reached it: a visible row whose base
  is at least \<open>hide\<close> stays visible over every sequence of passes.  With the deployed parameters two
  sightings of a new edge in consecutive passes suffice (its base is then \<open>0.256\<close>, \<open>hide\<close> is \<open>0.25\<close>).
\<close>

theorem hide_cannot_fire:
  assumes "sane_config cfg" and "wf_table tab" and "locked cfg k tab" and "run (observe_step cfg) tab evs tab'"
  shows "\<exists>r \<in> set tab'. row_key r = k \<and> m_visible r \<and> c_hide cfg \<le> m_conf r"
proof -
  have "wf_table tab' \<and> locked cfg k tab'" using lock.run_inv[OF assms(4)] assms(1-3) by simp
  then show ?thesis by (fastforce simp: locked_def wf_table_def wf_row_def)
qed

text \<open>Two sightings of a new edge lock it.\<close>

theorem hide_cannot_fire_witness:
  "\<exists>r \<in> set (observe_edges default_config (pause {''a-1-1'', ''b-1-1''} 30)
       (fold (observe_edges default_config) [sighting 0, sighting 10] [])). m_visible r \<and> 25/100 \<le> m_conf r"
proof -
  let ?tab = "fold (observe_edges default_config) [sighting 0, sighting 10] []"
  have "run (observe_step default_config) [] [sighting 0, sighting 10] ?tab" by (simp add: run_observe)
  from edges.run_inv[OF this wf_table_Nil] have wf: "wf_table ?tab" using sane_default by simp
  have "list_ex (\<lambda>r. row_key r = (''a'', ''b'', ''psi_io'') \<and> m_visible r \<and> c_hide default_config \<le> m_base r) ?tab"
    by code_simp
  then have l: "locked default_config (''a'', ''b'', ''psi_io'') ?tab" by (auto simp: locked_def list_ex_iff)
  have "run (observe_step default_config) ?tab [pause {''a-1-1'', ''b-1-1''} 30]
      (observe_edges default_config (pause {''a-1-1'', ''b-1-1''} 30) ?tab)" by (simp add: run_observe)
  from hide_cannot_fire[OF sane_default wf l this] show ?thesis by (auto simp: default_config_def)
qed

end
