(* ===== verification/Render.thy ===== *)
theory Render
  imports EdgeMemory Pipeline
begin

text \<open>
  The rendering of the graph of a pass against the edge memory: \<open>_render\<close> of
  \<open>correlation/engine/state.py\<close>.  Live edges keep their pods and are enriched from their row;
  remembered edges are drawn between the pods that run now, one per pair of workloads; and when there
  are findings the ranking and the blast radius are computed again on all of them.  An edge of the
  output is an \<open>edge\<close> with the fields the memory adds, so the graph functions of \<open>ranking.py\<close> apply
  to it as they are.
\<close>

datatype edge_source = Live | FromMemory

record mem_info =
  mi_conf :: real
  mi_weight :: real
  mi_base :: "real option"
  mi_state :: edge_state
  mi_hits :: nat
  mi_last_seen_s :: "real option"
  mi_source :: edge_source

record rendered_edge = edge +
  x_mem :: "mem_info option"

record rendered =
  g_findings :: "finding list"
  g_edges :: "rendered_edge list"
  g_ranking :: "cause list"
  g_blast :: "victim list"
  g_held :: nat
  g_pods :: nat
  g_active :: nat
  g_accepted :: nat

definition round1 :: "real \<Rightarrow> real" where
  "round1 x = of_int (py_round (x * 10)) / 10"

definition wl_pod :: "'v pdict \<Rightarrow> pod pdict" where
  "wl_pod vectors = fold (\<lambda>pv d. AList.update (stable_workload (fst pv)) (fst pv) d) vectors []"

definition live_edge :: "mem_config \<Rightarrow> edge_table \<Rightarrow> edge \<Rightarrow> rendered_edge" where
  "live_edge cfg tab e =
     \<lparr>e_src = e_src e, e_dst = e_dst e, e_r = e_r e, e_lag_s = e_lag_s e, e_evidence = e_evidence e,
      x_mem = (case find_row (edge_key_of cfg e) tab of None \<Rightarrow> None
        | Some r \<Rightarrow> Some \<lparr>mi_conf = round3 (m_conf r), mi_weight = round3 (m_conf r), mi_base = None,
            mi_state = m_state r, mi_hits = m_hits r, mi_last_seen_s = None, mi_source = Live\<rparr>)\<rparr>"

definition wl_pair :: "'a edge_scheme \<Rightarrow> string set" where
  "wl_pair e = {stable_workload (e_src e), stable_workload (e_dst e)}"

definition row_pair :: "edge_row \<Rightarrow> string set" where
  "row_pair r = {m_src r, m_dst r}"

definition shown :: "mem_config \<Rightarrow> edge_row \<Rightarrow> bool" where
  "shown cfg r \<longleftrightarrow> m_signal r = c_signal cfg \<and> (m_visible r \<or> m_base r > 0)"

text \<open>One iteration of the loop that keeps the strongest row of each pair: lines 430 to 435.\<close>

definition hold_row :: "string set set \<Rightarrow> edge_row \<Rightarrow> (string set \<times> edge_row) list \<Rightarrow> (string set \<times> edge_row) list" where
  "hold_row live r acc = (let pair = row_pair r in
     if pair \<in> live then acc
     else case map_of acc pair of
         None \<Rightarrow> AList.update pair r acc
       | Some b \<Rightarrow> if m_conf r > m_conf b then AList.update pair r acc else acc)"

definition held_edge :: "real \<Rightarrow> pod pdict \<Rightarrow> edge_row \<Rightarrow> rendered_edge option" where
  "held_edge now wls r = (case (map_of wls (m_src r), map_of wls (m_dst r)) of
     (Some s, Some d) \<Rightarrow> Some
       \<lparr>e_src = s, e_dst = d, e_r = round3 (m_r r), e_lag_s = m_lag_s r, e_evidence = m_evidence r,
        x_mem = Some \<lparr>mi_conf = round3 (m_conf r), mi_weight = round3 (m_conf r),
          mi_base = Some (round3 (m_base r)), mi_state = m_state r, mi_hits = m_hits r,
          mi_last_seen_s = Some (round1 (now - m_last_ts r)), mi_source = FromMemory\<rparr>\<rparr>
   | _ \<Rightarrow> None)"

definition held_edges :: "mem_config \<Rightarrow> real \<Rightarrow> pod pdict \<Rightarrow> edge list \<Rightarrow> edge_table \<Rightarrow> rendered_edge list" where
  "held_edges cfg now wls es tab =
     List.map_filter (held_edge now wls)
       (map snd (fold (hold_row (wl_pair ` set es)) (filter (shown cfg) tab) []))"

definition re_rank :: "'g nx \<Rightarrow> pass_result \<Rightarrow> rendered_edge list \<Rightarrow> (cause list \<times> victim list) res" where
  "re_rank nx graph edges =
     (if p_findings graph \<noteq> [] \<and> edges \<noteq> [] then
        let g = build_graph nx edges;
            onset_s = map_of (rev (map (\<lambda>f. (f_pod f, f_onset_s f)) (p_findings graph)))
        in rbind (rank_root_causes nx g (map f_pod (p_findings graph)) onset_s 3) (\<lambda>ranking.
           rbind (case ranking of [] \<Rightarrow> Inr [] | c # _ \<Rightarrow> blast_radius nx g (c_pod c)) (\<lambda>blast.
             Inr (ranking, blast)))
      else Inr (p_ranking graph, p_blast graph))"

definition render :: "'g nx \<Rightarrow> mem_config \<Rightarrow> real \<Rightarrow> 'v pdict option \<Rightarrow> pass_result \<Rightarrow> edge_table \<Rightarrow> rendered res" where
  "render nx cfg now vectors graph tab =
     (let wls = wl_pod (case vectors of None \<Rightarrow> [] | Some d \<Rightarrow> d);
          held = held_edges cfg now wls (p_edges graph) tab;
          edges = map (live_edge cfg tab) (p_edges graph) @ held
      in rbind (re_rank nx graph edges) (\<lambda>(ranking, blast).
           Inr \<lparr>g_findings = p_findings graph, g_edges = edges, g_ranking = ranking, g_blast = blast,
                g_held = length held, g_pods = p_pods graph, g_active = p_active graph,
                g_accepted = p_accepted graph\<rparr>))"

definition empty_pass :: pass_result where
  "empty_pass = \<lparr>p_findings = [], p_edges = [], p_ranking = [], p_blast = [], p_pods = 0, p_active = 0, p_accepted = 0\<rparr>"

definition bootstrap_graph :: "'g nx \<Rightarrow> mem_config \<Rightarrow> real \<Rightarrow> edge_table \<Rightarrow> rendered res" where
  "bootstrap_graph nx cfg now tab = render nx cfg now (None :: unit pdict option) empty_pass tab"

subsection \<open>The parts\<close>

lemma wl_pod_snoc:
  "map_of (wl_pod (vectors @ [x])) = (map_of (wl_pod vectors))(stable_workload (fst x) \<mapsto> fst x)"
  by (simp add: wl_pod_def dict_simps)

lemma map_of_wl_pod:
  "map_of (wl_pod vectors) w = Some p \<Longrightarrow> p \<in> fst ` set vectors \<and> stable_workload p = w"
proof (induction vectors rule: rev_induct)
  case (snoc x xs)
  show ?case
  proof (cases "stable_workload (fst x) = w")
    case True
    then show ?thesis using snoc.prems by (simp add: wl_pod_snoc)
  next
    case False
    then show ?thesis using snoc by (simp add: wl_pod_snoc)
  qed
qed (simp add: wl_pod_def)

lemma wl_pod_complete:
  "p \<in> fst ` set vectors \<Longrightarrow> \<exists>q. map_of (wl_pod vectors) (stable_workload p) = Some q"
proof (induction vectors rule: rev_induct)
  case (snoc x xs)
  then show ?case by (cases "stable_workload p = stable_workload (fst x)") (auto simp: wl_pod_snoc)
qed simp

lemma wl_pod_Nil [simp]: "wl_pod [] = []"
  by (simp add: wl_pod_def)

lemma live_edge_edge [simp]:
  "e_src (live_edge cfg tab e) = e_src e" "e_dst (live_edge cfg tab e) = e_dst e"
  "e_r (live_edge cfg tab e) = e_r e" "e_lag_s (live_edge cfg tab e) = e_lag_s e"
  "e_evidence (live_edge cfg tab e) = e_evidence e"
  by (simp_all add: live_edge_def)

lemma held_edge_Some:
  "held_edge now wls r = Some h \<longleftrightarrow> (\<exists>s d. map_of wls (m_src r) = Some s \<and> map_of wls (m_dst r) = Some d \<and>
     h = \<lparr>e_src = s, e_dst = d, e_r = round3 (m_r r), e_lag_s = m_lag_s r, e_evidence = m_evidence r,
        x_mem = Some \<lparr>mi_conf = round3 (m_conf r), mi_weight = round3 (m_conf r),
          mi_base = Some (round3 (m_base r)), mi_state = m_state r, mi_hits = m_hits r,
          mi_last_seen_s = Some (round1 (now - m_last_ts r)), mi_source = FromMemory\<rparr>\<rparr>)"
  by (cases "map_of wls (m_src r)"; cases "map_of wls (m_dst r)") (auto simp: held_edge_def)

lemma set_map_filter: "h \<in> set (List.map_filter f xs) \<longleftrightarrow> (\<exists>x \<in> set xs. f x = Some h)"
  by (induction xs) (auto simp: List.map_filter_simps split: option.splits)

lemma live_edge_mem: "find_row (edge_key_of cfg e) tab \<noteq> None \<Longrightarrow> x_mem (live_edge cfg tab e) \<noteq> None"
  by (auto simp: live_edge_def)

lemma held_edges_mem: "h \<in> set (held_edges cfg now wls es tab) \<Longrightarrow> x_mem h \<noteq> None"
  by (auto simp: held_edges_def set_map_filter held_edge_Some)

lemma held_edge_fields: "held_edge now wls r = Some h \<Longrightarrow> e_r h = round3 (m_r r) \<and> e_lag_s h = m_lag_s r"
  unfolding held_edge_Some by (elim exE conjE) simp

text \<open>What the loop over the rows holds: the strongest row of every pair that is not live.\<close>

definition holds :: "string set set \<Rightarrow> edge_row list \<Rightarrow> (string set \<times> edge_row) list \<Rightarrow> bool" where
  "holds live rows acc \<longleftrightarrow> distinct (map fst acc) \<and>
     (\<forall>(k, r) \<in> set acc. r \<in> set rows \<and> k = row_pair r \<and> k \<notin> live) \<and>
     (\<forall>r \<in> set rows. row_pair r \<notin> live \<longrightarrow> (\<exists>b. map_of acc (row_pair r) = Some b \<and> m_conf r \<le> m_conf b))"

lemma holds_step:
  assumes "holds live rows acc"
  shows "holds live (rows @ [r]) (hold_row live r acc)"
proof -
  have d: "distinct (map fst acc)" and el: "\<And>k x. (k, x) \<in> set acc \<Longrightarrow> x \<in> set rows \<and> k = row_pair x \<and> k \<notin> live"
    and all: "\<And>x. x \<in> set rows \<Longrightarrow> row_pair x \<notin> live \<Longrightarrow> \<exists>b. map_of acc (row_pair x) = Some b \<and> m_conf x \<le> m_conf b"
    using assms by (auto simp: holds_def)
  consider "row_pair r \<in> live" "hold_row live r acc = acc"
    | b where "row_pair r \<notin> live" "map_of acc (row_pair r) = Some b" "m_conf r \<le> m_conf b" "hold_row live r acc = acc"
    | "row_pair r \<notin> live" "\<forall>b. map_of acc (row_pair r) = Some b \<longrightarrow> m_conf b \<le> m_conf r"
      "hold_row live r acc = AList.update (row_pair r) r acc"
  proof (cases "row_pair r \<in> live")
    case True
    then show ?thesis using that(1) by (simp add: hold_row_def)
  next
    case False
    show ?thesis
    proof (cases "map_of acc (row_pair r)")
      case None
      then show ?thesis using False that(3) by (simp add: hold_row_def)
    next
      case (Some b)
      then show ?thesis using False that(2)[of b] that(3) by (cases "m_conf r > m_conf b") (simp_all add: hold_row_def)
    qed
  qed
  then show ?thesis
  proof cases
    case 3
    have "(k, x) \<in> set (AList.update (row_pair r) r acc) \<Longrightarrow> x \<in> set (rows @ [r]) \<and> k = row_pair x \<and> k \<notin> live" for k x
      using upd_in_setD[of k x "row_pair r" r acc] el 3(1) by auto
    moreover have "\<exists>b. map_of (AList.update (row_pair r) r acc) (row_pair x) = Some b \<and> m_conf x \<le> m_conf b"
      if x: "x \<in> set (rows @ [r])" "row_pair x \<notin> live" for x
    proof (cases "row_pair x = row_pair r")
      case True
      then show ?thesis using all[of x] x 3(2) by (auto simp: dict_simps)
    next
      case False
      then show ?thesis using all[of x] x by (auto simp: dict_simps)
    qed
    ultimately show ?thesis using d unfolding 3(3) holds_def by (auto simp: update_conv' distinct_update)
  qed (use assms in \<open>auto simp: holds_def\<close>)
qed

lemma holds_fold: "holds live rows (fold (hold_row live) rows [])"
proof (induction rows rule: rev_induct)
  case (snoc r rows)
  then show ?case using holds_step by simp
qed (simp add: holds_def)


lemma distinct_map_filter_keys:
  assumes "distinct (map fst acc)" "\<And>k r h. (k, r) \<in> set acc \<Longrightarrow> f r = Some h \<Longrightarrow> g h = k"
  shows "distinct (map g (List.map_filter f (map snd acc))) \<and> set (map g (List.map_filter f (map snd acc))) \<subseteq> fst ` set acc"
  using assms
proof (induction acc)
  case (Cons kr acc)
  obtain k r where kr: "kr = (k, r)" by (cases kr)
  have IH: "distinct (map g (List.map_filter f (map snd acc)))" "set (map g (List.map_filter f (map snd acc))) \<subseteq> fst ` set acc"
    using Cons.IH Cons.prems by auto
  show ?case
  proof (cases "f r")
    case None
    then show ?thesis using IH by (auto simp: kr List.map_filter_simps)
  next
    case (Some h)
    then have "g h = k" using Cons.prems(2)[of k r h] by (simp add: kr)
    then show ?thesis using IH Cons.prems(1) Some by (auto simp: kr List.map_filter_simps)
  qed
qed (simp add: List.map_filter_simps)

text \<open>What makes an edge of the output a remembered one.\<close>

definition remembers :: "mem_config \<Rightarrow> real \<Rightarrow> 'v pdict \<Rightarrow> edge list \<Rightarrow> edge_table \<Rightarrow> rendered_edge \<Rightarrow> edge_row \<Rightarrow> bool" where
  "remembers cfg now vectors es tab h r \<longleftrightarrow> r \<in> set tab \<and> shown cfg r \<and> row_pair r \<notin> wl_pair ` set es \<and>
     (\<forall>x \<in> set tab. shown cfg x \<and> row_pair x = row_pair r \<longrightarrow> m_conf x \<le> m_conf r) \<and>
     held_edge now (wl_pod vectors) r = Some h"

lemma remembersD:
  assumes "remembers cfg now vectors es tab h r"
  shows "r \<in> set tab" "shown cfg r" "row_pair r \<notin> wl_pair ` set es" "held_edge now (wl_pod vectors) r = Some h"
    "x \<in> set tab \<Longrightarrow> shown cfg x \<Longrightarrow> row_pair x = row_pair r \<Longrightarrow> m_conf x \<le> m_conf r"
  using assms unfolding remembers_def by blast+

lemma held_edge_pods:
  assumes "held_edge now (wl_pod vectors) r = Some h"
  shows "e_src h \<in> fst ` set vectors \<and> e_dst h \<in> fst ` set vectors \<and>
    stable_workload (e_src h) = m_src r \<and> stable_workload (e_dst h) = m_dst r"
proof -
  obtain s d where "map_of (wl_pod vectors) (m_src r) = Some s" "map_of (wl_pod vectors) (m_dst r) = Some d"
    "e_src h = s" "e_dst h = d" using assms unfolding held_edge_Some by auto
  with map_of_wl_pod[of vectors "m_src r" s] map_of_wl_pod[of vectors "m_dst r" d] show ?thesis by simp
qed

lemma held_pair: "held_edge now (wl_pod vectors) r = Some h \<Longrightarrow> wl_pair h = row_pair r"
  using held_edge_pods[of now vectors r h] by (simp add: wl_pair_def row_pair_def)

lemma held_edges_spec:
  fixes es tab cfg
  defines "live \<equiv> wl_pair ` set es" and "rows \<equiv> filter (shown cfg) tab"
  shows "\<forall>h \<in> set (held_edges cfg now (wl_pod vectors) es tab). \<exists>r. remembers cfg now vectors es tab h r"
    and "distinct (map wl_pair (held_edges cfg now (wl_pod vectors) es tab))"
    and "r \<in> set tab \<Longrightarrow> shown cfg r \<Longrightarrow> row_pair r \<notin> live \<Longrightarrow>
      row_pair r \<subseteq> stable_workload ` fst ` set vectors \<Longrightarrow>
      \<exists>h \<in> set (held_edges cfg now (wl_pod vectors) es tab). wl_pair h = row_pair r"
proof -
  let ?acc = "fold (hold_row live) rows []"
  have acc: "holds live rows ?acc" by (rule holds_fold)
  have held: "held_edges cfg now (wl_pod vectors) es tab = List.map_filter (held_edge now (wl_pod vectors)) (map snd ?acc)"
    by (simp add: held_edges_def live_def rows_def)
  have el: "x \<in> set rows \<and> k = row_pair x \<and> k \<notin> live" if "(k, x) \<in> set ?acc" for k x
    using acc that by (auto simp: holds_def)
  have dist: "distinct (map fst ?acc)" using acc by (simp add: holds_def)
  have all: "\<exists>b. map_of ?acc (row_pair x) = Some b \<and> m_conf x \<le> m_conf b" if "x \<in> set rows" "row_pair x \<notin> live" for x
    using acc that unfolding holds_def by blast
  show "\<forall>h \<in> set (held_edges cfg now (wl_pod vectors) es tab). \<exists>r. remembers cfg now vectors es tab h r"
  proof
    fix h assume "h \<in> set (held_edges cfg now (wl_pod vectors) es tab)"
    then obtain k b where kb: "(k, b) \<in> set ?acc" "held_edge now (wl_pod vectors) b = Some h"
      unfolding held set_map_filter by auto
    have b: "b \<in> set rows" "k = row_pair b" "row_pair b \<notin> live" using el[OF kb(1)] by auto
    have m: "map_of ?acc (row_pair b) = Some b" using kb(1) dist b(2) by simp
    have "m_conf x \<le> m_conf b" if "x \<in> set rows" "row_pair x = row_pair b" for x
      using all[OF that(1)] b(3) m that(2) by auto
    then show "\<exists>r. remembers cfg now vectors es tab h r" using b kb(2)
      by (intro exI[of _ b]) (auto simp: remembers_def rows_def live_def)
  qed
  have key: "wl_pair h = k" if "(k, x) \<in> set ?acc" "held_edge now (wl_pod vectors) x = Some h" for k x h
    using el[OF that(1)] held_pair[OF that(2)] by simp
  show "distinct (map wl_pair (held_edges cfg now (wl_pod vectors) es tab))"
    unfolding held by (rule conjunct1[OF distinct_map_filter_keys[OF dist]]) (rule key)
  assume r: "r \<in> set tab" "shown cfg r" "row_pair r \<notin> live" "row_pair r \<subseteq> stable_workload ` fst ` set vectors"
  then obtain b where b: "map_of ?acc (row_pair r) = Some b" using all[of r] by (auto simp: rows_def)
  have bin: "(row_pair r, b) \<in> set ?acc" by (rule map_of_SomeD[OF b])
  then have eq: "row_pair r = row_pair b" using el by blast
  then obtain ps pd where pods: "ps \<in> fst ` set vectors" "stable_workload ps = m_src b"
      "pd \<in> fst ` set vectors" "stable_workload pd = m_dst b"
    using r(4) unfolding row_pair_def by (metis (no_types, lifting) image_iff insert_subset)
  obtain s d where "map_of (wl_pod vectors) (m_src b) = Some s" "map_of (wl_pod vectors) (m_dst b) = Some d"
    using wl_pod_complete[OF pods(1)] wl_pod_complete[OF pods(3)] unfolding pods(2,4) by blast
  then obtain h where h: "held_edge now (wl_pod vectors) b = Some h" by (simp add: held_edge_def)
  then have "h \<in> set (held_edges cfg now (wl_pod vectors) es tab)"
    unfolding held set_map_filter using bin by (intro bexI[of _ b]) force+
  then show "\<exists>h \<in> set (held_edges cfg now (wl_pod vectors) es tab). wl_pair h = row_pair r"
    using held_pair[OF h] eq by (intro bexI[of _ h]) simp
qed

subsection \<open>Coefficients\<close>

text \<open>The remembered coefficients are those of accepted edges, so they stay in \<open>[-1, 1]\<close>.\<close>

definition unit_rows :: "edge_table \<Rightarrow> bool" where
  "unit_rows tab \<longleftrightarrow> (\<forall>r \<in> set tab. \<bar>m_r r\<bar> \<le> 1)"

lemma unit_rows_seed_pair: "unit_rows tab \<Longrightarrow> unit_rows (seed_pair cfg present ts pair tab)"
  by (cases rule: seed_pair_cases[of cfg present ts pair tab]) (auto simp: unit_rows_def update_row_def)

lemma unit_rows_fold: "(\<And>x t. x \<in> set xs \<Longrightarrow> unit_rows t \<Longrightarrow> unit_rows (f x t)) \<Longrightarrow> unit_rows tab \<Longrightarrow> unit_rows (fold f xs tab)"
  by (induction xs arbitrary: tab) auto

lemma unit_rows_confirm: "\<bar>e_r e\<bar> \<le> 1 \<Longrightarrow> unit_rows tab \<Longrightarrow> unit_rows (confirm_edge cfg ts e tab)"
  by (auto simp: unit_rows_def confirm_edge_def set_replace_row) (simp add: confirmed_row_def Let_def)

lemma unit_rows_observe:
  assumes "unit_rows tab" "\<And>e. e \<in> set (ev_edges ev) \<Longrightarrow> \<bar>e_r e\<bar> \<le> 1"
  shows "unit_rows (observe_edges cfg ev tab)"
proof -
  let ?present = "stable_workload ` ev_pods ev"
  define tab1 where "tab1 = (case ev_pairs ev of None \<Rightarrow> tab | Some ps \<Rightarrow> seed_structural cfg ?present (ev_ts ev) ps tab)"
  have "unit_rows tab1"
    using assms(1) by (auto simp: tab1_def seed_structural_def split: option.splits intro!: unit_rows_fold unit_rows_seed_pair)
  then have "unit_rows (fold (confirm_edge cfg (ev_ts ev)) (ev_edges ev) tab1)"
    using assms(2) by (intro unit_rows_fold unit_rows_confirm)
  moreover have "m_r (decayed_row cfg t r) = m_r r" for t r by (simp add: decayed_row_def Let_def)
  ultimately show ?thesis
    by (auto simp: observe_edges_def Let_def tab1_def[symmetric] decay_absent_edges_def unit_rows_def)
qed

interpretation coeffs: invariant_machine "observe_step cfg" unit_rows "\<lambda>ev. \<forall>e \<in> set (ev_edges ev). \<bar>e_r e\<bar> \<le> 1" for cfg
  by unfold_locales (auto simp: observe_step_def intro: unit_rows_observe)

lemma round3_unit: "\<bar>x\<bar> \<le> 1 \<Longrightarrow> \<bar>round3 x\<bar> \<le> 1"
  using round3_ge_milli[of "-1000" x] round3_le_1[of x] by (simp add: abs_le_iff)

lemma re_rank_total:
  assumes api: "digraph_api nx" and e: "\<And>e. e \<in> set edges \<Longrightarrow> \<bar>e_r e\<bar> \<le> 1"
  shows "\<exists>rk bl. re_rank nx graph edges = Inr (rk, bl)"
proof (cases "p_findings graph \<noteq> [] \<and> edges \<noteq> []")
  case True
  let ?g = "build_graph nx edges" and ?seeds = "map f_pod (p_findings graph)"
  let ?os = "map_of (rev (map (\<lambda>f. (f_pod f, f_onset_s f)) (p_findings graph)))"
  obtain rk where rk: "rank_root_causes nx ?g ?seeds ?os 3 = Inr rk" "\<forall>c \<in> set rk. c_pod c \<in> set (nx_nodes nx ?g)"
    using rank_sound[OF api e, of _ ?seeds ?os 3] by blast
  show ?thesis
  proof (cases rk)
    case Nil
    then show ?thesis using rk(1) True by (simp add: re_rank_def Let_def)
  next
    case (Cons c cs)
    have "c_pod c \<in> set (nx_nodes nx ?g)" using rk(2) Cons by simp
    from digraph_api.blast_radius_total[OF api digraph_api.build_graph_wf[OF api] this]
    obtain bl where "blast_radius nx ?g (c_pod c) = Inr bl" by blast
    then show ?thesis using rk(1) True Cons by (simp add: re_rank_def Let_def)
  qed
qed (auto simp: re_rank_def)


lemma render_stages:
  assumes api: "digraph_api nx" and unit: "unit_rows tab" and e: "\<And>e. e \<in> set (p_edges graph) \<Longrightarrow> \<bar>e_r e\<bar> \<le> 1"
  obtains g where "render nx cfg now (Some vectors) graph tab = Inr g" "g_findings g = p_findings graph"
    "g_edges g = map (live_edge cfg tab) (p_edges graph) @ held_edges cfg now (wl_pod vectors) (p_edges graph) tab"
    "g_held g = length (held_edges cfg now (wl_pod vectors) (p_edges graph) tab)"
    "re_rank nx graph (g_edges g) = Inr (g_ranking g, g_blast g)"
proof -
  let ?held = "held_edges cfg now (wl_pod vectors) (p_edges graph) tab"
  let ?edges = "map (live_edge cfg tab) (p_edges graph) @ ?held"
  have "\<bar>e_r h\<bar> \<le> 1" if "h \<in> set ?held" for h
  proof -
    obtain r where "remembers cfg now vectors (p_edges graph) tab h r"
      using held_edges_spec(1)[where es = "p_edges graph" and cfg = cfg and tab = tab] \<open>h \<in> set ?held\<close> by blast
    with remembersD(1,4) held_edge_fields have "r \<in> set tab" "e_r h = round3 (m_r r)" by blast+
    then show ?thesis using unit round3_unit by (simp add: unit_rows_def)
  qed
  then have "\<bar>e_r x\<bar> \<le> 1" if "x \<in> set ?edges" for x using that e by auto
  from re_rank_total[OF api this, where graph = graph] obtain rk bl where rb: "re_rank nx graph ?edges = Inr (rk, bl)" by blast
  show ?thesis
    by (rule that[of "\<lparr>g_findings = p_findings graph, g_edges = ?edges, g_ranking = rk, g_blast = bl, g_held = length ?held,
      g_pods = p_pods graph, g_active = p_active graph, g_accepted = p_accepted graph\<rparr>"])
      (simp_all add: render_def Let_def rb)
qed

lemma run_coeffs:
  assumes "run (observe_step cfg) [] evs tab" "\<And>ev e. ev \<in> set evs \<Longrightarrow> e \<in> set (ev_edges ev) \<Longrightarrow> \<bar>e_r e\<bar> \<le> 1"
  shows "unit_rows tab"
  using coeffs.run_inv[OF assms(1)] assms(2) by (simp add: unit_rows_def)

subsection \<open>Properties\<close>

text \<open>
  C11. The rendered graph, after every run of passes over correlated edges and for every new pass: it is
  always produced; it lists the live edges of the pass unchanged and in order, then the remembered
  ones.  A remembered edge joins two pods that run now, belongs to the strongest row of its pair of
  workloads, no two share a pair, and none repeats a pair that is live.  And it is complete: every row
  of the signal whose two workloads run and whose pair is not live is represented, whether its
  visibility flag is set or not.
\<close>

theorem render_faithful:
  assumes "digraph_api nx" and "sane_config cfg" and "run (observe_step cfg) [] evs tab"
    and "\<forall>ev \<in> set evs. \<forall>e \<in> set (ev_edges ev). \<bar>e_r e\<bar> \<le> 1"
    and "\<forall>e \<in> set (p_edges graph). \<bar>e_r e\<bar> \<le> 1"
  shows "\<exists>g held. render nx cfg now (Some vectors) graph tab = Inr g \<and> g_findings g = p_findings graph \<and>
    g_edges g = map (live_edge cfg tab) (p_edges graph) @ held \<and> g_held g = length held \<and>
    distinct (map wl_pair held) \<and>
    (\<forall>h \<in> set held. e_src h \<in> fst ` set vectors \<and> e_dst h \<in> fst ` set vectors \<and>
       wl_pair h \<notin> wl_pair ` set (p_edges graph) \<and>
       (\<exists>r \<in> set tab. m_signal r = c_signal cfg \<and> stable_workload (e_src h) = m_src r \<and>
          stable_workload (e_dst h) = m_dst r \<and> e_r h = round3 (m_r r) \<and> e_lag_s h = m_lag_s r \<and>
          (\<forall>x \<in> set tab. m_signal x = c_signal cfg \<and> row_pair x = row_pair r \<longrightarrow> m_conf x \<le> m_conf r))) \<and>
    (\<forall>r \<in> set tab. m_signal r = c_signal cfg \<and> row_pair r \<subseteq> stable_workload ` fst ` set vectors \<and>
       row_pair r \<notin> wl_pair ` set (p_edges graph) \<longrightarrow> (\<exists>h \<in> set held. wl_pair h = row_pair r))"
proof (rule render_stages[OF assms(1) run_coeffs[OF assms(3)] bspec[OF assms(5)], where cfg = cfg and now = now and vectors = vectors])
  show "\<And>ev e. ev \<in> set evs \<Longrightarrow> e \<in> set (ev_edges ev) \<Longrightarrow> \<bar>e_r e\<bar> \<le> 1" using assms(4) by blast
  fix g assume g: "render nx cfg now (Some vectors) graph tab = Inr g" "g_findings g = p_findings graph"
    "g_edges g = map (live_edge cfg tab) (p_edges graph) @ held_edges cfg now (wl_pod vectors) (p_edges graph) tab"
    "g_held g = length (held_edges cfg now (wl_pod vectors) (p_edges graph) tab)"
  let ?held = "held_edges cfg now (wl_pod vectors) (p_edges graph) tab"
  have "wf_table tab" using edges.run_inv[OF assms(3)] assms(2) by simp
  then have shown: "shown cfg r \<longleftrightarrow> m_signal r = c_signal cfg" if "r \<in> set tab" for r
    using that by (auto simp: shown_def wf_table_def wf_row_def)
  note spec = held_edges_spec[where es = "p_edges graph" and cfg = cfg and tab = tab and now = now and vectors = vectors]
  have row: "e_src h \<in> fst ` set vectors \<and> e_dst h \<in> fst ` set vectors \<and>
       wl_pair h \<notin> wl_pair ` set (p_edges graph) \<and>
       (\<exists>r \<in> set tab. m_signal r = c_signal cfg \<and> stable_workload (e_src h) = m_src r \<and>
          stable_workload (e_dst h) = m_dst r \<and> e_r h = round3 (m_r r) \<and> e_lag_s h = m_lag_s r \<and>
          (\<forall>x \<in> set tab. m_signal x = c_signal cfg \<and> row_pair x = row_pair r \<longrightarrow> m_conf x \<le> m_conf r))"
    if held: "h \<in> set ?held" for h
  proof -
    from bspec[OF spec(1) held] obtain r where r: "remembers cfg now vectors (p_edges graph) tab h r" ..
    note he = remembersD(4)[OF r] and rt = remembersD(1)[OF r]
    have sig: "m_signal r = c_signal cfg" using remembersD(2)[OF r] shown[OF rt] by blast
    have best: "m_conf x \<le> m_conf r" if "x \<in> set tab" "m_signal x = c_signal cfg" "row_pair x = row_pair r" for x
      by (rule remembersD(5)[OF r that(1) _ that(3)]) (simp add: shown that)
    have "wl_pair h \<notin> wl_pair ` set (p_edges graph)" unfolding held_pair[OF he] by (rule remembersD(3)[OF r])
    then show ?thesis using held_edge_pods[OF he] held_edge_fields[OF he] rt sig best by blast
  qed
  have complete: "\<exists>h \<in> set ?held. wl_pair h = row_pair r"
    if "r \<in> set tab" "m_signal r = c_signal cfg" "row_pair r \<subseteq> stable_workload ` fst ` set vectors"
      "row_pair r \<notin> wl_pair ` set (p_edges graph)" for r
    by (rule spec(3)[OF that(1) _ that(4,3)]) (simp add: shown that(1,2))
  show ?thesis
  proof (rule exI[of _ g], rule exI[of _ ?held], intro conjI)
    show "\<forall>r \<in> set tab. m_signal r = c_signal cfg \<and> row_pair r \<subseteq> stable_workload ` fst ` set vectors \<and>
       row_pair r \<notin> wl_pair ` set (p_edges graph) \<longrightarrow> (\<exists>h \<in> set ?held. wl_pair h = row_pair r)"
      by (intro ballI impI, elim conjE) (rule complete)
  qed (rule g spec(2) ballI row; assumption?)+
qed

text \<open>
  A restarted engine draws nothing before it has seen a pod: whatever the memory holds, the graph
  at start-up has no edge, no finding and no suspect.
\<close>

theorem bootstrap_draws_nothing:
  "bootstrap_graph nx cfg now tab = Inr \<lparr>g_findings = [], g_edges = [], g_ranking = [], g_blast = [],
     g_held = 0, g_pods = 0, g_active = 0, g_accepted = 0\<rparr>"
proof -
  have "held_edge now [] r = None" for r by (simp add: held_edge_def)
  then have "List.map_filter (held_edge now []) xs = []" for xs
    by (induction xs) (simp_all add: List.map_filter_simps)
  then show ?thesis by (simp add: bootstrap_graph_def render_def Let_def held_edges_def re_rank_def empty_pass_def)
qed

subsection \<open>A concrete storm\<close>

text \<open>
  Three pods of the storage domain, each with a finding; the pass accepted one edge, from the log
  archiver \<open>l\<close> to the database \<open>t\<close>, and the shared relation witnesses the pair of \<open>l\<close> and the cooling
  monitor \<open>c\<close>.
\<close>

definition storm_edge :: edge where
  "storm_edge = \<lparr>e_src = ''l-1-1'', e_dst = ''t-1-1'', e_r = 9/10, e_lag_s = 5, e_evidence = [''pvc'']\<rparr>"

definition storm_finding :: "pod \<Rightarrow> finding" where
  "storm_finding p = \<lparr>f_pod = p, f_class = Shift, f_onset_s = 60, f_severity = 1, f_n_onsets = 1\<rparr>"

definition storm_pass :: pass_result where
  "storm_pass = \<lparr>p_findings = map storm_finding [''c-1-1'', ''l-1-1'', ''t-1-1''], p_edges = [storm_edge],
     p_ranking = [], p_blast = [], p_pods = 3, p_active = 3, p_accepted = 1\<rparr>"

definition storm_event :: pass_event where
  "storm_event = \<lparr>ev_edges = [storm_edge], ev_pods = {''c-1-1'', ''l-1-1'', ''t-1-1''},
     ev_pairs = Some [{''c-1-1'', ''l-1-1''}], ev_ts = 0\<rparr>"

definition storm_vectors :: "unit pdict" where
  "storm_vectors = [(''c-1-1'', ()), (''l-1-1'', ()), (''t-1-1'', ())]"

theorem render_faithful_witness:
  "\<exists>g. render ref_nx default_config 0 (Some storm_vectors) storm_pass (observe_edges default_config storm_event []) = Inr g \<and>
     g_findings g = p_findings storm_pass"
proof -
  have r: "run (observe_step default_config) [] [storm_event] (observe_edges default_config storm_event [])"
    by (simp add: run_observe)
  have e: "\<forall>ev \<in> set [storm_event]. \<forall>e \<in> set (ev_edges ev). \<bar>e_r e\<bar> \<le> 1"
    by (simp add: storm_event_def storm_edge_def)
  have p: "\<forall>e \<in> set (p_edges storm_pass). \<bar>e_r e\<bar> \<le> 1"
    by (simp add: storm_pass_def storm_edge_def)
  from render_faithful[OF rnx.digraph_api_axioms sane_default r e p, where now = 0 and vectors = storm_vectors] show ?thesis by blast
qed

text \<open>
  A structural edge without any correlation can move the blame: the prior seeds an edge with \<open>r = 0\<close>
  between two workloads in alphabetical order, and the re-ranking of the rendered graph lets it count as
  something upstream of its target.  In the storm above the pass names the log archiver; the rendered
  graph of the same pass names the cooling monitor, whose only edge has coefficient zero, and predicts
  no victim.
\<close>

theorem structural_edge_moves_blame:
  "\<exists>rk bl g. attribute ref_nx (p_edges storm_pass) (pass_seeds None (p_findings storm_pass)) (onset_map (p_findings storm_pass)) = Inr (rk, bl) \<and>
     c_pod (hd rk) = ''l-1-1'' \<and> map v_pod bl = [''t-1-1''] \<and>
     render ref_nx default_config 0 (Some storm_vectors) storm_pass (observe_edges default_config storm_event []) = Inr g \<and>
     map (\<lambda>e. (e_src e, e_dst e, e_r e)) (g_edges g) = [(''l-1-1'', ''t-1-1'', 9/10), (''c-1-1'', ''l-1-1'', 0)] \<and>
     c_pod (hd (g_ranking g)) = ''c-1-1'' \<and> g_blast g = []"
proof -
  let ?tab = "observe_edges default_config storm_event []"
  have a: "attribute ref_nx (p_edges storm_pass) (pass_seeds None (p_findings storm_pass)) (onset_map (p_findings storm_pass)) =
      Inr ([\<lparr>c_pod = ''l-1-1'', c_score = 1, c_onset_s = Some 60\<rparr>], [\<lparr>v_pod = ''t-1-1'', v_impact = 63/100, v_eta_s = 5\<rparr>])"
    by code_simp
  have "case render ref_nx default_config 0 (Some storm_vectors) storm_pass ?tab of Inl _ \<Rightarrow> False
      | Inr g \<Rightarrow> map (\<lambda>e. (e_src e, e_dst e, e_r e)) (g_edges g) = [(''l-1-1'', ''t-1-1'', 9/10), (''c-1-1'', ''l-1-1'', 0)] \<and>
         c_pod (hd (g_ranking g)) = ''c-1-1'' \<and> g_blast g = []"
    by code_simp
  then obtain g where "render ref_nx default_config 0 (Some storm_vectors) storm_pass ?tab = Inr g"
    "map (\<lambda>e. (e_src e, e_dst e, e_r e)) (g_edges g) = [(''l-1-1'', ''t-1-1'', 9/10), (''c-1-1'', ''l-1-1'', 0)]"
    "c_pod (hd (g_ranking g)) = ''c-1-1''" "g_blast g = []" by (auto split: sum.splits)
  with a show ?thesis by simp
qed

end
