(* ===== verification/Cases.thy ===== *)
theory Cases
  imports EdgeMemory Pipeline
begin

text \<open>
  The case library of \<open>correlation/engine/state.py\<close>: \<open>_promote_case\<close>, \<open>_case_sim\<close>, \<open>_jaccard\<close>,
  \<open>_dominant_witness\<close>, \<open>_lead_time\<close> and the tables \<open>cases\<close> and \<open>case_observations\<close>.  A table is the
  list of its rows in the order of the row ids.  The JSON columns hold the values they encode (theory \<open>Columns\<close> has the text); the id
  of a case is the first 16 digits of the SHA-1 of the encoded key, a parameter \<open>hash\<close> of the model.
  Columns that this code never fills (\<open>scenario_label\<close>, \<open>remediation\<close>, \<open>outcome\<close>, \<open>notes\<close>) are left out.
\<close>

record case_key =
  k_stressors :: "string list"
  k_victims :: "string list"
  k_signal :: string
  k_witness :: "string option"
  k_motif :: "(string \<times> string) list"

record case_row =
  cs_id :: string
  cs_key :: case_key
  cs_stressors :: "string list"
  cs_victims :: "string list"
  cs_signal :: string
  cs_witness :: "string option"
  cs_motif :: "(string \<times> string) list"
  cs_lags :: "int pdict"
  cs_occ :: nat
  cs_first_ts :: real
  cs_last_ts :: real
  cs_lead :: "real option"
  cs_family :: "string option"

record case_obs =
  ob_ts :: real
  ob_case :: string
  ob_root :: string
  ob_victims :: "string list"
  ob_graph :: pass_result

record case_lib =
  l_cases :: "case_row list"
  l_obs :: "case_obs list"

datatype case_register = Recurrence | Variant | Novel

record case_meta =
  cm_id :: string
  cm_family :: string
  cm_register :: case_register
  cm_sim :: real

subsection \<open>Similarity\<close>

definition jaccard :: "'a set \<Rightarrow> 'a set \<Rightarrow> real" where
  "jaccard a b = (if a = {} \<and> b = {} then 1
     else if a \<union> b = {} then 1 else real (card (a \<inter> b)) / real (card (a \<union> b)))"

definition or_empty :: "string option \<Rightarrow> string" where
  "or_empty s = (case s of None \<Rightarrow> [] | Some x \<Rightarrow> x)"

definition case_sim :: "case_key \<Rightarrow> case_row \<Rightarrow> real" where
  "case_sim fp c =
     (if k_signal fp \<noteq> cs_signal c \<or> or_empty (k_witness fp) \<noteq> or_empty (cs_witness c) then 0
      else 4/10 * jaccard (set (k_victims fp)) (set (cs_victims c))
         + 2/10 * jaccard (set (k_stressors fp)) (set (cs_stressors c))
         + 4/10 * jaccard (set (k_motif fp)) (set (cs_motif c)))"

subsection \<open>The incident of a pass\<close>

definition count_evidence :: "string \<Rightarrow> nat pdict \<Rightarrow> nat pdict" where
  "count_evidence ev counts = (if ev \<in> {''stat'', ''temporal'', ''write''} then counts
     else AList.update ev (dget counts ev 0 + 1) counts)"

definition dominant_witness :: "edge list \<Rightarrow> string option" where
  "dominant_witness es =
     (let counts = fold (\<lambda>e. fold count_evidence (e_evidence e)) es [] in
      case sort_key (\<lambda>kv. (- int (snd kv), fst kv)) counts of [] \<Rightarrow> None | kv # _ \<Rightarrow> Some (fst kv))"

definition mean_of :: "real list \<Rightarrow> real" where
  "mean_of xs = sum_list xs / real (length xs)"

definition lead_time :: "victim list \<Rightarrow> edge list \<Rightarrow> real option" where
  "lead_time blast es =
     (let etas = map (\<lambda>b. of_int (v_eta_s b)) blast in
      if etas \<noteq> [] then Some (mean_of etas)
      else let lags = map (\<lambda>e. of_int (e_lag_s e)) (filter (\<lambda>e. e_lag_s e > 0) es)
           in if lags \<noteq> [] then Some (mean_of lags) else None)"

definition case_victims :: "string \<Rightarrow> pass_result \<Rightarrow> string list" where
  "case_victims r graph =
     (let blast = sorted_list_of_set (set (filter (\<lambda>w. w \<noteq> r)
        (map (\<lambda>b. stable_workload (v_pod b)) (filter (\<lambda>b. v_pod b \<noteq> []) (p_blast graph)))))
      in if blast \<noteq> [] then blast
         else sorted_list_of_set (set (filter (\<lambda>w. w \<noteq> r) (map (\<lambda>e. stable_workload (e_dst e)) (p_edges graph)))))"

definition wl_arrow :: "edge \<Rightarrow> string \<times> string" where
  "wl_arrow e = (stable_workload (e_src e), stable_workload (e_dst e))"

definition arrow_name :: "string \<times> string \<Rightarrow> string" where
  "arrow_name p = fst p @ ''->'' @ snd p"

definition lag_structure :: "edge list \<Rightarrow> int pdict" where
  "lag_structure es = sort_key fst (fold (\<lambda>e. AList.update (arrow_name (wl_arrow e)) (e_lag_s e)) es [])"

definition incident_key :: "mem_config \<Rightarrow> pass_result \<Rightarrow> case_key option" where
  "incident_key cfg graph = (case p_ranking graph of [] \<Rightarrow> None | c # _ \<Rightarrow>
     if p_edges graph = [] then None
     else let r = stable_workload (c_pod c); victims = case_victims r graph in
       if victims = [] then None
       else Some \<lparr>k_stressors = [r], k_victims = victims, k_signal = c_signal cfg,
         k_witness = dominant_witness (p_edges graph), k_motif = sort (map wl_arrow (p_edges graph))\<rparr>)"

subsection \<open>Promotion\<close>

definition nearer :: "case_key \<Rightarrow> case_row \<Rightarrow> case_row option \<times> real \<Rightarrow> case_row option \<times> real" where
  "nearer fp c best = (if case_sim fp c > snd best then (Some c, case_sim fp c) else best)"

definition nearest :: "case_key \<Rightarrow> case_row list \<Rightarrow> case_row option \<times> real" where
  "nearest fp rows = fold (nearer fp) rows (None, 0)"

definition family_of :: "case_row \<Rightarrow> string" where
  "family_of c = (case cs_family c of None \<Rightarrow> cs_id c | Some f \<Rightarrow> if f = [] then cs_id c else f)"

definition merged_lead :: "real option \<Rightarrow> case_row \<Rightarrow> real option" where
  "merged_lead lead c = (case lead of None \<Rightarrow> cs_lead c
     | Some x \<Rightarrow> (case cs_lead c of None \<Rightarrow> Some x
        | Some old \<Rightarrow> Some ((old * real (cs_occ c) + x) / real (cs_occ c + 1))))"

definition fold_case :: "string \<Rightarrow> nat \<Rightarrow> real \<Rightarrow> real option \<Rightarrow> case_row list \<Rightarrow> case_row list" where
  "fold_case cid occ ts lead rows =
     map (\<lambda>c. if cs_id c = cid then c\<lparr>cs_occ := occ, cs_last_ts := ts, cs_lead := lead\<rparr> else c) rows"

definition insert_or_ignore :: "case_row \<Rightarrow> case_row list \<Rightarrow> case_row list" where
  "insert_or_ignore c rows = (if cs_id c \<in> cs_id ` set rows then rows else rows @ [c])"

definition new_case :: "string \<Rightarrow> string \<Rightarrow> case_key \<Rightarrow> int pdict \<Rightarrow> real \<Rightarrow> real option \<Rightarrow> case_row" where
  "new_case cid fam key lags ts lead =
     \<lparr>cs_id = cid, cs_key = key, cs_stressors = k_stressors key, cs_victims = k_victims key,
      cs_signal = k_signal key, cs_witness = k_witness key, cs_motif = k_motif key, cs_lags = lags,
      cs_occ = 1, cs_first_ts = ts, cs_last_ts = ts, cs_lead = lead, cs_family = Some fam\<rparr>"

definition promote_case :: "mem_config \<Rightarrow> (case_key \<Rightarrow> string) \<Rightarrow> real \<Rightarrow> pass_result \<Rightarrow> case_lib \<Rightarrow>
    case_meta option \<times> case_lib" where
  "promote_case cfg hash ts graph lib = (case incident_key cfg graph of None \<Rightarrow> (None, lib)
   | Some key \<Rightarrow>
      let lead = lead_time (p_blast graph) (p_edges graph);
          new_id = hash key;
          (best, best_sim) = nearest key (l_cases lib);
          (reg, cid, fam, rows) = (case best of
              Some b \<Rightarrow>
                if best_sim \<ge> c_tau_merge cfg then
                  (Recurrence, cs_id b, family_of b,
                   fold_case (cs_id b) (cs_occ b + 1) ts (merged_lead lead b) (l_cases lib))
                else if best_sim \<ge> c_tau_family cfg then
                  (Variant, new_id, family_of b, insert_or_ignore
                     (new_case new_id (family_of b) key (lag_structure (p_edges graph)) ts lead) (l_cases lib))
                else
                  (Novel, new_id, new_id, insert_or_ignore
                     (new_case new_id new_id key (lag_structure (p_edges graph)) ts lead) (l_cases lib))
            | None \<Rightarrow>
                (Novel, new_id, new_id, insert_or_ignore
                   (new_case new_id new_id key (lag_structure (p_edges graph)) ts lead) (l_cases lib)));
          ob = \<lparr>ob_ts = ts, ob_case = cid, ob_root = hd (k_stressors key), ob_victims = k_victims key, ob_graph = graph\<rparr>
      in (Some \<lparr>cm_id = cid, cm_family = fam, cm_register = reg, cm_sim = round3 best_sim\<rparr>,
          \<lparr>l_cases = rows, l_obs = l_obs lib @ [ob]\<rparr>))"

definition case_step :: "mem_config \<Rightarrow> (case_key \<Rightarrow> string) \<Rightarrow> case_lib \<Rightarrow> real \<times> pass_result \<Rightarrow> case_lib \<Rightarrow> bool" where
  "case_step cfg hash lib ev lib' \<longleftrightarrow> lib' = snd (promote_case cfg hash (fst ev) (snd ev) lib)"

definition empty_lib :: case_lib where
  "empty_lib = \<lparr>l_cases = [], l_obs = []\<rparr>"

subsection \<open>The similarity is a similarity\<close>

lemma jaccard_bounds: "finite a \<Longrightarrow> finite b \<Longrightarrow> 0 \<le> jaccard a b \<and> jaccard a b \<le> 1"
proof -
  assume f: "finite a" "finite b"
  then have "card (a \<inter> b) \<le> card (a \<union> b)" by (intro card_mono) auto
  then show ?thesis by (auto simp: jaccard_def divide_le_eq)
qed

lemma jaccard_sym: "jaccard a b = jaccard b a"
  by (simp add: jaccard_def Int_commute Un_commute conj_commute)

lemma jaccard_self [simp]: "finite a \<Longrightarrow> jaccard a a = 1"
  by (simp add: jaccard_def)

lemma jaccard_1:
  assumes "finite a" "finite b" "jaccard a b = 1"
  shows "a = b"
proof (cases "a \<union> b = {}")
  case False
  then have "card (a \<inter> b) = card (a \<union> b)" using assms by (auto simp: jaccard_def divide_eq_1_iff split: if_splits)
  then have "a \<inter> b = a \<union> b" using assms by (intro card_subset_eq) auto
  then show ?thesis by blast
qed simp

lemma case_sim_bounds: "0 \<le> case_sim fp c \<and> case_sim fp c \<le> 1"
  using jaccard_bounds[of "set (k_victims fp)" "set (cs_victims c)"]
    jaccard_bounds[of "set (k_stressors fp)" "set (cs_stressors c)"]
    jaccard_bounds[of "set (k_motif fp)" "set (cs_motif c)"] by (simp add: case_sim_def)

definition same_shape :: "case_key \<Rightarrow> case_row \<Rightarrow> bool" where
  "same_shape fp c \<longleftrightarrow> k_signal fp = cs_signal c \<and> or_empty (k_witness fp) = or_empty (cs_witness c) \<and>
     set (k_victims fp) = set (cs_victims c) \<and> set (k_stressors fp) = set (cs_stressors c) \<and>
     set (k_motif fp) = set (cs_motif c)"

lemma case_sim_1_iff: "case_sim fp c = 1 \<longleftrightarrow> same_shape fp c"
proof
  assume 1: "case_sim fp c = 1"
  have "jaccard (set (k_victims fp)) (set (cs_victims c)) = 1 \<and> jaccard (set (k_stressors fp)) (set (cs_stressors c)) = 1 \<and>
      jaccard (set (k_motif fp)) (set (cs_motif c)) = 1 \<and> k_signal fp = cs_signal c \<and> or_empty (k_witness fp) = or_empty (cs_witness c)"
    using 1 jaccard_bounds[of "set (k_victims fp)" "set (cs_victims c)"]
    jaccard_bounds[of "set (k_stressors fp)" "set (cs_stressors c)"]
    jaccard_bounds[of "set (k_motif fp)" "set (cs_motif c)"] by (auto simp: case_sim_def split: if_splits)
  then show "same_shape fp c" by (simp add: same_shape_def jaccard_1)
qed (simp add: case_sim_def same_shape_def)

text \<open>The nearest case: its similarity is the largest, and it is the similarity of the row found.\<close>

lemma nearest_snoc: "nearest fp (rows @ [c]) = nearer fp c (nearest fp rows)"
  by (simp add: nearest_def)

lemma nearest_spec:
  "0 \<le> snd (nearest fp rows) \<and> (\<forall>c \<in> set rows. case_sim fp c \<le> snd (nearest fp rows)) \<and>
   (case fst (nearest fp rows) of None \<Rightarrow> snd (nearest fp rows) = 0
    | Some b \<Rightarrow> b \<in> set rows \<and> snd (nearest fp rows) = case_sim fp b \<and> 0 < case_sim fp b)"
proof (induction rows rule: rev_induct)
  case (snoc c rows)
  show ?case
  proof (cases "case_sim fp c > snd (nearest fp rows)")
    case True
    then show ?thesis using snoc by (auto simp: nearest_snoc nearer_def intro: order_trans less_imp_le)
  next
    case False
    then show ?thesis using snoc by (auto simp: nearest_snoc nearer_def split: option.splits)
  qed
qed (simp add: nearest_def)

subsection \<open>The cases of a promotion\<close>

definition sane_taus :: "mem_config \<Rightarrow> bool" where
  "sane_taus cfg \<longleftrightarrow> 0 < c_tau_merge cfg \<and> c_tau_merge cfg \<le> 1"

definition observation :: "real \<Rightarrow> case_key \<Rightarrow> string \<Rightarrow> pass_result \<Rightarrow> case_obs" where
  "observation ts key cid graph =
     \<lparr>ob_ts = ts, ob_case = cid, ob_root = hd (k_stressors key), ob_victims = k_victims key, ob_graph = graph\<rparr>"

definition obs_lead :: "case_obs \<Rightarrow> real option" where
  "obs_lead ob = lead_time (p_blast (ob_graph ob)) (p_edges (ob_graph ob))"

lemma observation_sel [simp]:
  "ob_case (observation ts key cid graph) = cid" "ob_graph (observation ts key cid graph) = graph"
  by (simp_all add: observation_def)

lemma promote_case_cases:
  assumes taus: "sane_taus cfg"
  obtains (quiet) "incident_key cfg graph = None" "promote_case cfg hash ts graph lib = (None, lib)"
  | (merge) key b m where "incident_key cfg graph = Some key" "b \<in> set (l_cases lib)"
      "c_tau_merge cfg \<le> case_sim key b"
      "promote_case cfg hash ts graph lib = (Some m,
         \<lparr>l_cases = fold_case (cs_id b) (cs_occ b + 1) ts (merged_lead (lead_time (p_blast graph) (p_edges graph)) b) (l_cases lib),
          l_obs = l_obs lib @ [observation ts key (cs_id b) graph]\<rparr>)"
      "cm_register m = Recurrence" "cm_id m = cs_id b" "cm_sim m = round3 (case_sim key b)"
  | (fresh) key fam m where "incident_key cfg graph = Some key"
      "\<And>c. c \<in> set (l_cases lib) \<Longrightarrow> case_sim key c < c_tau_merge cfg"
      "fam = hash key \<or> (\<exists>b \<in> set (l_cases lib). fam = family_of b)"
      "promote_case cfg hash ts graph lib = (Some m,
         \<lparr>l_cases = insert_or_ignore (new_case (hash key) fam key (lag_structure (p_edges graph)) ts
            (lead_time (p_blast graph) (p_edges graph))) (l_cases lib),
          l_obs = l_obs lib @ [observation ts key (hash key) graph]\<rparr>)"
      "cm_register m \<noteq> Recurrence" "cm_id m = hash key"
proof (cases "incident_key cfg graph")
  case None
  then show ?thesis using quiet by (simp add: promote_case_def)
next
  case (Some key)
  note spec = nearest_spec[of key "l_cases lib"]
  obtain best sim where near: "nearest key (l_cases lib) = (best, sim)" by (cases "nearest key (l_cases lib)")
  show ?thesis
  proof (cases best)
    case None
    then have "case_sim key c < c_tau_merge cfg" if "c \<in> set (l_cases lib)" for c
      using spec near taus that by (auto simp: sane_taus_def intro: le_less_trans)
    then show ?thesis using Some None near
      by (intro fresh[of key "hash key"]) (auto simp: promote_case_def Let_def observation_def)
  next
    case (Some b)
    with spec near have b: "b \<in> set (l_cases lib)" "sim = case_sim key b"
      and max: "\<And>c. c \<in> set (l_cases lib) \<Longrightarrow> case_sim key c \<le> sim" by auto
    show ?thesis
    proof (cases "c_tau_merge cfg \<le> sim")
      case True
      then show ?thesis using \<open>incident_key cfg graph = Some key\<close> Some near b
        by (intro merge[of key b]) (auto simp: promote_case_def Let_def observation_def)
    next
      case False
      then have lt: "case_sim key c < c_tau_merge cfg" if "c \<in> set (l_cases lib)" for c using max[OF that] by simp
      show ?thesis
      proof (cases "c_tau_family cfg \<le> sim")
        case True
        then show ?thesis using \<open>incident_key cfg graph = Some key\<close> Some near b False lt
          by (intro fresh[of key "family_of b"]) (auto simp: promote_case_def Let_def observation_def)
      next
        case notfam: False
        then show ?thesis using \<open>incident_key cfg graph = Some key\<close> Some near b False lt
          by (intro fresh[of key "hash key"]) (auto simp: promote_case_def Let_def observation_def)
      qed
    qed
  qed
qed

subsection \<open>The invariant of the library\<close>

text \<open>What is relied on of the digest, for the keys that occur: it is injective and never empty.\<close>

definition digest_ok :: "(case_key \<Rightarrow> string) \<Rightarrow> case_key set \<Rightarrow> bool" where
  "digest_ok hash K \<longleftrightarrow> inj_on hash K \<and> (\<forall>k. hash k \<noteq> [])"

text \<open>The columns of a row repeat the fields of its key.\<close>

definition mirrors :: "case_row \<Rightarrow> bool" where
  "mirrors c \<longleftrightarrow> cs_stressors c = k_stressors (cs_key c) \<and> cs_victims c = k_victims (cs_key c) \<and>
     cs_signal c = k_signal (cs_key c) \<and> cs_witness c = k_witness (cs_key c) \<and> cs_motif c = k_motif (cs_key c)"

definition seen_as :: "string \<Rightarrow> case_obs list \<Rightarrow> case_obs list" where
  "seen_as cid obs = filter (\<lambda>ob. ob_case ob = cid) obs"

definition case_ok :: "(case_key \<Rightarrow> string) \<Rightarrow> case_key set \<Rightarrow> case_lib \<Rightarrow> case_row \<Rightarrow> bool" where
  "case_ok hash K lib c \<longleftrightarrow> mirrors c \<and> cs_id c = hash (cs_key c) \<and> cs_key c \<in> K \<and>
     cs_occ c = length (seen_as (cs_id c) (l_obs lib)) \<and> 0 < cs_occ c \<and>
     (\<exists>r \<in> set (l_cases lib). cs_family c = Some (cs_id r) \<and> cs_family r = Some (cs_id r))"

definition lib_ok :: "mem_config \<Rightarrow> (case_key \<Rightarrow> string) \<Rightarrow> case_key set \<Rightarrow> case_lib \<Rightarrow> bool" where
  "lib_ok cfg hash K lib \<longleftrightarrow> distinct (map cs_id (l_cases lib)) \<and>
     (\<forall>c \<in> set (l_cases lib). case_ok hash K lib c) \<and>
     (\<forall>ob \<in> set (l_obs lib). ob_case ob \<in> cs_id ` set (l_cases lib)) \<and>
     (\<forall>c \<in> set (l_cases lib). \<forall>c' \<in> set (l_cases lib). cs_id c \<noteq> cs_id c' \<longrightarrow> case_sim (cs_key c) c' < c_tau_merge cfg)"

lemma case_sim_cong:
  "cs_victims c = cs_victims c' \<Longrightarrow> cs_stressors c = cs_stressors c' \<Longrightarrow> cs_signal c = cs_signal c' \<Longrightarrow>
   cs_witness c = cs_witness c' \<Longrightarrow> cs_motif c = cs_motif c' \<Longrightarrow> case_sim fp c = case_sim fp c'"
  by (simp add: case_sim_def)

lemma case_sim_sym: "mirrors c \<Longrightarrow> mirrors c' \<Longrightarrow> case_sim (cs_key c) c' = case_sim (cs_key c') c"
  by (auto simp: case_sim_def mirrors_def jaccard_sym)

lemma case_sim_self: "mirrors c \<Longrightarrow> case_sim (cs_key c) c = 1"
  by (simp add: case_sim_1_iff same_shape_def mirrors_def)

lemma mirrors_new [simp]: "mirrors (new_case cid fam key lags ts lead)"
  by (simp add: mirrors_def new_case_def)

lemma new_case_sel [simp]:
  "cs_id (new_case cid fam key lags ts lead) = cid" "cs_key (new_case cid fam key lags ts lead) = key"
  "cs_occ (new_case cid fam key lags ts lead) = 1" "cs_family (new_case cid fam key lags ts lead) = Some fam"
  "cs_lead (new_case cid fam key lags ts lead) = lead"
  by (simp_all add: new_case_def)

lemma family_of_ok: "cs_family c = Some (cs_id r) \<Longrightarrow> cs_id r \<noteq> [] \<Longrightarrow> family_of c = cs_id r"
  by (simp add: family_of_def)

text \<open>A key that is new to the tolerance of the library has an id of its own.\<close>

lemma fresh_id:
  assumes ok: "lib_ok cfg hash K lib" and dig: "digest_ok hash K" and taus: "sane_taus cfg" and key: "key \<in> K"
    and new: "\<And>c. c \<in> set (l_cases lib) \<Longrightarrow> case_sim key c < c_tau_merge cfg"
  shows "hash key \<notin> cs_id ` set (l_cases lib)"
proof
  assume "hash key \<in> cs_id ` set (l_cases lib)"
  then obtain c where c: "c \<in> set (l_cases lib)" "hash key = cs_id c" by blast
  then have "mirrors c" "cs_id c = hash (cs_key c)" "cs_key c \<in> K" using ok by (auto simp: lib_ok_def case_ok_def)
  then have "key = cs_key c" using dig key c(2) by (auto simp: digest_ok_def dest: inj_onD)
  then have "case_sim key c = 1" using case_sim_self[OF \<open>mirrors c\<close>] by simp
  then show False using new[OF c(1)] taus by (simp add: sane_taus_def)
qed

lemma seen_as_snoc:
  "seen_as cid (obs @ [ob]) = seen_as cid obs @ (if ob_case ob = cid then [ob] else [])"
  by (simp add: seen_as_def)

lemma seen_as_none: "cid \<notin> ob_case ` set obs \<Longrightarrow> seen_as cid obs = []"
  by (auto simp: seen_as_def filter_empty_conv)

definition bumped :: "string \<Rightarrow> nat \<Rightarrow> real \<Rightarrow> real option \<Rightarrow> case_row \<Rightarrow> case_row" where
  "bumped cid occ ts lead c = (if cs_id c = cid then c\<lparr>cs_occ := occ, cs_last_ts := ts, cs_lead := lead\<rparr> else c)"

lemma fold_case_map: "fold_case cid occ ts lead rows = map (bumped cid occ ts lead) rows"
  by (simp add: fold_case_def bumped_def)

lemma bumped_sel [simp]:
  "cs_id (bumped cid occ ts lead c) = cs_id c" "cs_key (bumped cid occ ts lead c) = cs_key c"
  "cs_family (bumped cid occ ts lead c) = cs_family c" "mirrors (bumped cid occ ts lead c) = mirrors c"
  "case_sim fp (bumped cid occ ts lead c) = case_sim fp c"
  "cs_occ (bumped cid occ ts lead c) = (if cs_id c = cid then occ else cs_occ c)"
  "cs_lead (bumped cid occ ts lead c) = (if cs_id c = cid then lead else cs_lead c)"
  by (simp_all add: bumped_def mirrors_def case_sim_def)

lemma lib_ok_merge:
  assumes ok: "lib_ok cfg hash K lib" and b: "b \<in> set (l_cases lib)"
  shows "lib_ok cfg hash K \<lparr>l_cases = fold_case (cs_id b) (cs_occ b + 1) ts lead (l_cases lib),
     l_obs = l_obs lib @ [observation ts key (cs_id b) graph]\<rparr>" (is "lib_ok _ _ _ ?lib'")
proof -
  let ?f = "bumped (cs_id b) (cs_occ b + 1) ts lead"
  have d: "distinct (map cs_id (l_cases lib))" using ok by (simp add: lib_ok_def)
  have keep: "case_ok hash K ?lib' (?f c)" if c: "c \<in> set (l_cases lib)" for c
  proof -
    have cok: "case_ok hash K lib c" using ok c by (simp add: lib_ok_def)
    then obtain r where r: "r \<in> set (l_cases lib)" "cs_family c = Some (cs_id r)" "cs_family r = Some (cs_id r)"
      by (auto simp: case_ok_def)
    have "c = b" if "cs_id c = cs_id b" using d c b that by (auto simp: distinct_map inj_on_def)
    then have "cs_occ (?f c) = length (seen_as (cs_id c) (l_obs ?lib'))" "0 < cs_occ (?f c)"
      using cok by (auto simp: case_ok_def seen_as_snoc)
    moreover have "?f r \<in> set (l_cases ?lib')" using r(1) by (simp add: fold_case_map)
    ultimately show ?thesis using cok r(2,3) unfolding case_ok_def by (intro conjI bexI[of _ "?f r"]) simp_all
  qed
  have "distinct (map cs_id (l_cases ?lib'))" using d by (simp add: fold_case_map comp_def)
  moreover have "\<forall>ob \<in> set (l_obs ?lib'). ob_case ob \<in> cs_id ` set (l_cases ?lib')"
    using ok b by (auto simp: lib_ok_def fold_case_map image_image)
  moreover have "\<forall>c \<in> set (l_cases ?lib'). \<forall>c' \<in> set (l_cases ?lib').
      cs_id c \<noteq> cs_id c' \<longrightarrow> case_sim (cs_key c) c' < c_tau_merge cfg"
    using ok by (auto simp: lib_ok_def fold_case_map)
  ultimately show ?thesis using keep unfolding lib_ok_def by (auto simp: fold_case_map)
qed

lemma lib_ok_fresh:
  assumes ok: "lib_ok cfg hash K lib" and dig: "digest_ok hash K" and taus: "sane_taus cfg" and key: "key \<in> K"
    and new: "\<And>c. c \<in> set (l_cases lib) \<Longrightarrow> case_sim key c < c_tau_merge cfg"
    and fam: "fam = hash key \<or> (\<exists>b \<in> set (l_cases lib). fam = family_of b)"
  shows "lib_ok cfg hash K \<lparr>l_cases = insert_or_ignore (new_case (hash key) fam key lags ts lead) (l_cases lib),
     l_obs = l_obs lib @ [observation ts key (hash key) graph]\<rparr>" (is "lib_ok _ _ _ ?lib'")
proof -
  let ?c = "new_case (hash key) fam key lags ts lead"
  have free: "hash key \<notin> cs_id ` set (l_cases lib)" by (rule fresh_id[OF ok dig taus key new])
  then have rows: "l_cases ?lib' = l_cases lib @ [?c]" by (simp add: insert_or_ignore_def)
  have unseen: "seen_as (hash key) (l_obs lib) = []"
    using ok free by (intro seen_as_none) (auto simp: lib_ok_def)
  have old: "case_ok hash K ?lib' c" if c: "c \<in> set (l_cases lib)" for c
  proof -
    have cok: "case_ok hash K lib c" using ok c by (simp add: lib_ok_def)
    moreover have "cs_id c \<noteq> hash key" using free c by (metis image_eqI)
    ultimately show ?thesis unfolding case_ok_def rows by (auto simp: seen_as_snoc)
  qed
  have "\<exists>r \<in> set (l_cases ?lib'). Some fam = Some (cs_id r) \<and> cs_family r = Some (cs_id r)"
    using fam
  proof (elim disjE bexE)
    assume "fam = hash key"
    then show ?thesis unfolding rows by (intro bexI[of _ ?c]) simp_all
  next
    fix b assume b: "b \<in> set (l_cases lib)" "fam = family_of b"
    then have "case_ok hash K lib b" using ok by (simp add: lib_ok_def)
    then obtain r where r: "r \<in> set (l_cases lib)" "cs_family b = Some (cs_id r)" "cs_family r = Some (cs_id r)"
      unfolding case_ok_def by blast
    then have "cs_id r = hash (cs_key r)" using ok by (auto simp: lib_ok_def case_ok_def)
    then have "cs_id r \<noteq> []" using dig by (simp add: digest_ok_def)
    then have "fam = cs_id r" using b(2) family_of_ok[OF r(2)] by simp
    then show ?thesis using r(1,3) unfolding rows by (intro bexI[of _ r]) simp_all
  qed
  then have "case_ok hash K ?lib' ?c" unfolding case_ok_def using key by (simp add: seen_as_snoc unseen)
  moreover have "distinct (map cs_id (l_cases ?lib'))" using ok free unfolding rows by (simp add: lib_ok_def)
  moreover have "\<forall>ob \<in> set (l_obs ?lib'). ob_case ob \<in> cs_id ` set (l_cases ?lib')"
    using ok unfolding rows by (auto simp: lib_ok_def)
  moreover have "case_sim (cs_key c) ?c < c_tau_merge cfg" if "c \<in> set (l_cases lib)" for c
  proof -
    have "mirrors c" using ok that by (auto simp: lib_ok_def case_ok_def)
    from case_sim_sym[OF this mirrors_new[of "hash key" fam key lags ts lead]] new[OF that] show ?thesis by simp
  qed
  ultimately show ?thesis using old ok new unfolding lib_ok_def rows by auto
qed

definition incident_ok :: "mem_config \<Rightarrow> case_key set \<Rightarrow> pass_result \<Rightarrow> bool" where
  "incident_ok cfg K graph \<longleftrightarrow> (\<forall>key. incident_key cfg graph = Some key \<longrightarrow> key \<in> K)"

lemma lib_ok_step:
  assumes "digest_ok hash K" "sane_taus cfg" "lib_ok cfg hash K lib" "incident_ok cfg K (snd ev)"
    "case_step cfg hash lib ev lib'"
  shows "lib_ok cfg hash K lib'"
proof (cases rule: promote_case_cases[OF assms(2), of "snd ev" hash "fst ev" lib])
  case 1
  then show ?thesis using assms(3,5) by (simp add: case_step_def)
next
  case (2 key b m)
  then show ?thesis using assms(5) lib_ok_merge[OF assms(3) 2(2)] by (simp add: case_step_def 2(4))
next
  case (3 key fam m)
  have "key \<in> K" using assms(4) 3(1) by (simp add: incident_ok_def)
  from lib_ok_fresh[OF assms(3,1,2) this 3(2,3)] show ?thesis using assms(5) by (simp add: case_step_def 3(4))
qed

text \<open>Nothing is forgotten or redefined: what a later library keeps of an earlier one.\<close>

definition retains :: "case_lib \<Rightarrow> case_lib \<Rightarrow> bool" where
  "retains lib lib' \<longleftrightarrow> (\<forall>c \<in> set (l_cases lib). \<exists>c' \<in> set (l_cases lib'). cs_id c' = cs_id c \<and> cs_key c' = cs_key c \<and>
     cs_family c' = cs_family c \<and> cs_occ c \<le> cs_occ c' \<and> (\<forall>fp. case_sim fp c' = case_sim fp c)) \<and>
     (\<exists>obs. l_obs lib' = l_obs lib @ obs)"

lemma retains_refl: "retains lib lib"
  unfolding retains_def by blast

lemma retains_trans: "retains a b \<Longrightarrow> retains b c \<Longrightarrow> retains a c"
proof -
  assume ab: "retains a b" and bc: "retains b c"
  have "\<exists>z \<in> set (l_cases c). cs_id z = cs_id x \<and> cs_key z = cs_key x \<and> cs_family z = cs_family x \<and>
      cs_occ x \<le> cs_occ z \<and> (\<forall>fp. case_sim fp z = case_sim fp x)" if x: "x \<in> set (l_cases a)" for x
  proof -
    obtain y where y: "y \<in> set (l_cases b)" "cs_id y = cs_id x" "cs_key y = cs_key x" "cs_family y = cs_family x"
      "cs_occ x \<le> cs_occ y" "\<forall>fp. case_sim fp y = case_sim fp x" using ab x unfolding retains_def by blast
    obtain z where z: "z \<in> set (l_cases c)" "cs_id z = cs_id y" "cs_key z = cs_key y" "cs_family z = cs_family y"
      "cs_occ y \<le> cs_occ z" "\<forall>fp. case_sim fp z = case_sim fp y" using bc y(1) unfolding retains_def by blast
    then show ?thesis using y by (intro bexI[of _ z]) simp_all
  qed
  moreover have "\<exists>obs. l_obs c = l_obs a @ obs" using ab bc unfolding retains_def by (metis append.assoc)
  ultimately show "retains a c" unfolding retains_def by blast
qed

lemma retains_step:
  assumes "sane_taus cfg" "lib_ok cfg hash K lib" "case_step cfg hash lib ev lib'"
  shows "retains lib lib'"
proof (cases rule: promote_case_cases[OF assms(1), of "snd ev" hash "fst ev" lib])
  case 1
  then show ?thesis using assms(3) by (simp add: case_step_def retains_refl)
next
  case (2 key b m)
  have d: "distinct (map cs_id (l_cases lib))" using assms(2) by (simp add: lib_ok_def)
  have "cs_occ c \<le> Suc (cs_occ b)" if "c \<in> set (l_cases lib)" "cs_id c = cs_id b" for c
    using inj_onD[of cs_id "set (l_cases lib)" c b] d 2(2) that by (simp add: distinct_map)
  then show ?thesis using assms(3) unfolding retains_def
    by (auto simp: case_step_def 2(4) fold_case_map intro!: imageI bexI)
next
  case (3 key fam m)
  then show ?thesis using assms(3) unfolding retains_def
    by (auto simp: case_step_def insert_or_ignore_def)
qed

interpretation library: monotone_machine "case_step cfg hash" "lib_ok cfg hash K"
  "\<lambda>ev. digest_ok hash K \<and> sane_taus cfg \<and> incident_ok cfg K (snd ev)" retains for cfg hash K
  by unfold_locales (blast intro: lib_ok_step retains_refl retains_trans retains_step)+

lemma lib_ok_empty [simp]: "lib_ok cfg hash K empty_lib"
  by (simp add: lib_ok_def empty_lib_def)

subsection \<open>Recognition\<close>

definition recognised :: "mem_config \<Rightarrow> case_lib \<Rightarrow> case_key \<Rightarrow> bool" where
  "recognised cfg lib key \<longleftrightarrow> (\<exists>c \<in> set (l_cases lib). c_tau_merge cfg \<le> case_sim key c)"

lemma recognised_retains: "recognised cfg lib key \<Longrightarrow> retains lib lib' \<Longrightarrow> recognised cfg lib' key"
  unfolding recognised_def retains_def by metis

lemma promoted_recognised:
  assumes "digest_ok hash K" "sane_taus cfg" "lib_ok cfg hash K lib" "key \<in> K"
    "incident_key cfg graph = Some key"
  shows "recognised cfg (snd (promote_case cfg hash ts graph lib)) key"
proof (cases rule: promote_case_cases[OF assms(2), of graph hash ts lib])
  case 1
  then show ?thesis using assms(5) by simp
next
  case (2 k b m)
  then show ?thesis using assms(5) unfolding recognised_def
    by (auto simp: fold_case_map intro!: bexI[of _ b])
next
  case (3 k fam m)
  have k: "k = key" using 3(1) assms(5) by simp
  have free: "hash key \<notin> cs_id ` set (l_cases lib)"
    by (rule fresh_id[OF assms(3,1,2,4)]) (use 3(2) k in blast)
  let ?c = "new_case (hash key) fam key (lag_structure (p_edges graph)) ts (lead_time (p_blast graph) (p_edges graph))"
  have "case_sim key ?c = 1" using case_sim_self[OF mirrors_new, of "hash key" fam key] by simp
  then show ?thesis using assms(2) free unfolding recognised_def 3(4) k
    by (intro bexI[of _ ?c]) (simp_all add: insert_or_ignore_def sane_taus_def)
qed

lemma run_recognised:
  "run (case_step cfg hash) lib evs lib' \<Longrightarrow> lib_ok cfg hash K lib \<Longrightarrow> digest_ok hash K \<Longrightarrow> sane_taus cfg \<Longrightarrow>
   (\<And>ev. ev \<in> set evs \<Longrightarrow> incident_ok cfg K (snd ev)) \<Longrightarrow> ev \<in> set evs \<Longrightarrow> incident_key cfg (snd ev) = Some key \<Longrightarrow>
   recognised cfg lib' key"
proof (induction rule: run.induct)
  case (run_step lib x lib1 evs lib2)
  have ok1: "lib_ok cfg hash K lib1" using run_step lib_ok_step by (meson list.set_intros(1))
  show ?case
  proof (cases "ev = x")
    case True
    have "key \<in> K" using run_step.prems by (auto simp: incident_ok_def)
    from promoted_recognised[OF run_step.prems(2,3,1) this run_step.prems(6)]
    have "recognised cfg lib1 key" using run_step.hyps(1) True by (simp add: case_step_def)
    moreover have "retains lib1 lib2"
      using library.run_rel[OF run_step.hyps(2) ok1] run_step.prems by simp
    ultimately show ?thesis by (rule recognised_retains)
  next
    case False
    then show ?thesis using run_step.IH[OF ok1] run_step.prems by simp
  qed
qed simp

subsection \<open>Lead times\<close>

definition lead_of :: "case_obs \<Rightarrow> real" where
  "lead_of ob = (case obs_lead ob of None \<Rightarrow> 0 | Some x \<Rightarrow> x)"

definition lead_ok :: "case_lib \<Rightarrow> bool" where
  "lead_ok lib \<longleftrightarrow> (\<forall>c \<in> set (l_cases lib). \<exists>x. cs_lead c = Some x \<and>
     x * real (cs_occ c) = sum_list (map lead_of (seen_as (cs_id c) (l_obs lib))))"

definition has_lead :: "mem_config \<Rightarrow> pass_result \<Rightarrow> bool" where
  "has_lead cfg graph \<longleftrightarrow> (incident_key cfg graph = None \<or> lead_time (p_blast graph) (p_edges graph) \<noteq> None)"

lemma lead_of_observation [simp]:
  "lead_time (p_blast graph) (p_edges graph) = Some x \<Longrightarrow> lead_of (observation ts key cid graph) = x"
  by (simp add: lead_of_def obs_lead_def)

lemma lead_ok_step:
  assumes "digest_ok hash K" "sane_taus cfg" "lib_ok cfg hash K lib" "incident_ok cfg K (snd ev)"
    "case_step cfg hash lib ev lib'" "lead_ok lib" "has_lead cfg (snd ev)"
  shows "lead_ok lib'"
proof (cases rule: promote_case_cases[OF assms(2), of "snd ev" hash "fst ev" lib])
  case 1
  then show ?thesis using assms(5,6) by (simp add: case_step_def)
next
  case (2 key b m)
  obtain l where l: "lead_time (p_blast (snd ev)) (p_edges (snd ev)) = Some l" using assms(7) 2(1) by (auto simp: has_lead_def)
  obtain x where x: "cs_lead b = Some x" "x * real (cs_occ b) = sum_list (map lead_of (seen_as (cs_id b) (l_obs lib)))"
    using assms(6) 2(2) by (auto simp: lead_ok_def)
  have ml: "merged_lead (Some l) b = Some ((x * real (cs_occ b) + l) / real (cs_occ b + 1))"
    by (simp add: merged_lead_def x(1))
  have "(x * real (cs_occ b) + l) / real (cs_occ b + 1) * real (cs_occ b + 1) = x * real (cs_occ b) + l" by simp
  then show ?thesis using assms(5,6) x(2) l unfolding lead_ok_def case_step_def 2(4)
    by (auto simp: fold_case_map seen_as_snoc ml simp del: of_nat_Suc)
next
  case (3 key fam m)
  have key: "key \<in> K" using assms(4) 3(1) by (simp add: incident_ok_def)
  have free: "hash key \<notin> cs_id ` set (l_cases lib)" by (rule fresh_id[OF assms(3,1,2) key 3(2)])
  have unseen: "seen_as (hash key) (l_obs lib) = []"
    using assms(3) free by (intro seen_as_none) (auto simp: lib_ok_def)
  obtain l where l: "lead_time (p_blast (snd ev)) (p_edges (snd ev)) = Some l" using assms(7) 3(1) by (auto simp: has_lead_def)
  have "cs_id c \<noteq> hash key" if "c \<in> set (l_cases lib)" for c using free that by (metis image_eqI)
  then show ?thesis using assms(5,6) free l unfolding lead_ok_def case_step_def 3(4)
    by (auto simp: insert_or_ignore_def seen_as_snoc unseen)
qed

interpretation leads: invariant_machine "case_step cfg hash" "\<lambda>lib. lib_ok cfg hash K lib \<and> lead_ok lib"
  "\<lambda>ev. digest_ok hash K \<and> sane_taus cfg \<and> incident_ok cfg K (snd ev) \<and> has_lead cfg (snd ev)" for cfg hash K
  by unfold_locales (blast intro: lib_ok_step lead_ok_step)

subsection \<open>Restarted pods\<close>

text \<open>The pods of a pass under other names, as after a restart.\<close>

definition rename_pods :: "(pod \<Rightarrow> pod) \<Rightarrow> pass_result \<Rightarrow> pass_result" where
  "rename_pods f graph = graph\<lparr>
     p_edges := map (\<lambda>e. e\<lparr>e_src := f (e_src e), e_dst := f (e_dst e)\<rparr>) (p_edges graph),
     p_ranking := map (\<lambda>c. c\<lparr>c_pod := f (c_pod c)\<rparr>) (p_ranking graph),
     p_blast := map (\<lambda>v. v\<lparr>v_pod := f (v_pod v)\<rparr>) (p_blast graph)\<rparr>"

lemma dominant_witness_rename:
  "(\<And>e. e_evidence (g e) = e_evidence e) \<Longrightarrow> dominant_witness (map g es) = dominant_witness es"
  by (simp add: dominant_witness_def fold_map comp_def)

lemma incident_key_rename:
  assumes wl: "\<And>p. stable_workload (f p) = stable_workload p" and ne: "\<And>p. f p = [] \<longleftrightarrow> p = []"
  shows "incident_key cfg (rename_pods f graph) = incident_key cfg graph"
proof -
  have "map (\<lambda>b. stable_workload (v_pod b)) (filter (\<lambda>b. v_pod b \<noteq> []) (p_blast (rename_pods f graph)))
      = map (\<lambda>b. stable_workload (v_pod b)) (filter (\<lambda>b. v_pod b \<noteq> []) (p_blast graph))"
    "map (\<lambda>e. stable_workload (e_dst e)) (p_edges (rename_pods f graph)) = map (\<lambda>e. stable_workload (e_dst e)) (p_edges graph)"
    by (simp_all add: rename_pods_def filter_map comp_def wl ne)
  then have "case_victims r (rename_pods f graph) = case_victims r graph" for r
    by (simp only: case_victims_def)
  moreover have "map wl_arrow (p_edges (rename_pods f graph)) = map wl_arrow (p_edges graph)"
    by (simp add: rename_pods_def wl_arrow_def wl comp_def)
  moreover have "dominant_witness (p_edges (rename_pods f graph)) = dominant_witness (p_edges graph)"
    by (simp add: rename_pods_def dominant_witness_rename)
  moreover have "p_edges (rename_pods f graph) = [] \<longleftrightarrow> p_edges graph = []" by (simp add: rename_pods_def)
  moreover have "p_ranking (rename_pods f graph) = map (\<lambda>c. c\<lparr>c_pod := f (c_pod c)\<rparr>) (p_ranking graph)"
    by (simp add: rename_pods_def)
  ultimately show ?thesis
    by (cases "p_ranking graph") (simp_all add: incident_key_def wl Let_def)
qed

subsection \<open>Properties\<close>

text \<open>
  Similarity is a number between 0 and 1, and it is 1 exactly for the same shape: equal signal and
  physical witness, and the same sets of stressors, of victims and of arrows.
\<close>

theorem case_sim_similarity:
  "0 \<le> case_sim fp c \<and> case_sim fp c \<le> 1 \<and>
   (case_sim fp c = 1 \<longleftrightarrow> k_signal fp = cs_signal c \<and> or_empty (k_witness fp) = or_empty (cs_witness c) \<and>
      set (k_victims fp) = set (cs_victims c) \<and> set (k_stressors fp) = set (cs_stressors c) \<and>
      set (k_motif fp) = set (cs_motif c))"
  using case_sim_bounds[of fp c] case_sim_1_iff[of fp c] by (simp add: same_shape_def)

text \<open>
  C12. The library stays sound over every sequence of passes, for a digest without collisions on the
  keys that occur: ids are distinct and are the digest of the stored key; a case has occurred exactly as
  often as the archive of observations says, and at least once; every observation belongs to a stored
  case; the family of a case is the id of a stored case that founded it; and no two stored cases are
  similar enough to be merged.
\<close>

theorem case_library_sound:
  assumes "digest_ok hash K" and "sane_taus cfg" and "run (case_step cfg hash) empty_lib evs lib"
    and "\<forall>ev \<in> set evs. incident_ok cfg K (snd ev)"
  shows "distinct (map cs_id (l_cases lib)) \<and>
    (\<forall>c \<in> set (l_cases lib). cs_id c = hash (cs_key c) \<and>
       cs_occ c = length (filter (\<lambda>ob. ob_case ob = cs_id c) (l_obs lib)) \<and> 0 < cs_occ c \<and>
       (\<exists>r \<in> set (l_cases lib). cs_family c = Some (cs_id r) \<and> cs_family r = Some (cs_id r))) \<and>
    (\<forall>ob \<in> set (l_obs lib). ob_case ob \<in> cs_id ` set (l_cases lib)) \<and>
    (\<forall>c \<in> set (l_cases lib). \<forall>c' \<in> set (l_cases lib). cs_id c \<noteq> cs_id c' \<longrightarrow> case_sim (cs_key c) c' < c_tau_merge cfg)"
proof -
  have "lib_ok cfg hash K lib" using library.run_inv[OF assms(3)] assms(1,2,4) by simp
  then show ?thesis unfolding lib_ok_def case_ok_def seen_as_def by blast
qed

text \<open>
  C22. An incident that was promoted once is recognised ever after, also when every pod has restarted
  under another name: after any further passes, the same incident is folded into a stored case as a
  recurrence, no case is added, and every case keeps its id.
\<close>

theorem same_incident_recurs:
  assumes "digest_ok hash K" and "sane_taus cfg" and "run (case_step cfg hash) empty_lib evs lib"
    and "\<forall>ev \<in> set evs. incident_ok cfg K (snd ev)"
    and "ev \<in> set evs" and "incident_key cfg (snd ev) = Some key"
    and "\<forall>p. stable_workload (f p) = stable_workload p" and "\<forall>p. f p = [] \<longleftrightarrow> p = []"
  shows "\<exists>m lib'. promote_case cfg hash ts (rename_pods f (snd ev)) lib = (Some m, lib') \<and>
    cm_register m = Recurrence \<and> cm_id m \<in> cs_id ` set (l_cases lib) \<and>
    map cs_id (l_cases lib') = map cs_id (l_cases lib)"
proof -
  have key: "incident_key cfg (rename_pods f (snd ev)) = Some key"
    using incident_key_rename[of f cfg "snd ev"] assms(6-8) by simp
  have ev_ok: "\<And>ev. ev \<in> set evs \<Longrightarrow> incident_ok cfg K (snd ev)" using assms(4) by blast
  have rec: "recognised cfg lib key"
    by (rule run_recognised[OF assms(3) lib_ok_empty assms(1,2) ev_ok assms(5,6)])
  show ?thesis
  proof (cases rule: promote_case_cases[OF assms(2), of "rename_pods f (snd ev)" hash ts lib])
    case (2 k b m)
    then show ?thesis by (auto simp: fold_case_map comp_def)
  next
    case (3 k fam m)
    then show ?thesis using rec key by (fastforce simp: recognised_def)
  qed (use key in simp)
qed

text \<open>
  The typical lead time of a case is the mean of the lead times of all its observations, as long as
  every incident of the run has one.
\<close>

theorem case_lead_is_mean:
  assumes "digest_ok hash K" and "sane_taus cfg" and "run (case_step cfg hash) empty_lib evs lib"
    and "\<forall>ev \<in> set evs. incident_ok cfg K (snd ev) \<and> has_lead cfg (snd ev)" and "c \<in> set (l_cases lib)"
  shows "cs_lead c = Some (mean_of (map lead_of (filter (\<lambda>ob. ob_case ob = cs_id c) (l_obs lib))))"
proof -
  have "lib_ok cfg hash K lib \<and> lead_ok lib"
    using leads.run_inv[OF assms(3), of K] assms(1,2,4) by (simp add: lead_ok_def empty_lib_def lib_ok_def)
  then obtain x where "cs_lead c = Some x" "x * real (cs_occ c) = sum_list (map lead_of (seen_as (cs_id c) (l_obs lib)))"
    "cs_occ c = length (seen_as (cs_id c) (l_obs lib))" "0 < cs_occ c"
    using assms(5) by (fastforce simp: lead_ok_def lib_ok_def case_ok_def)
  then show ?thesis by (simp add: mean_of_def seen_as_def[symmetric] eq_divide_eq)
qed

subsection \<open>A concrete incident\<close>

definition disk_incident :: pass_result where
  "disk_incident = \<lparr>p_findings = [],
     p_edges = [\<lparr>e_src = ''a-1-1'', e_dst = ''b-1-1'', e_r = 7/10, e_lag_s = 5, e_evidence = [''stat'', ''pvc'']\<rparr>],
     p_ranking = [\<lparr>c_pod = ''a-1-1'', c_score = 1, c_onset_s = None\<rparr>],
     p_blast = [\<lparr>v_pod = ''b-1-1'', v_impact = 1/2, v_eta_s = 5\<rparr>], p_pods = 2, p_active = 0, p_accepted = 1\<rparr>"

definition disk_key :: case_key where
  "disk_key = \<lparr>k_stressors = [''a''], k_victims = [''b''], k_signal = ''psi_io'', k_witness = Some ''pvc'',
     k_motif = [(''a'', ''b'')]\<rparr>"

definition disk_hash :: "case_key \<Rightarrow> string" where
  "disk_hash k = ''d''"

definition disk_lib :: case_lib where
  "disk_lib = snd (promote_case default_config disk_hash 10 disk_incident empty_lib)"

definition restarted :: "pod \<Rightarrow> pod" where
  "restarted p = (if p = ''b-1-1'' then ''b-2-7'' else p)"

lemma disk_facts:
  "incident_key default_config disk_incident = Some disk_key" "sane_taus default_config"
  "digest_ok disk_hash {disk_key}" "incident_ok default_config {disk_key} disk_incident"
  "has_lead default_config disk_incident"
  "run (case_step default_config disk_hash) empty_lib [(10, disk_incident)] disk_lib"
proof -
  show k: "incident_key default_config disk_incident = Some disk_key" by code_simp
  show "sane_taus default_config" by (simp add: sane_taus_def default_config_def)
  show "digest_ok disk_hash {disk_key}" by (simp add: digest_ok_def disk_hash_def)
  show "incident_ok default_config {disk_key} disk_incident" using k by (simp add: incident_ok_def)
  have "lead_time (p_blast disk_incident) (p_edges disk_incident) = Some 5" by code_simp
  then show "has_lead default_config disk_incident" by (simp add: has_lead_def)
  show "run (case_step default_config disk_hash) empty_lib [(10, disk_incident)] disk_lib"
    by (simp add: run_Cons_iff case_step_def disk_lib_def)
qed

theorem case_library_sound_witness:
  "distinct (map cs_id (l_cases disk_lib)) \<and> ob_case ` set (l_obs disk_lib) \<subseteq> cs_id ` set (l_cases disk_lib)"
proof -
  have "\<forall>ev \<in> set [(10 :: real, disk_incident)]. incident_ok default_config {disk_key} (snd ev)"
    using disk_facts(4) by simp
  from case_library_sound[OF disk_facts(3,2,6) this] show ?thesis by blast
qed

theorem same_incident_recurs_witness:
  "\<exists>m lib'. promote_case default_config disk_hash 20 (rename_pods restarted disk_incident) disk_lib = (Some m, lib') \<and>
     cm_register m = Recurrence"
proof -
  have "stable_workload ''b-2-7'' = stable_workload ''b-1-1''" by code_simp
  then have "\<forall>p. stable_workload (restarted p) = stable_workload p" "\<forall>p. restarted p = [] \<longleftrightarrow> p = []"
    by (simp_all add: restarted_def)
  from same_incident_recurs[OF disk_facts(3,2,6) _ _ _ this, of "(10, disk_incident)" disk_key 20] disk_facts(1,4)
  show ?thesis by auto
qed

theorem case_lead_is_mean_witness:
  "map cs_lead (l_cases disk_lib) = [Some (mean_of [5])]"
proof -
  have c: "map cs_id (l_cases disk_lib) = [''d'']" "map lead_of (filter (\<lambda>ob. ob_case ob = ''d'') (l_obs disk_lib)) = [5]"
    by code_simp+
  then obtain c where lc: "l_cases disk_lib = [c]" "cs_id c = ''d''" by auto
  then have "c \<in> set (l_cases disk_lib)" by simp
  from case_lead_is_mean[OF disk_facts(3,2,6) _ this] disk_facts(4,5) show ?thesis by (simp add: lc c(2))
qed

end
