(* ===== verification/Baselines.thy ===== *)
theory Baselines
  imports EdgeMemory Pipeline
begin

text \<open>
  The steady-state baselines of \<open>correlation/engine/state.py\<close>: \<open>update_baselines\<close> and
  \<open>baseline_threshold\<close> over the table \<open>baselines\<close>, an association list from (workload, signal) to the
  row.  The lemmas bound what can be learned and show that the gate of a pass and the learner agree:
  a mature workload is an incident candidate exactly when its window is not learned.
\<close>

record base_row =
  b_median :: real
  b_mad :: real
  b_n :: nat
  b_updated_ts :: real

type_synonym base_table = "((string \<times> string) \<times> base_row) list"

definition incident_level :: "mem_config \<Rightarrow> base_row \<Rightarrow> real" where
  "incident_level cfg r = b_median r + c_dev_k cfg * max (b_mad r) (c_mad_floor cfg)"

definition learn_pod :: "numlib \<Rightarrow> mem_config \<Rightarrow> real \<Rightarrow> pod \<times> signal_vec \<Rightarrow> base_table \<Rightarrow> base_table" where
  "learn_pod lib cfg ts pv tab =
     (let arr = snd pv in
      if length arr < 12 then tab
      else
        let k = (stable_workload (fst pv), c_signal cfg);
            med = np_median lib arr;
            mad = np_median lib (map (\<lambda>v. \<bar>v - med\<bar>) arr)
        in (case map_of tab k of
              None \<Rightarrow> AList.update k \<lparr>b_median = med, b_mad = mad, b_n = 1, b_updated_ts = ts\<rparr> tab
            | Some r \<Rightarrow>
                if b_n r \<ge> c_base_min_n cfg \<and> np_percentile lib arr 90 > incident_level cfg r then tab
                else let a = c_base_alpha cfg in
                  AList.update k \<lparr>b_median = (1 - a) * b_median r + a * med,
                    b_mad = (1 - a) * b_mad r + a * mad, b_n = b_n r + 1, b_updated_ts = ts\<rparr> tab))"

definition update_baselines :: "numlib \<Rightarrow> mem_config \<Rightarrow> real \<Rightarrow> signal_vec pdict \<Rightarrow> base_table \<Rightarrow> base_table" where
  "update_baselines lib cfg ts vectors tab = fold (learn_pod lib cfg ts) vectors tab"

definition baseline_threshold :: "mem_config \<Rightarrow> base_table \<Rightarrow> string \<Rightarrow> real option" where
  "baseline_threshold cfg tab wl = (case map_of tab (wl, c_signal cfg) of
     None \<Rightarrow> None
   | Some r \<Rightarrow> if b_n r < c_base_min_n cfg then None else Some (incident_level cfg r))"


subsection \<open>Bounds\<close>


lemma learn_pod_other:
  "(stable_workload (fst pv), c_signal cfg) \<noteq> k \<Longrightarrow> map_of (learn_pod lib cfg ts pv tab) k = map_of tab k"
  by (auto simp: learn_pod_def Let_def update_conv' split: option.splits)

text \<open>How often a baseline was updated; a window counts at most once for each of its pods.\<close>

definition updates :: "string \<times> string \<Rightarrow> base_table \<Rightarrow> nat" where
  "updates k tab = (case map_of tab k of None \<Rightarrow> 0 | Some r \<Rightarrow> b_n r)"

lemma updates_learn_pod:
  "updates k (learn_pod lib cfg ts pv tab) \<le> updates k tab + (if stable_workload (fst pv) = fst k then 1 else 0)"
proof (cases "k = (stable_workload (fst pv), c_signal cfg)")
  case True
  then show ?thesis by (auto simp: updates_def learn_pod_def Let_def update_conv' split: option.split)
next
  case False
  then show ?thesis by (simp add: updates_def learn_pod_other)
qed

lemma updates_learned:
  "updates k (update_baselines lib cfg ts vectors tab) \<le>
     updates k tab + length (filter (\<lambda>pv. stable_workload (fst pv) = fst k) vectors)"
  unfolding update_baselines_def
proof (induction vectors arbitrary: tab)
  case (Cons pv vectors)
  show ?case using Cons[of "learn_pod lib cfg ts pv tab"] updates_learn_pod[of k lib cfg ts pv tab]
    by (auto split: if_splits)
qed simp



subsection \<open>Properties\<close>


text \<open>
  C25. The gate of a pass and the learner agree on what a storm is: for a pod whose baseline is mature,
  the pass counts its window as outside the band exactly when the learner leaves the baseline as it is;
  while the baseline is immature, the pass ignores the pod and the learner learns its window.
\<close>

theorem gate_and_learner_agree:
  assumes "12 \<le> length vec" and "map_of tab (stable_workload pod, c_signal cfg) = Some r"
    and "map_of b pod = Some (baseline_threshold cfg tab (stable_workload pod))"
  shows "(within_band lib (Some b) pod vec \<longleftrightarrow>
      \<not> (c_base_min_n cfg \<le> b_n r \<and> np_percentile lib vec 90 > incident_level cfg r)) \<and>
    (within_band lib (Some b) pod vec \<longleftrightarrow>
      (\<exists>r'. map_of (learn_pod lib cfg ts (pod, vec) tab) (stable_workload pod, c_signal cfg) = Some r' \<and> b_n r' = b_n r + 1)) \<and>
    (\<not> within_band lib (Some b) pod vec \<longleftrightarrow> c_base_min_n cfg \<le> b_n r \<and> learn_pod lib cfg ts (pod, vec) tab = tab)"
proof (intro conjI)
  let ?k = "(stable_workload pod, c_signal cfg)"
  show w: "within_band lib (Some b) pod vec \<longleftrightarrow>
      \<not> (c_base_min_n cfg \<le> b_n r \<and> np_percentile lib vec 90 > incident_level cfg r)"
    using assms(2,3) by (auto simp: within_band_def baseline_threshold_def)
  show learns: "within_band lib (Some b) pod vec \<longleftrightarrow>
      (\<exists>r'. map_of (learn_pod lib cfg ts (pod, vec) tab) (stable_workload pod, c_signal cfg) = Some r' \<and> b_n r' = b_n r + 1)"
    unfolding w using assms(1,2) by (auto simp: learn_pod_def Let_def update_conv')
  show "\<not> within_band lib (Some b) pod vec \<longleftrightarrow> c_base_min_n cfg \<le> b_n r \<and> learn_pod lib cfg ts (pod, vec) tab = tab"
  proof
    assume "\<not> within_band lib (Some b) pod vec"
    then show "c_base_min_n cfg \<le> b_n r \<and> learn_pod lib cfg ts (pod, vec) tab = tab"
      unfolding w using assms(1,2) by (simp add: learn_pod_def Let_def)
  next
    assume *: "c_base_min_n cfg \<le> b_n r \<and> learn_pod lib cfg ts (pod, vec) tab = tab"
    then have "map_of (learn_pod lib cfg ts (pod, vec) tab) ?k = Some r" using assms(2) by simp
    then have "\<not> (\<exists>r'. map_of (learn_pod lib cfg ts (pod, vec) tab) ?k = Some r' \<and> b_n r' = b_n r + 1)" by simp
    with learns show "\<not> within_band lib (Some b) pod vec" by blast
  qed
qed

definition eager_config :: mem_config where
  "eager_config = default_config\<lparr>c_base_min_n := 1\<rparr>"



theorem gate_and_learner_agree_witness:
  "within_band ref_lib (Some [(''a-1-1'', Some (104/100))]) ''a-1-1'' (replicate 12 1)"
proof -
  let ?r = "\<lparr>b_median = 1, b_mad = 0, b_n = 1, b_updated_ts = 0\<rparr>"
  let ?tab = "[((''a'', ''psi_io''), ?r)]"
  have wl: "stable_workload ''a-1-1'' = ''a''" by code_simp
  have sig: "c_signal eager_config = ''psi_io''" by code_simp
  have t: "baseline_threshold eager_config ?tab ''a'' = Some (104/100)" by code_simp
  have m: "map_of ?tab (stable_workload ''a-1-1'', c_signal eager_config) = Some ?r"
    unfolding wl sig by simp
  have b: "map_of [(''a-1-1'', Some (104/100))] ''a-1-1''
      = Some (baseline_threshold eager_config ?tab (stable_workload ''a-1-1''))" unfolding wl t by simp
  have len: "12 \<le> length (replicate 12 (1::real))" by simp
  have p: "np_percentile ref_lib (replicate 12 1) 90 = 1" unfolding ref_lib_sel by code_simp
  have lev: "incident_level eager_config ?r = 104/100" by code_simp
  have "within_band ref_lib (Some [(''a-1-1'', Some (104/100))]) ''a-1-1'' (replicate 12 1) \<longleftrightarrow>
      \<not> (c_base_min_n eager_config \<le> b_n ?r \<and> np_percentile ref_lib (replicate 12 1) 90 > incident_level eager_config ?r)"
    by (rule gate_and_learner_agree[OF len m b, of ref_lib 0, THEN conjunct1])
  then show ?thesis unfolding p lev by simp
qed

end
