(* ===== verification/Memory.thy ===== *)
theory Memory
  imports Render Cases Baselines
begin

text \<open>
  The whole memory of the engine: the class \<open>GraphMemory\<close> of \<open>correlation/engine/state.py\<close>.  The
  record \<open>store\<close> is the database file: the tables of \<open>_init_schema\<close>, the schema version of
  \<open>schema_meta\<close>, and which of the two columns added by later versions exist.  \<open>observe\<close> composes the
  learner, the edge memory, the case library, the snapshots and the rendering in the order of the code;
  the clock is an argument, and so is the order in which the set of witnessed pairs is iterated.
\<close>

record version_row =
  ver_ts :: real
  ver_component :: string
  ver_version :: string
  ver_params :: string
  ver_notes :: string

record mistake_row =
  mk_ts :: real
  mk_incident :: "string option"
  mk_predicted :: string
  mk_correction :: string
  mk_notes :: string
  mk_status :: string

record store =
  s_schema :: "string option"
  s_has_base :: bool
  s_has_family :: bool
  s_edges :: edge_table
  s_lib :: case_lib
  s_snapshots :: "(real \<times> pass_result) list"
  s_versions :: "version_row list"
  s_mistakes :: "mistake_row list"
  s_baselines :: base_table

record mem_stats =
  st_edges :: nat
  st_visible :: nat
  st_cases :: nat
  st_families :: nat
  st_mistakes :: nat

definition SCHEMA_VERSION :: string where
  "SCHEMA_VERSION = ''l3-memory-v5''"

text \<open>\<open>CREATE TABLE IF NOT EXISTS\<close> on a new file.\<close>

definition new_store :: store where
  "new_store = \<lparr>s_schema = None, s_has_base = True, s_has_family = True, s_edges = [], s_lib = empty_lib,
     s_snapshots = [], s_versions = [], s_mistakes = [], s_baselines = []\<rparr>"

definition migrate :: "store \<Rightarrow> store" where
  "migrate st = (if s_schema st = Some SCHEMA_VERSION then st
     else
       let es = (if s_schema st = Some ''l3-memory-v1'' then [] else s_edges st);
           es' = (if s_has_base st then es else map (\<lambda>r. r\<lparr>m_base := 0\<rparr>) es);
           cs = (if s_has_family st then l_cases (s_lib st)
                 else map (\<lambda>c. c\<lparr>cs_family := Some (cs_id c)\<rparr>) (l_cases (s_lib st)))
       in st\<lparr>s_schema := Some SCHEMA_VERSION, s_has_base := True, s_has_family := True, s_edges := es',
             s_lib := (s_lib st)\<lparr>l_cases := cs\<rparr>\<rparr>)"

definition record_model_version :: "real \<Rightarrow> string \<Rightarrow> string \<Rightarrow> string \<Rightarrow> string \<Rightarrow> store \<Rightarrow> store" where
  "record_model_version now component ver params notes st =
     (if \<exists>r \<in> set (s_versions st). ver_component r = component \<and> ver_version r = ver \<and> ver_params r = params then st
      else st\<lparr>s_versions := s_versions st @
        [\<lparr>ver_ts = now, ver_component = component, ver_version = ver, ver_params = params, ver_notes = notes\<rparr>]\<rparr>)"

definition record_mistake :: "real \<Rightarrow> string \<Rightarrow> string \<Rightarrow> string option \<Rightarrow> string \<Rightarrow> store \<Rightarrow> store" where
  "record_mistake now predicted correction incident notes st =
     st\<lparr>s_mistakes := s_mistakes st @ [\<lparr>mk_ts = now, mk_incident = incident, mk_predicted = predicted,
        mk_correction = correction, mk_notes = notes, mk_status = ''open''\<rparr>]\<rparr>"

text \<open>\<open>__init__\<close> on an existing file: create what is missing, migrate, record the version.\<close>

definition open_store :: "real \<Rightarrow> string \<Rightarrow> store \<Rightarrow> store" where
  "open_store now params st = record_model_version now ''edge-memory'' SCHEMA_VERSION params
     ''Persistent L3 memory: edge confidence, cases, model versions, mistakes.'' (migrate st)"

definition stats :: "store \<Rightarrow> mem_stats" where
  "stats st = \<lparr>st_edges = length (s_edges st), st_visible = length (filter m_visible (s_edges st)),
     st_cases = length (l_cases (s_lib st)),
     st_families = card ((\<lambda>c. case cs_family c of None \<Rightarrow> cs_id c | Some f \<Rightarrow> f) ` set (l_cases (s_lib st))),
     st_mistakes = length (filter (\<lambda>m. mk_status m = ''open'') (s_mistakes st))\<rparr>"

record observation_in =
  in_graph :: pass_result
  in_vectors :: "signal_vec pdict"
  in_pairs :: "pod set list option"
  in_ts :: "real option"
  in_clock :: real

record observation_out =
  out_graph :: rendered
  out_case :: "case_meta option"
  out_stats :: mem_stats

definition time_of :: "observation_in \<Rightarrow> real" where
  "time_of ob = (case in_ts ob of None \<Rightarrow> in_clock ob | Some t \<Rightarrow> if t = 0 then in_clock ob else t)"

definition edge_event :: "observation_in \<Rightarrow> pass_event" where
  "edge_event ob = \<lparr>ev_edges = p_edges (in_graph ob), ev_pods = fst ` set (in_vectors ob),
     ev_pairs = in_pairs ob, ev_ts = time_of ob\<rparr>"

text \<open>The writes of \<open>observe\<close>, up to the commit.\<close>

definition remember :: "numlib \<Rightarrow> mem_config \<Rightarrow> (case_key \<Rightarrow> string) \<Rightarrow> observation_in \<Rightarrow> store \<Rightarrow> case_meta option \<times> store" where
  "remember lib cfg hash ob st =
     (let ts = time_of ob;
          tab = update_baselines lib cfg ts (in_vectors ob) (s_baselines st);
          es = observe_edges cfg (edge_event ob) (s_edges st);
          (meta, cl) = promote_case cfg hash ts (in_graph ob) (s_lib st);
          snaps = (if p_edges (in_graph ob) \<noteq> [] then s_snapshots st @ [(ts, in_graph ob)] else s_snapshots st)
      in (meta, st\<lparr>s_baselines := tab, s_edges := es, s_lib := cl, s_snapshots := snaps\<rparr>))"

definition observe :: "numlib \<Rightarrow> 'g nx \<Rightarrow> mem_config \<Rightarrow> (case_key \<Rightarrow> string) \<Rightarrow> observation_in \<Rightarrow> store \<Rightarrow>
    observation_out res \<times> store" where
  "observe lib nx cfg hash ob st =
     (let (meta, st') = remember lib cfg hash ob st in
      (rbind (render nx cfg (in_clock ob) (Some (in_vectors ob)) (in_graph ob) (s_edges st'))
         (\<lambda>g. Inr \<lparr>out_graph = g, out_case = meta, out_stats = stats st'\<rparr>), st'))"

subsection \<open>The life of the memory\<close>

datatype mem_event = Observed observation_in | Mistake real string string "string option" string | Restart real string

inductive mem_step :: "numlib \<Rightarrow> mem_config \<Rightarrow> (case_key \<Rightarrow> string) \<Rightarrow> store \<Rightarrow> mem_event \<Rightarrow> store \<Rightarrow> bool"
  for lib cfg hash where
  step_observe: "mem_step lib cfg hash st (Observed ob) (snd (remember lib cfg hash ob st))"
| step_mistake: "mem_step lib cfg hash st (Mistake t p c i n) (record_mistake t p c i n st)"
| step_restart: "mem_step lib cfg hash st (Restart t params) (open_store t params st)"

inductive_cases ObservedE: "mem_step lib cfg hash st (Observed ob) st'"
inductive_cases MistakeE: "mem_step lib cfg hash st (Mistake t p c i n) st'"
inductive_cases RestartE: "mem_step lib cfg hash st (Restart t params) st'"

definition good_store :: "mem_config \<Rightarrow> (case_key \<Rightarrow> string) \<Rightarrow> case_key set \<Rightarrow> store \<Rightarrow> bool" where
  "good_store cfg hash K st \<longleftrightarrow> s_schema st = Some SCHEMA_VERSION \<and> wf_table (s_edges st) \<and> unit_rows (s_edges st) \<and>
     lib_ok cfg hash K (s_lib st)"

definition good_event :: "mem_config \<Rightarrow> (case_key \<Rightarrow> string) \<Rightarrow> case_key set \<Rightarrow> mem_event \<Rightarrow> bool" where
  "good_event cfg hash K ev \<longleftrightarrow> sane_config cfg \<and> sane_taus cfg \<and> digest_ok hash K \<and>
     (case ev of Observed ob \<Rightarrow> incident_ok cfg K (in_graph ob) \<and> (\<forall>e \<in> set (p_edges (in_graph ob)). \<bar>e_r e\<bar> \<le> 1)
      | _ \<Rightarrow> True)"

text \<open>What a later state of the file keeps of an earlier one.\<close>

definition preserved :: "store \<Rightarrow> store \<Rightarrow> bool" where
  "preserved st st' \<longleftrightarrow> kept (s_edges st) (s_edges st') \<and> retains (s_lib st) (s_lib st') \<and>
     (\<exists>xs. s_snapshots st' = s_snapshots st @ xs) \<and> (\<exists>ms. s_mistakes st' = s_mistakes st @ ms) \<and>
     (\<exists>vs. s_versions st' = s_versions st @ vs)"

lemma preserved_refl: "preserved st st"
  by (simp add: preserved_def kept_refl retains_refl)

lemma preserved_trans: "preserved a b \<Longrightarrow> preserved b c \<Longrightarrow> preserved a c"
  unfolding preserved_def by (auto intro: kept_trans retains_trans)

lemma remember_sel:
  "s_schema (snd (remember lib cfg hash ob st)) = s_schema st"
  "s_edges (snd (remember lib cfg hash ob st)) = observe_edges cfg (edge_event ob) (s_edges st)"
  "s_lib (snd (remember lib cfg hash ob st)) = snd (promote_case cfg hash (time_of ob) (in_graph ob) (s_lib st))"
  "s_mistakes (snd (remember lib cfg hash ob st)) = s_mistakes st"
  "s_versions (snd (remember lib cfg hash ob st)) = s_versions st"
  "s_baselines (snd (remember lib cfg hash ob st)) = update_baselines lib cfg (time_of ob) (in_vectors ob) (s_baselines st)"
  "\<exists>xs. s_snapshots (snd (remember lib cfg hash ob st)) = s_snapshots st @ xs"
  by (auto simp: remember_def Let_def split: prod.splits)

lemma open_store_current:
  "s_schema st = Some SCHEMA_VERSION \<Longrightarrow> s_schema (open_store t params st) = Some SCHEMA_VERSION \<and>
     s_edges (open_store t params st) = s_edges st \<and> s_lib (open_store t params st) = s_lib st \<and>
     s_snapshots (open_store t params st) = s_snapshots st \<and> s_mistakes (open_store t params st) = s_mistakes st \<and>
     (\<exists>vs. s_versions (open_store t params st) = s_versions st @ vs)"
  by (simp add: open_store_def migrate_def record_model_version_def)

lemma good_store_remember:
  assumes st: "good_store cfg hash K st" and ev: "good_event cfg hash K (Observed ob)"
  shows "good_store cfg hash K (snd (remember lib cfg hash ob st)) \<and> preserved st (snd (remember lib cfg hash ob st))"
proof -
  have cfg: "sane_config cfg" and taus: "sane_taus cfg" and dig: "digest_ok hash K" and key: "incident_ok cfg K (in_graph ob)"
    and unit: "\<forall>e \<in> set (ev_edges (edge_event ob)). \<bar>e_r e\<bar> \<le> 1" using ev by (simp_all add: good_event_def edge_event_def)
  have wf: "wf_table (s_edges st)" and ur: "unit_rows (s_edges st)" and lok: "lib_ok cfg hash K (s_lib st)"
    using st by (simp_all add: good_store_def)
  have st2: "case_step cfg hash (s_lib st) (time_of ob, in_graph ob) (s_lib (snd (remember lib cfg hash ob st)))"
    by (simp add: case_step_def remember_sel)
  have "lib_ok cfg hash K (s_lib (snd (remember lib cfg hash ob st)))"
    by (rule lib_ok_step[OF dig taus lok _ st2]) (simp add: key)
  moreover have "retains (s_lib st) (s_lib (snd (remember lib cfg hash ob st)))"
    by (rule retains_step[OF taus lok st2])
  ultimately show ?thesis using st observe_edges_wf[OF cfg wf] unit_rows_observe[OF ur] unit kept_observe[OF cfg wf]
    by (auto simp: good_store_def preserved_def remember_sel)
qed

lemma good_store_step:
  assumes st: "good_store cfg hash K st" and ev: "good_event cfg hash K ev" and step: "mem_step lib cfg hash st ev st'"
  shows "good_store cfg hash K st' \<and> preserved st st'"
  using step
proof cases
  case (step_observe ob)
  then show ?thesis using good_store_remember[OF st] ev by simp
next
  case (step_mistake t p c i n)
  then show ?thesis using st
    by (simp add: record_mistake_def good_store_def preserved_def kept_refl retains_refl)
next
  case (step_restart t params)
  then show ?thesis using st open_store_current[of st t params]
    by (auto simp: good_store_def preserved_def kept_refl retains_refl)
qed

interpretation memory: monotone_machine "mem_step lib cfg hash" "good_store cfg hash K" "good_event cfg hash K" preserved
  for lib cfg hash K
  by unfold_locales (blast intro: preserved_refl preserved_trans dest: good_store_step)+

lemma good_store_new: "good_store cfg hash K (open_store t params new_store)"
  by (simp add: open_store_def migrate_def record_model_version_def new_store_def good_store_def unit_rows_def)

subsection \<open>What an observation returns\<close>

lemma confirmed_seen:
  "k \<in> edge_key_of cfg ` set es \<Longrightarrow> \<exists>r. find_row k (fold (confirm_edge cfg ts) es tab) = Some r \<and>
     m_state r \<in> {Active, Confirming} \<and> 0 < m_hits r \<and> m_last_ts r = ts"
proof (induction es rule: rev_induct)
  case (snoc x es)
  show ?case
  proof (cases "edge_key_of cfg x = k")
    case True
    then show ?thesis by (simp add: find_row_confirm confirmed_row_def Let_def split: option.split)
  next
    case False
    then show ?thesis using snoc by (simp add: find_row_confirm)
  qed
qed simp

lemma observed_row:
  assumes "e \<in> set (ev_edges ev)"
  shows "\<exists>r. find_row (edge_key_of cfg e) (observe_edges cfg ev tab) = Some r \<and>
     m_state r \<in> {Active, Confirming} \<and> 0 < m_hits r \<and> m_last_ts r = ev_ts ev"
proof -
  define tab1 where "tab1 = (case ev_pairs ev of None \<Rightarrow> tab
    | Some ps \<Rightarrow> seed_structural cfg (stable_workload ` ev_pods ev) (ev_ts ev) ps tab)"
  obtain r where r: "find_row (edge_key_of cfg e) (fold (confirm_edge cfg (ev_ts ev)) (ev_edges ev) tab1) = Some r"
    "m_state r \<in> {Active, Confirming}" "0 < m_hits r" "m_last_ts r = ev_ts ev"
    using confirmed_seen[of "edge_key_of cfg e" cfg "ev_edges ev" "ev_ts ev" tab1] assms by blast
  then have "row_key r \<in> edge_key_of cfg ` set (ev_edges ev)" using find_row_Some[OF r(1)] assms by simp
  then show ?thesis using r by (simp add: observe_edges_def Let_def tab1_def[symmetric] find_row_decay)
qed

lemma families_founders:
  assumes "lib_ok cfg hash K l"
  shows "card ((\<lambda>c. case cs_family c of None \<Rightarrow> cs_id c | Some f \<Rightarrow> f) ` set (l_cases l)) =
     length (filter (\<lambda>c. cs_family c = Some (cs_id c)) (l_cases l))"
proof -
  let ?g = "\<lambda>c. case cs_family c of None \<Rightarrow> cs_id c | Some f \<Rightarrow> f"
  let ?F = "filter (\<lambda>c. cs_family c = Some (cs_id c)) (l_cases l)"
  have fam: "\<exists>r \<in> set (l_cases l). cs_family c = Some (cs_id r) \<and> cs_family r = Some (cs_id r)" if "c \<in> set (l_cases l)" for c
    using assms that unfolding lib_ok_def case_ok_def by blast
  have "?g ` set (l_cases l) = cs_id ` set ?F"
  proof
    show "?g ` set (l_cases l) \<subseteq> cs_id ` set ?F"
    proof
      fix f assume "f \<in> ?g ` set (l_cases l)"
      then obtain c where c: "c \<in> set (l_cases l)" "f = ?g c" by blast
      from fam[OF c(1)] obtain r where "r \<in> set (l_cases l)" "cs_family c = Some (cs_id r)" "cs_family r = Some (cs_id r)" by blast
      then show "f \<in> cs_id ` set ?F" using c(2) by (intro image_eqI[of _ _ r]) simp_all
    qed
    show "cs_id ` set ?F \<subseteq> ?g ` set (l_cases l)"
    proof
      fix f assume "f \<in> cs_id ` set ?F"
      then obtain c where "c \<in> set ?F" "f = cs_id c" by (rule imageE)
      then have "c \<in> set (l_cases l)" "cs_family c = Some (cs_id c)" "f = cs_id c" by simp_all
      then show "f \<in> ?g ` set (l_cases l)" by (intro image_eqI[of _ _ c]) simp_all
    qed
  qed
  moreover have "distinct (map cs_id ?F)" using assms by (simp add: lib_ok_def distinct_map_filter)
  from distinct_card[OF this] have "card (cs_id ` set ?F) = length ?F" by (simp only: set_map length_map)
  ultimately show ?thesis by (simp only:)
qed

text \<open>The mistakes of a file: one open row per recorded mistake, whatever else happens.\<close>

fun is_mistake :: "mem_event \<Rightarrow> bool" where
  "is_mistake (Mistake _ _ _ _ _) = True"
| "is_mistake _ = False"

definition open_mistakes :: "store \<Rightarrow> nat" where
  "open_mistakes st = length (filter (\<lambda>m. mk_status m = ''open'') (s_mistakes st))"

lemma open_store_mistakes: "s_mistakes (open_store t params st) = s_mistakes st"
  by (simp add: open_store_def record_model_version_def migrate_def Let_def)

lemma open_mistakes_step:
  "mem_step lib cfg hash st ev st' \<Longrightarrow> open_mistakes st' = open_mistakes st + (if is_mistake ev then 1 else 0)"
  by (cases rule: mem_step.cases) (auto simp: open_mistakes_def remember_sel record_mistake_def open_store_mistakes)

lemma open_mistakes_run:
  "run (mem_step lib cfg hash) st evs st' \<Longrightarrow> open_mistakes st' = open_mistakes st + length (filter is_mistake evs)"
  by (induction rule: run.induct) (simp_all add: open_mistakes_step)

text \<open>The keys of the table and the ids of the library are unique, so counting rows counts edges and cases.\<close>

lemma stats_exact:
  assumes "good_store cfg hash K st"
  shows "st_edges (stats st) = card (row_key ` set (s_edges st))"
    and "st_visible (stats st) = card {k. \<exists>r \<in> set (s_edges st). row_key r = k \<and> m_visible r}"
    and "st_cases (stats st) = card (cs_id ` set (l_cases (s_lib st)))"
    and "st_families (stats st) = length (filter (\<lambda>c. cs_family c = Some (cs_id c)) (l_cases (s_lib st)))"
    and "st_mistakes (stats st) = open_mistakes st"
proof -
  have d: "distinct (map row_key (s_edges st))" and c: "distinct (map cs_id (l_cases (s_lib st)))" and l: "lib_ok cfg hash K (s_lib st)"
    using assms by (simp_all add: good_store_def wf_table_def lib_ok_def)
  show "st_edges (stats st) = card (row_key ` set (s_edges st))" using distinct_card[OF d] by (simp add: stats_def)
  have "distinct (map row_key (filter m_visible (s_edges st)))" using d by (simp add: distinct_map_filter)
  moreover have "{k. \<exists>r \<in> set (s_edges st). row_key r = k \<and> m_visible r} = set (map row_key (filter m_visible (s_edges st)))" by (force simp: image_iff)
  ultimately show "st_visible (stats st) = card {k. \<exists>r \<in> set (s_edges st). row_key r = k \<and> m_visible r}"
    by (simp only: distinct_card stats_def mem_stats.select_convs length_map)
  show "st_cases (stats st) = card (cs_id ` set (l_cases (s_lib st)))" using distinct_card[OF c] by (simp add: stats_def)
qed (use assms in \<open>simp_all add: stats_def open_mistakes_def good_store_def families_founders[of cfg hash K]\<close>)

subsection \<open>Properties\<close>

text \<open>
  C16. The memory is permanent: between any two moments of its life, whatever passes, recorded mistakes
  and restarts of the service lie between them, no row of the edge table disappears, and its learned
  base, its hit count and its first sighting are kept or grow; no case disappears or changes its id, key
  or family; and the archives of observations, snapshots and mistakes only grow at the end.
\<close>

theorem memory_permanent:
  assumes "run (mem_step lib cfg hash) (open_store t params new_store) evs st" and "run (mem_step lib cfg hash) st evs' st'"
    and "\<forall>ev \<in> set evs \<union> set evs'. good_event cfg hash K ev"
  shows "(\<forall>r \<in> set (s_edges st). \<exists>r' \<in> set (s_edges st'). row_key r' = row_key r \<and> m_base r \<le> m_base r' \<and>
       m_hits r \<le> m_hits r' \<and> m_first_ts r' = m_first_ts r) \<and>
    (\<forall>c \<in> set (l_cases (s_lib st)). \<exists>c' \<in> set (l_cases (s_lib st')). cs_id c' = cs_id c \<and> cs_key c' = cs_key c \<and>
       cs_family c' = cs_family c \<and> cs_occ c \<le> cs_occ c') \<and>
    (\<exists>xs. l_obs (s_lib st') = l_obs (s_lib st) @ xs) \<and> (\<exists>xs. s_snapshots st' = s_snapshots st @ xs) \<and>
    (\<exists>xs. s_mistakes st' = s_mistakes st @ xs)"
proof -
  have "good_store cfg hash K st" using memory.run_inv[OF assms(1) good_store_new] assms(3) by simp
  from memory.run_rel[OF assms(2) this] have p: "preserved st st'" using assms(3) by simp
  then have l: "retains (s_lib st) (s_lib st')" by (simp add: preserved_def)
  show ?thesis
  proof (intro conjI)
    show "\<forall>c \<in> set (l_cases (s_lib st)). \<exists>c' \<in> set (l_cases (s_lib st')). cs_id c' = cs_id c \<and> cs_key c' = cs_key c \<and>
       cs_family c' = cs_family c \<and> cs_occ c \<le> cs_occ c'" using l unfolding retains_def by meson
  qed (use p l in \<open>simp_all add: preserved_def kept_def retains_def\<close>)
qed

text \<open>
  C9. Observing a pass always returns a graph, whatever happened to the memory before: every live edge is
  drawn with its own fields and with the row of its workloads as it is after this pass, the one of its key:
  the rounded confidence, the state, confirming or active, and the hits, at least one, of a row last seen now.
  The statistics are exact: the number of workload pairs remembered and of those that are visible, of different
  cases and of those that founded a family, and the open mistakes are all that were ever recorded.
\<close>

theorem observe_returns:
  assumes "digraph_api nx" and "run (mem_step lib cfg hash) (open_store t params new_store) evs st"
    and "\<forall>ev \<in> insert (Observed ob) (set evs). good_event cfg hash K ev"
  shows "\<exists>out st'. observe lib nx cfg hash ob st = (Inr out, st') \<and> mem_step lib cfg hash st (Observed ob) st' \<and>
    (\<forall>e \<in> set (p_edges (in_graph ob)). \<exists>h \<in> set (g_edges (out_graph out)). \<exists>i. \<exists>r \<in> set (s_edges st').
       e_src h = e_src e \<and> e_dst h = e_dst e \<and> e_r h = e_r e \<and> x_mem h = Some i \<and> mi_source i = Live \<and>
       row_key r = edge_key_of cfg e \<and> mi_conf i = round3 (m_conf r) \<and> mi_weight i = round3 (m_conf r) \<and>
       mi_state i = m_state r \<and> mi_hits i = m_hits r \<and>
       m_state r \<in> {Active, Confirming} \<and> 0 < m_hits r \<and> m_last_ts r = time_of ob) \<and>
    st_edges (out_stats out) = card (row_key ` set (s_edges st')) \<and>
    st_visible (out_stats out) = card {k. \<exists>r \<in> set (s_edges st'). row_key r = k \<and> m_visible r} \<and>
    st_cases (out_stats out) = card (cs_id ` set (l_cases (s_lib st'))) \<and>
    st_families (out_stats out) = length (filter (\<lambda>c. cs_family c = Some (cs_id c)) (l_cases (s_lib st'))) \<and>
    st_mistakes (out_stats out) = length (filter is_mistake evs)"
proof -
  let ?st' = "snd (remember lib cfg hash ob st)"
  have ev: "good_event cfg hash K (Observed ob)" using assms(3) by simp
  then have unit: "\<And>e. e \<in> set (p_edges (in_graph ob)) \<Longrightarrow> \<bar>e_r e\<bar> \<le> 1" by (simp add: good_event_def)
  have "good_store cfg hash K st" using memory.run_inv[OF assms(2) good_store_new] assms(3) by simp
  from good_store_remember[OF this ev] have good: "good_store cfg hash K ?st'" by blast
  then have ur: "unit_rows (s_edges ?st')" by (simp add: good_store_def)
  from render_stages[OF assms(1) ur unit, where cfg = cfg and now = "in_clock ob" and vectors = "in_vectors ob"]
  obtain g where g: "render nx cfg (in_clock ob) (Some (in_vectors ob)) (in_graph ob) (s_edges ?st') = Inr g"
    "g_edges g = map (live_edge cfg (s_edges ?st')) (p_edges (in_graph ob)) @
       held_edges cfg (in_clock ob) (wl_pod (in_vectors ob)) (p_edges (in_graph ob)) (s_edges ?st')" by blast
  let ?out = "\<lparr>out_graph = g, out_case = fst (remember lib cfg hash ob st), out_stats = stats ?st'\<rparr>"
  have ob: "observe lib nx cfg hash ob st = (Inr ?out, ?st')" 
    using g(1) by (cases "remember lib cfg hash ob st") (simp add: observe_def)
  have live: "\<exists>h \<in> set (g_edges g). \<exists>i. \<exists>r \<in> set (s_edges ?st').
      e_src h = e_src e \<and> e_dst h = e_dst e \<and> e_r h = e_r e \<and> x_mem h = Some i \<and> mi_source i = Live \<and>
      row_key r = edge_key_of cfg e \<and> mi_conf i = round3 (m_conf r) \<and> mi_weight i = round3 (m_conf r) \<and>
      mi_state i = m_state r \<and> mi_hits i = m_hits r \<and>
      m_state r \<in> {Active, Confirming} \<and> 0 < m_hits r \<and> m_last_ts r = time_of ob" if e: "e \<in> set (p_edges (in_graph ob))" for e
  proof -
    obtain r where r: "find_row (edge_key_of cfg e) (s_edges ?st') = Some r" "m_state r \<in> {Active, Confirming}" "0 < m_hits r"
      "m_last_ts r = time_of ob"
      using observed_row[of e "edge_event ob" cfg "s_edges st"] e by (auto simp: remember_sel edge_event_def)
    show ?thesis using e r find_row_Some[OF r(1)]
      by (intro bexI[of _ "live_edge cfg (s_edges ?st') e"] exI bexI[of _ r] conjI) (auto simp: live_edge_def g(2))
  qed
  have "open_mistakes (open_store t params new_store) = 0" by (simp add: open_mistakes_def open_store_mistakes new_store_def)
  then have mk: "open_mistakes ?st' = length (filter is_mistake evs)"
    using open_mistakes_run[OF assms(2)] by (simp add: open_mistakes_def remember_sel)
  show ?thesis
    by (rule exI[of _ ?out], rule exI[of _ ?st']) (use live stats_exact[OF good] mk in \<open>simp add: ob step_observe\<close>)
qed

text \<open>
  Opening an existing file loses nothing but the beliefs of the first schema: the archive of
  observations and snapshots, the mistakes, the ids, keys and counts of all cases are untouched; the
  rows of the edge table keep their keys and confidences, except that those of version 1, keyed by pod
  name, are dropped; and opening it once more changes nothing.
\<close>

theorem migration_preserves:
  "l_obs (s_lib (open_store now params st)) = l_obs (s_lib st) \<and>
   s_snapshots (open_store now params st) = s_snapshots st \<and> s_mistakes (open_store now params st) = s_mistakes st \<and>
   map (\<lambda>c. (cs_id c, cs_key c, cs_occ c)) (l_cases (s_lib (open_store now params st))) =
     map (\<lambda>c. (cs_id c, cs_key c, cs_occ c)) (l_cases (s_lib st)) \<and>
   map (\<lambda>r. (row_key r, m_conf r)) (s_edges (open_store now params st)) =
     (if s_schema st = Some ''l3-memory-v1'' then [] else map (\<lambda>r. (row_key r, m_conf r)) (s_edges st)) \<and>
   open_store now' params (open_store now params st) = open_store now params st"
proof -
  have m: "migrate (record_model_version now c v p n (migrate st)) = record_model_version now c v p n (migrate st)" for c v p n
    by (simp add: migrate_def record_model_version_def Let_def)
  have v: "record_model_version now' c v p n (record_model_version now c v p n st) = record_model_version now c v p n st" for c v p n st
    by (auto simp: record_model_version_def)
  have twice: "open_store now' params (open_store now params st) = open_store now params st"
    unfolding open_store_def m v ..
  have sel: "s_lib (open_store now params st) = s_lib (migrate st)" "s_edges (open_store now params st) = s_edges (migrate st)"
    "s_snapshots (open_store now params st) = s_snapshots (migrate st)"
    "s_mistakes (open_store now params st) = s_mistakes (migrate st)"
    by (simp_all add: open_store_def record_model_version_def)
  have lib: "l_obs (s_lib (migrate st)) = l_obs (s_lib st)"
    "map (\<lambda>c. (cs_id c, cs_key c, cs_occ c)) (l_cases (s_lib (migrate st))) =
     map (\<lambda>c. (cs_id c, cs_key c, cs_occ c)) (l_cases (s_lib st))"
    "s_snapshots (migrate st) = s_snapshots st" "s_mistakes (migrate st) = s_mistakes st"
    by (simp_all add: migrate_def Let_def comp_def)
  have edges: "map (\<lambda>r. (row_key r, m_conf r)) (s_edges (migrate st)) =
     (if s_schema st = Some ''l3-memory-v1'' then [] else map (\<lambda>r. (row_key r, m_conf r)) (s_edges st))"
    by (simp add: migrate_def Let_def comp_def SCHEMA_VERSION_def)
  show ?thesis unfolding twice sel using lib edges by simp
qed

subsection \<open>A concrete observation\<close>

definition disk_observation :: observation_in where
  "disk_observation = \<lparr>in_graph = disk_incident, in_vectors = [(''a-1-1'', []), (''b-1-1'', [])], in_pairs = None,
     in_ts = Some 10, in_clock = 10\<rparr>"

lemma disk_event: "good_event default_config disk_hash {disk_key} (Observed disk_observation)"
  using disk_facts sane_default by (simp add: good_event_def disk_observation_def) (simp add: disk_incident_def)

definition disk_store :: store where
  "disk_store = snd (remember ref_lib default_config disk_hash disk_observation (open_store 0 [] new_store))"

lemma disk_run: "run (mem_step ref_lib default_config disk_hash) (open_store 0 [] new_store) [Observed disk_observation] disk_store"
  unfolding disk_store_def by (rule run_step, rule step_observe, rule run_refl)

theorem memory_permanent_witness:
  "\<exists>r' \<in> set (s_edges (open_store 60 [] disk_store)). row_key r' = (''a'', ''b'', ''psi_io'') \<and> 16/100 \<le> m_base r'"
proof -
  have "run (mem_step ref_lib default_config disk_hash) disk_store [Restart 60 []] (open_store 60 [] disk_store)"
    by (rule run_step, rule step_restart, rule run_refl)
  from memory_permanent[OF disk_run this, of "{disk_key}"] disk_event
  have all: "\<forall>r \<in> set (s_edges disk_store). \<exists>r' \<in> set (s_edges (open_store 60 [] disk_store)). row_key r' = row_key r \<and>
      m_base r \<le> m_base r' \<and> m_hits r \<le> m_hits r' \<and> m_first_ts r' = m_first_ts r" by (simp add: good_event_def)
  have "map (\<lambda>r. (row_key r, m_base r)) (s_edges disk_store) = [((''a'', ''b'', ''psi_io''), 16/100)]"
    by code_simp
  then obtain r where "r \<in> set (s_edges disk_store)" "row_key r = (''a'', ''b'', ''psi_io'')" "m_base r = 16/100" by auto
  with all show ?thesis by metis
qed

definition disk_mistake :: mem_event where
  "disk_mistake = Mistake 30 ''a'' ''b'' None []"

theorem observe_returns_witness:
  "\<exists>out st st'. run (mem_step ref_lib default_config disk_hash) (open_store 0 [] new_store) [Observed disk_observation, disk_mistake] st \<and>
     observe ref_lib ref_nx default_config disk_hash disk_observation st = (Inr out, st') \<and> st_mistakes (out_stats out) = 1 \<and>
     (\<exists>h \<in> set (g_edges (out_graph out)). e_src h = ''a-1-1'' \<and> e_dst h = ''b-1-1'' \<and> x_mem h \<noteq> None)"
proof -
  let ?st = "record_mistake 30 ''a'' ''b'' None [] disk_store"
  have "run (mem_step ref_lib default_config disk_hash) disk_store [disk_mistake] ?st"
    unfolding disk_mistake_def by (rule run_step, rule step_mistake, rule run_refl)
  from run_append[OF disk_run this]
  have run: "run (mem_step ref_lib default_config disk_hash) (open_store 0 [] new_store) [Observed disk_observation, disk_mistake] ?st" by simp
  have ok: "\<forall>ev \<in> insert (Observed disk_observation) (set [Observed disk_observation, disk_mistake]). good_event default_config disk_hash {disk_key} ev"
    using disk_event by (simp add: disk_mistake_def good_event_def)
  obtain e where e: "e \<in> set (p_edges (in_graph disk_observation))" "e_src e = ''a-1-1''" "e_dst e = ''b-1-1''"
    by (simp add: disk_observation_def disk_incident_def)
  have one: "length (filter is_mistake [Observed disk_observation, disk_mistake]) = 1" by (simp add: disk_mistake_def)
  from observe_returns[OF rnx.digraph_api_axioms run ok] e one obtain out st' h where
    o: "observe ref_lib ref_nx default_config disk_hash disk_observation ?st = (Inr out, st')" "st_mistakes (out_stats out) = 1"
    "h \<in> set (g_edges (out_graph out))" "e_src h = ''a-1-1''" "e_dst h = ''b-1-1''" "x_mem h \<noteq> None"
    by (metis option.distinct(1))
  show ?thesis
    by (intro exI[of _ out] exI[of _ ?st] exI[of _ st'] conjI bexI[of _ h] run o)
qed

end
