(* ===== verification/Service.thy ===== *)
theory Service
  imports Inputs Memory
begin

text \<open>
  The service of \<open>correlation/service.py\<close>: one iteration of \<open>loop\<close> as a function of what the aggregator
  answered, and the handler of requests.  Its state is the memory file and the published graph, the
  global \<open>_graph\<close>, which the lock makes a single variable.  The clock is an argument, and so is \<open>iter\<close>,
  the order in which a set of pairs is iterated.
\<close>

datatype loop_error = FetchError string | Raised py_error

datatype published = Booted rendered mem_stats | Verdict observation_out | EngineError loop_error

record poll =
  pl_window :: "string + window"
  pl_events :: "string + json_event list"
  pl_clock :: real

record service =
  sv_store :: store
  sv_graph :: published

record 'g engine =
  en_lib :: numlib
  en_nx :: "'g nx"
  en_mem :: mem_config
  en_svc :: svc_config
  en_hash :: "case_key \<Rightarrow> string"
  en_epoch :: "string option \<Rightarrow> real option"
  en_iter :: "pod set set \<Rightarrow> pod set list"

definition or_none :: "'a list \<Rightarrow> 'a list option" where
  "or_none xs = (if xs = [] then None else Some xs)"

definition pod_thresholds :: "mem_config \<Rightarrow> base_table \<Rightarrow> signal_vec pdict \<Rightarrow> real option pdict" where
  "pod_thresholds cfg tab vectors = map (\<lambda>pv. (fst pv, baseline_threshold cfg tab (workload (fst pv)))) vectors"

definition service_pass :: "'g engine \<Rightarrow> inputs \<Rightarrow> store \<Rightarrow> pass_result res" where
  "service_pass en inp st = run_pass (en_lib en) (en_nx en) (i_vectors inp) (i_witness inp) (or_none (i_breach inp)) None
     (Some (v_window (en_svc en))) (or_none (i_write inp))
     (Some (pod_thresholds (en_mem en) (s_baselines st) (i_vectors inp)))"

definition observe_pass :: "'g engine \<Rightarrow> inputs \<Rightarrow> real \<Rightarrow> pass_result \<Rightarrow> store \<Rightarrow> observation_out res \<times> store" where
  "observe_pass en inp clock out st = observe (en_lib en) (en_nx en) (en_mem en) (en_hash en)
     \<lparr>in_graph = out, in_vectors = i_vectors inp, in_pairs = Some (en_iter en (shared_relation (i_witness inp))),
      in_ts = Some clock, in_clock = clock\<rparr> st"

definition loop_body :: "'g engine \<Rightarrow> poll \<Rightarrow> service \<Rightarrow> service" where
  "loop_body en p sv = (case pl_window p of Inl e \<Rightarrow> sv\<lparr>sv_graph := EngineError (FetchError e)\<rparr>
   | Inr window \<Rightarrow> (case pl_events p of Inl e \<Rightarrow> sv\<lparr>sv_graph := EngineError (FetchError e)\<rparr>
   | Inr events \<Rightarrow> (case build_inputs (en_svc en) (en_epoch en) window events of Inl e \<Rightarrow> sv\<lparr>sv_graph := EngineError (Raised e)\<rparr>
   | Inr inp \<Rightarrow>
       if i_vectors inp = [] then sv
       else (case service_pass en inp (sv_store sv) of Inl e \<Rightarrow> sv\<lparr>sv_graph := EngineError (Raised e)\<rparr>
         | Inr out \<Rightarrow> (case observe_pass en inp (pl_clock p) out (sv_store sv) of
               (Inl e, st') \<Rightarrow> \<lparr>sv_store = st', sv_graph = EngineError (Raised e)\<rparr>
             | (Inr ob, st') \<Rightarrow> \<lparr>sv_store = st', sv_graph = Verdict ob\<rparr>)))))"

definition svc_step :: "'g engine \<Rightarrow> service \<Rightarrow> poll \<Rightarrow> service \<Rightarrow> bool" where
  "svc_step en sv p sv' \<longleftrightarrow> sv' = loop_body en p sv"

definition boot :: "'g engine \<Rightarrow> real \<Rightarrow> string \<Rightarrow> store \<Rightarrow> service res" where
  "boot en now params st = (let st' = open_store now params st in
     rbind (bootstrap_graph (en_nx en) (en_mem en) now (s_edges st')) (\<lambda>g.
       Inr \<lparr>sv_store = st', sv_graph = Booted g (stats st')\<rparr>))"

subsection \<open>Requests\<close>

datatype http_body = HealthOk | GraphJson published | NotFound

definition rstrip_slash :: "string \<Rightarrow> string" where
  "rstrip_slash path = rev (dropWhile (\<lambda>c. c = slash) (rev path))"

record http_reply =
  hr_code :: nat
  hr_body :: http_body
  hr_type :: string

definition send_reply :: "nat \<Rightarrow> http_body \<Rightarrow> string \<Rightarrow> http_reply" where
  "send_reply code body ctype = \<lparr>hr_code = code, hr_body = body, hr_type = ctype\<rparr>"

definition do_GET :: "string \<Rightarrow> service \<Rightarrow> http_reply" where
  "do_GET path sv =
     (if path = ''/healthz'' then send_reply 200 HealthOk ''text/plain''
      else if rstrip_slash path \<in> {[], ''/graph''} then send_reply 200 (GraphJson (sv_graph sv)) ''application/json''
      else send_reply 404 NotFound ''text/plain'')"


lemma rstrip_slash_strip: "rstrip_slash (p @ replicate n slash) = rstrip_slash p"
proof -
  have "dropWhile (\<lambda>c. c = slash) (replicate n slash @ xs) = dropWhile (\<lambda>c. c = slash) xs" for xs
    by (induction n) simp_all
  then show ?thesis by (simp add: rstrip_slash_def)
qed

lemma rstrip_slash_split: "\<exists>n. path = rstrip_slash path @ replicate n slash"
proof (induction path rule: rev_induct)
  case (snoc c path)
  show ?case
  proof (cases "c = slash")
    case True
    then have "rstrip_slash (path @ [c]) = rstrip_slash path" using rstrip_slash_strip[of path 1] by simp
    moreover obtain n where "path = rstrip_slash path @ replicate n slash" using snoc by blast
    ultimately have "path @ [c] = rstrip_slash (path @ [c]) @ replicate (Suc n) slash"
      using True by (metis append.assoc replicate_Suc replicate_append_same)
    then show ?thesis by blast
  next
    case False
    then have "rstrip_slash (path @ [c]) = path @ [c]" by (simp add: rstrip_slash_def)
    then show ?thesis by (intro exI[of _ 0]) simp
  qed
qed (simp add: rstrip_slash_def)

subsection \<open>One iteration\<close>

lemma service_pass_sound:
  assumes "stats_api (en_lib en)" "digraph_api (en_nx en)" "build_inputs (en_svc en) (en_epoch en) w es = Inr inp"
  shows "\<exists>out. service_pass en inp st = Inr out \<and> (\<forall>e \<in> set (p_edges out). \<bar>e_r e\<bar> \<le> 1)"
proof -
  have wf: "wf_input (i_vectors inp) (or_none (i_write inp))"
    using build_inputs_wf(3,4)[OF assms(3)] by (simp add: or_none_def)
  show ?thesis
  proof (rule run_pass_stages[OF assms(1,2) wf, where b = "Some (pod_thresholds (en_mem en) (s_baselines st) (i_vectors inp))"
        and w = "i_witness inp" and slo = "or_none (i_breach inp)" and caps = None and window = "Some (v_window (en_svc en))"])
    fix raw center fs edges rk bl
    assume "edge_set_ok (i_witness inp) (set (map f_pod fs))
        (fst ` set (i_vectors inp) \<union> fst ` set (opt_dict (or_none (i_write inp)))) edges"
      and run: "run_pass (en_lib en) (en_nx en) (i_vectors inp) (i_witness inp) (or_none (i_breach inp)) None
        (Some (v_window (en_svc en))) (or_none (i_write inp)) (Some (pod_thresholds (en_mem en) (s_baselines st) (i_vectors inp))) =
        Inr \<lparr>p_findings = sort_key f_onset_s fs, p_edges = edges, p_ranking = rk, p_blast = bl,
          p_pods = length (i_vectors inp), p_active = length fs, p_accepted = length edges\<rparr>"
    then have "\<forall>e \<in> set edges. \<bar>e_r e\<bar> \<le> 1" by (auto simp: edge_set_ok_def good_edge_def R_SRC_def)
    then show ?thesis using run by (simp add: service_pass_def)
  qed
qed

lemma observe_pass_sound:
  assumes "digraph_api (en_nx en)" "\<forall>e \<in> set (p_edges out). \<bar>e_r e\<bar> \<le> 1" "unit_rows (s_edges st)"
  shows "\<exists>ob st'. observe_pass en inp clock out st = (Inr ob, st') \<and> unit_rows (s_edges st') \<and>
    g_findings (out_graph ob) = p_findings out \<and>
    g_edges (out_graph ob) = map (live_edge (en_mem en) (s_edges st')) (p_edges out) @
      held_edges (en_mem en) clock (wl_pod (i_vectors inp)) (p_edges out) (s_edges st') \<and>
    re_rank (en_nx en) out (g_edges (out_graph ob)) = Inr (g_ranking (out_graph ob), g_blast (out_graph ob))"
proof -
  let ?in = "\<lparr>in_graph = out, in_vectors = i_vectors inp, in_pairs = Some (en_iter en (shared_relation (i_witness inp))),
      in_ts = Some clock, in_clock = clock\<rparr>"
  let ?st' = "snd (remember (en_lib en) (en_mem en) (en_hash en) ?in st)"
  have u: "unit_rows (s_edges ?st')" unfolding remember_sel
    by (rule unit_rows_observe[OF assms(3)]) (use assms(2) in \<open>simp add: edge_event_def\<close>)
  from render_stages[OF assms(1) u bspec[OF assms(2)], where cfg = "en_mem en" and now = clock and vectors = "i_vectors inp"]
  obtain g where g: "render (en_nx en) (en_mem en) clock (Some (i_vectors inp)) out (s_edges ?st') = Inr g"
    "g_findings g = p_findings out"
    "g_edges g = map (live_edge (en_mem en) (s_edges ?st')) (p_edges out) @
       held_edges (en_mem en) clock (wl_pod (i_vectors inp)) (p_edges out) (s_edges ?st')"
    "re_rank (en_nx en) out (g_edges g) = Inr (g_ranking g, g_blast g)" by blast
  have "observe_pass en inp clock out st = (Inr \<lparr>out_graph = g, out_case = fst (remember (en_lib en) (en_mem en) (en_hash en) ?in st),
      out_stats = stats ?st'\<rparr>, ?st')"
    using g(1) by (cases "remember (en_lib en) (en_mem en) (en_hash en) ?in st") (simp add: observe_pass_def observe_def)
  then show ?thesis using u g(2-4) by simp
qed

lemma loop_body_clean:
  assumes en: "stats_api (en_lib en)" "digraph_api (en_nx en)" and u: "unit_rows (s_edges (sv_store sv))"
    and p: "pl_window p = Inr w" "pl_events p = Inr es" and inp: "build_inputs (en_svc en) (en_epoch en) w es = Inr inp"
    and ne: "i_vectors inp \<noteq> []"
  shows "\<exists>out ob. service_pass en inp (sv_store sv) = Inr out \<and>
    loop_body en p sv = \<lparr>sv_store = snd (observe_pass en inp (pl_clock p) out (sv_store sv)), sv_graph = Verdict ob\<rparr> \<and>
    unit_rows (s_edges (sv_store (loop_body en p sv))) \<and> g_findings (out_graph ob) = p_findings out \<and>
    g_edges (out_graph ob) = map (live_edge (en_mem en) (s_edges (sv_store (loop_body en p sv)))) (p_edges out) @
      held_edges (en_mem en) (pl_clock p) (wl_pod (i_vectors inp)) (p_edges out) (s_edges (sv_store (loop_body en p sv))) \<and>
    re_rank (en_nx en) out (g_edges (out_graph ob)) = Inr (g_ranking (out_graph ob), g_blast (out_graph ob))"
proof -
  obtain out where out: "service_pass en inp (sv_store sv) = Inr out" "\<forall>e \<in> set (p_edges out). \<bar>e_r e\<bar> \<le> 1"
    using service_pass_sound[OF en inp] by blast
  obtain ob st' where ob: "observe_pass en inp (pl_clock p) out (sv_store sv) = (Inr ob, st')" "unit_rows (s_edges st')"
    "g_findings (out_graph ob) = p_findings out"
    "g_edges (out_graph ob) = map (live_edge (en_mem en) (s_edges st')) (p_edges out) @
      held_edges (en_mem en) (pl_clock p) (wl_pod (i_vectors inp)) (p_edges out) (s_edges st')"
    "re_rank (en_nx en) out (g_edges (out_graph ob)) = Inr (g_ranking (out_graph ob), g_blast (out_graph ob))"
    using observe_pass_sound[OF en(2) out(2) u, of inp "pl_clock p"] by blast
  have body: "loop_body en p sv = \<lparr>sv_store = st', sv_graph = Verdict ob\<rparr>"
    by (simp add: loop_body_def p inp ne out(1) ob(1))
  show ?thesis unfolding body
    by (intro exI[of _ out] exI[of _ ob]) (use ob(5) in \<open>simp add: out(1) ob(1-4)\<close>)
qed

lemma observe_pass_store:
  "snd (observe_pass en inp clock out st) = snd (remember (en_lib en) (en_mem en) (en_hash en)
     \<lparr>in_graph = out, in_vectors = i_vectors inp, in_pairs = Some (en_iter en (shared_relation (i_witness inp))),
      in_ts = Some clock, in_clock = clock\<rparr> st)"
  by (simp add: observe_pass_def observe_def split: prod.split)

lemma observe_pass_edges:
  "s_edges (sv_store \<lparr>sv_store = snd (observe_pass en inp clock out st), sv_graph = g\<rparr>) = observe_edges (en_mem en)
     (edge_event \<lparr>in_graph = out, in_vectors = i_vectors inp, in_pairs = Some (en_iter en (shared_relation (i_witness inp))),
      in_ts = Some clock, in_clock = clock\<rparr>) (s_edges st)"
  by (simp add: observe_pass_store remember_sel)

lemma loop_body_unit:
  assumes "stats_api (en_lib en)" "digraph_api (en_nx en)" "unit_rows (s_edges (sv_store sv))"
  shows "unit_rows (s_edges (sv_store (loop_body en p sv)))"
proof (cases "\<exists>w es inp. pl_window p = Inr w \<and> pl_events p = Inr es \<and>
    build_inputs (en_svc en) (en_epoch en) w es = Inr inp \<and> i_vectors inp \<noteq> []")
  case True
  then show ?thesis using loop_body_clean[OF assms] by blast
next
  case False
  then have "sv_store (loop_body en p sv) = sv_store sv" by (auto simp: loop_body_def split: sum.splits)
  then show ?thesis using assms(3) by simp
qed

text \<open>What is published: every drawn edge carries its memory.\<close>

definition published_ok :: "published \<Rightarrow> bool" where
  "published_ok p = (case p of Booted g _ \<Rightarrow> g_edges g = [] | EngineError _ \<Rightarrow> True
     | Verdict ob \<Rightarrow> \<forall>h \<in> set (g_edges (out_graph ob)). x_mem h \<noteq> None)"

lemma loop_body_published:
  assumes "stats_api (en_lib en)" "digraph_api (en_nx en)" "unit_rows (s_edges (sv_store sv))" "published_ok (sv_graph sv)"
  shows "published_ok (sv_graph (loop_body en p sv))"
proof (cases "\<exists>w es inp. pl_window p = Inr w \<and> pl_events p = Inr es \<and>
    build_inputs (en_svc en) (en_epoch en) w es = Inr inp \<and> i_vectors inp \<noteq> []")
  case True
  then obtain w es inp where c: "pl_window p = Inr w" "pl_events p = Inr es"
    "build_inputs (en_svc en) (en_epoch en) w es = Inr inp" "i_vectors inp \<noteq> []" by blast
  obtain out ob where ob:
    "loop_body en p sv = \<lparr>sv_store = snd (observe_pass en inp (pl_clock p) out (sv_store sv)), sv_graph = Verdict ob\<rparr>"
    "g_edges (out_graph ob) = map (live_edge (en_mem en) (s_edges (sv_store (loop_body en p sv)))) (p_edges out) @
      held_edges (en_mem en) (pl_clock p) (wl_pod (i_vectors inp)) (p_edges out) (s_edges (sv_store (loop_body en p sv)))"
    using loop_body_clean[OF assms(1-3) c] by blast
  let ?tab = "s_edges (sv_store (loop_body en p sv))"
  have seen: "find_row (edge_key_of (en_mem en) e) ?tab \<noteq> None" if "e \<in> set (p_edges out)" for e
    unfolding ob(1) observe_pass_edges by (rule observe_keeps_seen) (simp add: edge_event_def that)
  have "x_mem h \<noteq> None" if "h \<in> set (g_edges (out_graph ob))" for h
    using that unfolding ob(2) set_append set_map
  proof (elim UnE imageE)
    fix e assume "h = live_edge (en_mem en) ?tab e" "e \<in> set (p_edges out)"
    then show ?thesis using live_edge_mem[OF seen] by simp
  qed (rule held_edges_mem)
  then show ?thesis by (simp add: published_ok_def ob(1))
next
  case False
  then show ?thesis using assms(4) by (auto simp: loop_body_def published_ok_def split: sum.splits)
qed

interpretation loop: invariant_machine "svc_step en" "\<lambda>sv. unit_rows (s_edges (sv_store sv))"
  "\<lambda>_. stats_api (en_lib en) \<and> digraph_api (en_nx en)" for en
  by unfold_locales (auto simp: svc_step_def intro: loop_body_unit)

interpretation board: invariant_machine "svc_step en" "\<lambda>sv. unit_rows (s_edges (sv_store sv)) \<and> published_ok (sv_graph sv)"
  "\<lambda>_. stats_api (en_lib en) \<and> digraph_api (en_nx en)" for en
  by unfold_locales (auto simp: svc_step_def intro: loop_body_unit loop_body_published)

text \<open>A booted service: the archive is opened and nothing is drawn.\<close>

lemma open_new_store [simp]:
  "s_edges (open_store now params new_store) = []" "s_baselines (open_store now params new_store) = []"
  by (simp_all add: open_store_def record_model_version_def migrate_def new_store_def SCHEMA_VERSION_def)

lemma boot_sound:
  assumes "boot en now params st = Inr sv"
  shows "sv_store sv = open_store now params st" "published_ok (sv_graph sv)"
  using assms by (auto simp: boot_def Let_def bootstrap_draws_nothing published_ok_def)

subsection \<open>How much a poll can teach\<close>

definition poll_inputs :: "'g engine \<Rightarrow> poll \<Rightarrow> inputs option" where
  "poll_inputs en p = (case (pl_window p, pl_events p) of
     (Inr w, Inr es) \<Rightarrow> (case build_inputs (en_svc en) (en_epoch en) w es of Inl e \<Rightarrow> None | Inr inp \<Rightarrow> Some inp)
   | _ \<Rightarrow> None)"

text \<open>The pods of a workload that a poll shows.\<close>

definition replicas :: "'g engine \<Rightarrow> string \<Rightarrow> poll \<Rightarrow> nat" where
  "replicas en wl p = (case poll_inputs en p of None \<Rightarrow> 0
     | Some inp \<Rightarrow> length (filter (\<lambda>pv. stable_workload (fst pv) = wl) (i_vectors inp)))"

lemma updates_loop_body:
  "updates k (s_baselines (sv_store (loop_body en p sv))) \<le>
     updates k (s_baselines (sv_store sv)) + replicas en (fst k) p"
proof (cases "poll_inputs en p")
  case None
  then have "sv_store (loop_body en p sv) = sv_store sv"
    by (auto simp: poll_inputs_def loop_body_def split: sum.splits)
  then show ?thesis by simp
next
  case (Some inp)
  then obtain w es where c: "pl_window p = Inr w" "pl_events p = Inr es"
    "build_inputs (en_svc en) (en_epoch en) w es = Inr inp" by (auto simp: poll_inputs_def split: sum.splits)
  have "sv_store (loop_body en p sv) = sv_store sv \<or>
      (\<exists>out. sv_store (loop_body en p sv) = snd (observe_pass en inp (pl_clock p) out (sv_store sv)))"
    by (auto simp: loop_body_def c split: sum.split prod.split) (metis snd_conv)+
  then show ?thesis
    using updates_learned[of k "en_lib en" "en_mem en" _ "i_vectors inp" "s_baselines (sv_store sv)"]
    by (auto simp: observe_pass_store remember_sel replicas_def Some)
qed

lemma updates_run:
  "run (svc_step en) sv polls sv' \<Longrightarrow>
   updates k (s_baselines (sv_store sv')) \<le> updates k (s_baselines (sv_store sv)) + (\<Sum>q\<leftarrow>polls. replicas en (fst k) q)"
proof (induction rule: run.induct)
  case (run_step sv p sv1 polls sv2)
  then show ?case using updates_loop_body[of k en p sv] by (simp add: svc_step_def)
qed simp

subsection \<open>Properties\<close>

text \<open>
  C10. The loop always answers: after any history of polls, good or bad, an iteration that fetched a
  payload whose readable samples have values and whose candidate events name their pods never ends in
  an error.  With no usable series it changes nothing; otherwise the pass succeeds, the memory takes it
  in, and the published graph has the findings of the pass and its edges first, in order.
\<close>

theorem loop_always_answers:
  assumes "stats_api (en_lib en)" and "digraph_api (en_nx en)" and "unit_rows (s_edges (sv_store sv0))"
    and "run (svc_step en) sv0 polls sv" and "pl_window p = Inr w" and "pl_events p = Inr es"
    and "complete_window (en_epoch en) w" and "complete_events es"
  shows "\<exists>inp. build_inputs (en_svc en) (en_epoch en) w es = Inr inp \<and>
    (if i_vectors inp = [] then loop_body en p sv = sv
     else \<exists>out ob held. service_pass en inp (sv_store sv) = Inr out \<and> sv_graph (loop_body en p sv) = Verdict ob \<and>
       g_findings (out_graph ob) = p_findings out \<and>
       g_edges (out_graph ob) = map (live_edge (en_mem en) (s_edges (sv_store (loop_body en p sv)))) (p_edges out) @ held)"
proof -
  have u: "unit_rows (s_edges (sv_store sv))" using loop.run_inv[OF assms(4,3)] assms(1,2) by simp
  obtain inp where inp: "build_inputs (en_svc en) (en_epoch en) w es = Inr inp" using build_inputs_total[OF assms(7,8)] by blast
  show ?thesis
  proof (cases "i_vectors inp = []")
    case True
    then show ?thesis using inp by (intro exI[of _ inp]) (simp add: loop_body_def assms(5,6))
  next
    case False
    from loop_body_clean[OF assms(1,2) u assms(5,6) inp False]
    have "\<exists>out ob held. service_pass en inp (sv_store sv) = Inr out \<and> sv_graph (loop_body en p sv) = Verdict ob \<and>
       g_findings (out_graph ob) = p_findings out \<and>
       g_edges (out_graph ob) = map (live_edge (en_mem en) (s_edges (sv_store (loop_body en p sv)))) (p_edges out) @ held"
      by (elim exE conjE) (intro exI conjI, assumption, simp, assumption+)
    then show ?thesis using inp False by (intro exI[of _ inp]) simp
  qed
qed

text \<open>
  An outage of the aggregator costs nothing but time: polls that could not be fetched leave the
  memory as if they had not happened, wherever they fall in the history, and each of them publishes its
  error.
\<close>

theorem outage_leaves_memory:
  "sv_store (fold (loop_body en) polls sv) =
     sv_store (fold (loop_body en) (filter (\<lambda>p. \<exists>w es. pl_window p = Inr w \<and> pl_events p = Inr es) polls) sv) \<and>
   sv_graph (loop_body en (p\<lparr>pl_window := Inl e\<rparr>) sv) = EngineError (FetchError e) \<and>
   sv_graph (loop_body en (p\<lparr>pl_window := Inr w, pl_events := Inl e\<rparr>) sv) = EngineError (FetchError e)"
proof -
  have same: "sv_store (loop_body en p a) = sv_store (loop_body en p b)" if "sv_store a = sv_store b" for p a b
    using that by (simp add: loop_body_def split: sum.split prod.split)
  have eq: "sv_store (fold (loop_body en) ps a) = sv_store (fold (loop_body en) ps b)" if "sv_store a = sv_store b" for ps a b
    using that
  proof (induction ps arbitrary: a b)
    case (Cons p ps)
    show ?case using Cons.IH[OF same[OF Cons.prems]] by simp
  qed simp
  have skip: "sv_store (loop_body en p a) = sv_store a" if "\<not> (\<exists>w es. pl_window p = Inr w \<and> pl_events p = Inr es)" for p a
    using that by (auto simp: loop_body_def split: sum.split)
  have "sv_store (fold (loop_body en) polls sv) =
     sv_store (fold (loop_body en) (filter (\<lambda>p. \<exists>w es. pl_window p = Inr w \<and> pl_events p = Inr es) polls) sv)"
  proof (induction polls arbitrary: sv)
    case (Cons p polls)
    show ?case
    proof (cases "\<exists>w es. pl_window p = Inr w \<and> pl_events p = Inr es")
      case True
      then show ?thesis using Cons by simp
    next
      case False
      then show ?thesis using Cons[of sv] eq[of "loop_body en p sv" sv] skip[OF False] by simp
    qed
  qed simp
  moreover have "sv_graph (loop_body en (p\<lparr>pl_window := Inl e\<rparr>) sv) = EngineError (FetchError e)"
    "sv_graph (loop_body en (p\<lparr>pl_window := Inr w, pl_events := Inl e\<rparr>) sv) = EngineError (FetchError e)"
    by (simp_all add: loop_body_def)
  ultimately show ?thesis by blast
qed

text \<open>
  A pass without a mature baseline accuses nobody: it publishes no finding, no suspect and no victim,
  and every edge it draws comes from the memory.
\<close>

lemma immature_engine_silent:
  assumes "stats_api (en_lib en)" and "digraph_api (en_nx en)" and "unit_rows (s_edges (sv_store sv))"
    and "\<forall>r \<in> ran (map_of (s_baselines (sv_store sv))). b_n r < c_base_min_n (en_mem en)"
    and "pl_window p = Inr w" and "pl_events p = Inr es" and "build_inputs (en_svc en) (en_epoch en) w es = Inr inp"
    and "i_vectors inp \<noteq> []"
  shows "\<exists>ob. sv_graph (loop_body en p sv) = Verdict ob \<and> g_findings (out_graph ob) = [] \<and>
    g_ranking (out_graph ob) = [] \<and> g_blast (out_graph ob) = [] \<and>
    (\<forall>h \<in> set (g_edges (out_graph ob)). \<exists>i. x_mem h = Some i \<and> mi_source i = FromMemory)"
proof -
  have thr: "baseline_threshold (en_mem en) (s_baselines (sv_store sv)) wl = None" for wl
    using assms(4) by (auto simp: baseline_threshold_def ran_def split: option.split)
  have none: "map_of (pod_thresholds (en_mem en) (s_baselines (sv_store sv)) (i_vectors inp)) q \<noteq> Some (Some t)" for q t
    by (auto simp: pod_thresholds_def thr dest: map_of_SomeD)
  have wf: "wf_input (i_vectors inp) (or_none (i_write inp))"
    using build_inputs_wf(3,4)[OF assms(7)] by (simp add: or_none_def)
  have quiet: "service_pass en inp (sv_store sv) = Inr \<lparr>p_findings = [],
    p_edges = [], p_ranking = [], p_blast = [], p_pods = length (i_vectors inp), p_active = 0, p_accepted = 0\<rparr>"
    unfolding service_pass_def by (rule run_pass_quiet[OF assms(1,2) wf]) (use none in blast)
  obtain out ob where ob: "service_pass en inp (sv_store sv) = Inr out"
    "loop_body en p sv = \<lparr>sv_store = snd (observe_pass en inp (pl_clock p) out (sv_store sv)), sv_graph = Verdict ob\<rparr>"
    "g_findings (out_graph ob) = p_findings out"
    "g_edges (out_graph ob) = map (live_edge (en_mem en) (s_edges (sv_store (loop_body en p sv)))) (p_edges out) @
      held_edges (en_mem en) (pl_clock p) (wl_pod (i_vectors inp)) (p_edges out) (s_edges (sv_store (loop_body en p sv)))"
    "re_rank (en_nx en) out (g_edges (out_graph ob)) = Inr (g_ranking (out_graph ob), g_blast (out_graph ob))"
    using loop_body_clean[OF assms(1-3,5-8)] by blast
  have out: "p_findings out = []" "p_edges out = []" "p_ranking out = []" "p_blast out = []" using ob(1) quiet by auto
  have "\<exists>i. x_mem h = Some i \<and> mi_source i = FromMemory" if h: "h \<in> set (g_edges (out_graph ob))" for h
  proof -
    have "h \<in> set (held_edges (en_mem en) (pl_clock p) (wl_pod (i_vectors inp)) [] (s_edges (sv_store (loop_body en p sv))))"
      using h unfolding ob(4) by (simp only: out list.map append_Nil)
    then obtain r where "held_edge (pl_clock p) (wl_pod (i_vectors inp)) r = Some h"
      unfolding held_edges_def set_map_filter by blast
    then show ?thesis unfolding held_edge_Some by (elim exE conjE) simp
  qed
  moreover have "g_ranking (out_graph ob) = []" "g_blast (out_graph ob) = []"
    using ob(5) out by (simp_all add: re_rank_def)
  ultimately show ?thesis using ob(2,3) out(1) by (intro exI[of _ ob]) simp
qed

text \<open>
  C27. A young engine accuses nobody: after the boot on a new file, as long as every workload was shown
  fewer than \<open>base_min_n\<close> times over the polls so far (a poll shows it once for each of its pods), the
  next answered poll publishes no finding, no suspect and no victim, and every edge it draws comes
  from the memory.
\<close>

theorem cold_start_silent:
  assumes "stats_api (en_lib en)" and "digraph_api (en_nx en)" and "boot en now params new_store = Inr sv0"
    and "run (svc_step en) sv0 polls sv" and "\<forall>wl. (\<Sum>q\<leftarrow>polls. replicas en wl q) < c_base_min_n (en_mem en)"
    and "pl_window p = Inr w" and "pl_events p = Inr es" and "build_inputs (en_svc en) (en_epoch en) w es = Inr inp"
    and "i_vectors inp \<noteq> []"
  shows "\<exists>ob. sv_graph (loop_body en p sv) = Verdict ob \<and> g_findings (out_graph ob) = [] \<and>
    g_ranking (out_graph ob) = [] \<and> g_blast (out_graph ob) = [] \<and>
    (\<forall>h \<in> set (g_edges (out_graph ob)). \<exists>i. x_mem h = Some i \<and> mi_source i = FromMemory)"
proof (rule immature_engine_silent[OF assms(1,2) _ _ assms(6-9)])
  have new: "s_edges (sv_store sv0) = []" "s_baselines (sv_store sv0) = []"
    using boot_sound(1)[OF assms(3)] by (simp_all add: open_new_store)
  show "unit_rows (s_edges (sv_store sv))"
    using loop.run_inv[OF assms(4)] assms(1,2) by (simp add: new unit_rows_def)
  have "updates k (s_baselines (sv_store sv)) < c_base_min_n (en_mem en)" for k
    using updates_run[OF assms(4), of k] assms(5)[rule_format, of "fst k"] by (simp add: new updates_def)
  then show "\<forall>r \<in> ran (map_of (s_baselines (sv_store sv))). b_n r < c_base_min_n (en_mem en)"
    by (auto simp: ran_def updates_def) (metis option.simps(5))
qed

text \<open>
  The published graph is served at \<open>/\<close> and \<open>/graph\<close> with any number of slashes behind, and nowhere
  else; every other path but the health check is answered with 404.
\<close>

theorem requests_answered:
  "do_GET path sv = \<lparr>hr_code = 200, hr_body = GraphJson (sv_graph sv), hr_type = ''application/json''\<rparr> \<longleftrightarrow> (\<exists>n. path = replicate n slash \<or> path = ''/graph'' @ replicate n slash)"
proof
  assume "do_GET path sv = \<lparr>hr_code = 200, hr_body = GraphJson (sv_graph sv), hr_type = ''application/json''\<rparr>"
  then have "rstrip_slash path = [] \<or> rstrip_slash path = ''/graph''" by (auto simp: do_GET_def send_reply_def split: if_splits)
  then show "\<exists>n. path = replicate n slash \<or> path = ''/graph'' @ replicate n slash"
    using rstrip_slash_split[of path] by auto
next
  assume "\<exists>n. path = replicate n slash \<or> path = ''/graph'' @ replicate n slash"
  moreover have "rstrip_slash (replicate n slash) = []" for n
    using rstrip_slash_strip[of "[]" n] by (simp add: rstrip_slash_def)
  moreover have "rstrip_slash (''/graph'' @ replicate n slash) = ''/graph''" for n
    using rstrip_slash_strip[of "''/graph''" n] by (simp add: rstrip_slash_def slash_def)
  ultimately have r: "rstrip_slash path \<in> {[], ''/graph''}" by auto
  moreover have "rstrip_slash ''/healthz'' = ''/healthz''" by (simp add: rstrip_slash_def slash_def)
  ultimately have "path \<noteq> ''/healthz''" by auto
  with r show "do_GET path sv = \<lparr>hr_code = 200, hr_body = GraphJson (sv_graph sv), hr_type = ''application/json''\<rparr>"
    by (simp add: do_GET_def send_reply_def)
qed

subsection \<open>A concrete poll\<close>

definition tick_epoch :: "string option \<Rightarrow> real option" where
  "tick_epoch s = map_option (\<lambda>x. 5 * real (length x)) s"

definition tick_window :: window where
  "tick_window = [(''data/a-1-1/psi_io'', map (\<lambda>k. \<lparr>smp_ts = Some (replicate k slash), smp_value = Some 1\<rparr>) [0..<12])]"

definition tick_poll :: poll where
  "tick_poll = \<lparr>pl_window = Inr tick_window, pl_events = Inr [], pl_clock = 1\<rparr>"

definition tick_engine :: "adjacency engine" where
  "tick_engine = \<lparr>en_lib = ref_lib, en_nx = ref_nx, en_mem = default_config, en_svc = default_svc, en_hash = disk_hash,
     en_epoch = tick_epoch, en_iter = (\<lambda>_. [])\<rparr>"

definition fresh_service :: service where
  "fresh_service = \<lparr>sv_store = new_store, sv_graph = EngineError (FetchError [])\<rparr>"

lemma steady_usable: "\<exists>v. to_vector 5 55 steady_points = Some v"
proof -
  have s: "sorted (map fst steady_points)" "steady_points \<noteq> []" by (simp_all add: steady_points_def upt_rec)
  have upt: "[0..<GRID_N] = [0..<168] @ [168..<180]"
    using upt_add_eq_append[of 0 168 12] by (simp add: GRID_N_def)
  have tail: "list_all (\<lambda>k. reading 5 steady_points (55 - 5 * real (GRID_N - 1 - k)) \<noteq> None) [168..<180]" by code_simp
  have "length (filter (\<lambda>g. reading 5 steady_points g \<noteq> None) (grid 5 55)) \<ge>
      length (filter (\<lambda>k. reading 5 steady_points (55 - 5 * real (GRID_N - 1 - k)) \<noteq> None) [168..<180])"
    by (simp only: grid_def upt filter_map map_append filter_append length_append length_map comp_def)
  also have "filter (\<lambda>k. reading 5 steady_points (55 - 5 * real (GRID_N - 1 - k)) \<noteq> None) [168..<180] = [168..<180]"
    using tail by (simp only: list_all_iff filter_True)
  finally have "12 \<le> length (filter (\<lambda>g. reading 5 steady_points g \<noteq> None) (grid 5 55))" by simp
  moreover have "hold 5 steady_points 0 (grid 5 55) = map (reading 5 steady_points) (grid 5 55)"
    using s by (intro hold_lookup sorted_grid) simp_all
  moreover have "\<not> fst (last steady_points) < 55 - 2 * 5" by (simp add: steady_points_def upt_rec)
  ultimately show ?thesis by (simp add: to_vector_def Let_def filter_map comp_def)
qed

lemma tick_inputs: "\<exists>inp. build_inputs default_svc tick_epoch tick_window [] = Inr inp \<and> i_vectors inp \<noteq> [] \<and> length (i_vectors inp) = 1"
proof -
  have c: "collect_window tick_epoch tick_window (empty_raw default_svc) =
      Inr ([(''psi_io'', [(''a-1-1'', steady_points)]), (''io_write'', [])], 55)" by code_simp
  have b: "breach_pods [] = Inr []" by (simp add: breach_pods_def collect_def)
  obtain v where v: "to_vector 5 55 steady_points = Some v" using steady_usable by blast
  have "v_step default_svc = 5" "v_signal default_svc = ''psi_io''" by (simp_all add: default_svc_def)
  then show ?thesis by (simp add: build_inputs_def c b dget_def Let_def to_vectors_def v)
qed

lemma tick_engine_ok:
  "stats_api (en_lib tick_engine)" "digraph_api (en_nx tick_engine)" "unit_rows (s_edges (sv_store fresh_service))"
  "pl_window tick_poll = Inr tick_window" "pl_events tick_poll = Inr []"
  using ref.stats_api_axioms rnx.digraph_api_axioms
  by (simp_all add: tick_engine_def fresh_service_def new_store_def unit_rows_def tick_poll_def)

theorem loop_always_answers_witness:
  "\<exists>inp. build_inputs (en_svc tick_engine) (en_epoch tick_engine) tick_window [] = Inr inp"
proof -
  have r: "run (svc_step tick_engine) fresh_service [] fresh_service" by simp
  have c: "complete_window (en_epoch tick_engine) tick_window" "complete_events []"
    by (simp_all add: complete_window_def tick_window_def complete_events_def)
  from loop_always_answers[OF tick_engine_ok(1-3) r tick_engine_ok(4,5) c] show ?thesis by blast
qed

lemma tick_replicas: "replicas tick_engine wl tick_poll \<le> 1"
proof -
  obtain inp where inp: "build_inputs default_svc tick_epoch tick_window [] = Inr inp" "length (i_vectors inp) = 1"
    using tick_inputs by blast
  then have "poll_inputs tick_engine tick_poll = Some inp"
    by (simp add: poll_inputs_def tick_engine_ok) (simp add: tick_engine_def)
  then show ?thesis using inp(2) length_filter_le[of _ "i_vectors inp"] by (simp add: replicas_def)
qed

theorem cold_start_silent_witness:
  "\<exists>sv0 sv ob. boot tick_engine 0 [] new_store = Inr sv0 \<and>
     run (svc_step tick_engine) sv0 (replicate 11 tick_poll) sv \<and>
     sv_graph (loop_body tick_engine tick_poll sv) = Verdict ob \<and> g_findings (out_graph ob) = []"
proof -
  obtain sv0 where b: "boot tick_engine 0 [] new_store = Inr sv0"
    by (simp add: boot_def Let_def bootstrap_draws_nothing)
  have "run (svc_step en) s ps (fold (loop_body en) ps s)" for en :: "adjacency engine" and s ps
    by (induction ps arbitrary: s) (auto simp: svc_step_def intro: run_step)
  then obtain sv where r: "run (svc_step tick_engine) sv0 (replicate 11 tick_poll) sv" by blast
  have "(\<Sum>q\<leftarrow>replicate 11 tick_poll. replicas tick_engine wl q) < c_base_min_n (en_mem tick_engine)" for wl
    using tick_replicas[of wl] by (simp add: sum_list_replicate) (simp add: tick_engine_def default_config_def)
  then have m: "\<forall>wl. (\<Sum>q\<leftarrow>replicate 11 tick_poll. replicas tick_engine wl q) < c_base_min_n (en_mem tick_engine)" by blast
  obtain inp where inp: "build_inputs (en_svc tick_engine) (en_epoch tick_engine) tick_window [] = Inr inp" "i_vectors inp \<noteq> []"
    using tick_inputs by (auto simp: tick_engine_def)
  from cold_start_silent[OF tick_engine_ok(1,2) b r m tick_engine_ok(4,5) inp] b r show ?thesis by blast
qed

end
