(* ===== verification/Api.thy ===== *)
theory Api
  imports Service Text
begin

text \<open>
  The gateway \<open>api/main.py\<close>: normalisation of the published graph, the operator narrative with its
  deterministic template, its cache and the language model behind it (an argument: what it answered),
  and the telemetry and scenario endpoints.  A reply is the body of a 200 answer or the status of an
  \<open>HTTPException\<close>.
\<close>

datatype 'a reply = Reply 'a | HttpError nat

record api_meta =
  am_signal :: "string option"
  am_pods :: "nat option"
  am_register :: "string option"

text \<open>The document the engine serves; a list it does not contain is read as the empty list.\<close>

record engine_graph =
  eg_ranking :: "cause list"
  eg_edges :: "rendered_edge list"
  eg_blast :: "victim list"
  eg_findings :: "finding list"
  eg_meta :: api_meta

definition register_name :: "case_register \<Rightarrow> string" where
  "register_name r = (case r of Recurrence \<Rightarrow> ''recurrence'' | Variant \<Rightarrow> ''variant'' | Novel \<Rightarrow> ''novel'')"

definition served :: "string \<Rightarrow> published \<Rightarrow> engine_graph" where
  "served sig p = (case p of
     Booted g st \<Rightarrow> \<lparr>eg_ranking = g_ranking g, eg_edges = g_edges g, eg_blast = g_blast g, eg_findings = g_findings g,
       eg_meta = \<lparr>am_signal = None, am_pods = None, am_register = None\<rparr>\<rparr>
   | Verdict ob \<Rightarrow> \<lparr>eg_ranking = g_ranking (out_graph ob), eg_edges = g_edges (out_graph ob), eg_blast = g_blast (out_graph ob),
       eg_findings = g_findings (out_graph ob), eg_meta = \<lparr>am_signal = Some sig, am_pods = Some (g_pods (out_graph ob)),
         am_register = map_option (\<lambda>m. register_name (cm_register m)) (out_case ob)\<rparr>\<rparr>
   | EngineError e \<Rightarrow> \<lparr>eg_ranking = [], eg_edges = [], eg_blast = [], eg_findings = [],
       eg_meta = \<lparr>am_signal = None, am_pods = None, am_register = None\<rparr>\<rparr>)"

subsection \<open>The graph\<close>

record api_edge =
  ae_src :: string
  ae_dst :: string
  ae_r :: real
  ae_lag_s :: int
  ae_evidence :: "string list"
  ae_conf :: "real option"
  ae_state :: "edge_state option"
  ae_weight :: "real option"
  ae_source :: "edge_source option"

record api_finding =
  af_pod :: string
  af_class :: shape
  af_onset_s :: real
  af_severity :: real

record api_doc =
  ad_root :: "cause list"
  ad_edges :: "api_edge list"
  ad_blast :: "victim list"
  ad_findings :: "api_finding list"
  ad_meta :: api_meta

definition api_workload :: "pod \<Rightarrow> string" where
  "api_workload pod = (let parts = split_on dash pod in
     if length parts > 2 then join_with dash (py_drop_last 2 parts) else pod)"

definition to_api_edge :: "rendered_edge \<Rightarrow> api_edge" where
  "to_api_edge e = \<lparr>ae_src = api_workload (e_src e), ae_dst = api_workload (e_dst e), ae_r = e_r e, ae_lag_s = e_lag_s e,
     ae_evidence = e_evidence e, ae_conf = map_option mi_conf (x_mem e), ae_state = map_option mi_state (x_mem e),
     ae_weight = map_option mi_weight (x_mem e), ae_source = map_option mi_source (x_mem e)\<rparr>"

definition normalised :: "engine_graph \<Rightarrow> api_doc" where
  "normalised g = \<lparr>
     ad_root = map (\<lambda>c. \<lparr>c_pod = api_workload (c_pod c), c_score = c_score c, c_onset_s = c_onset_s c\<rparr>) (eg_ranking g),
     ad_edges = map to_api_edge (eg_edges g),
     ad_blast = map (\<lambda>b. \<lparr>v_pod = api_workload (v_pod b), v_impact = v_impact b, v_eta_s = v_eta_s b\<rparr>) (eg_blast g),
     ad_findings = map (\<lambda>f. \<lparr>af_pod = api_workload (f_pod f), af_class = f_class f, af_onset_s = f_onset_s f,
       af_severity = f_severity f\<rparr>) (eg_findings g),
     ad_meta = eg_meta g\<rparr>"

definition api_graph :: "string + engine_graph \<Rightarrow> api_doc reply" where
  "api_graph fetched = (case fetched of Inl e \<Rightarrow> HttpError 503 | Inr g \<Rightarrow> Reply (normalised g))"

subsection \<open>The template\<close>

definition strongest_out :: "string \<Rightarrow> api_edge list \<Rightarrow> api_edge" where
  "strongest_out cause edges =
     (let own = filter (\<lambda>e. ae_src e = cause) edges; cand = (if own \<noteq> [] then own else edges)
      in py_max_by (\<lambda>e. \<bar>ae_r e\<bar>) (hd cand) (tl cand))"

definition template_narrative :: "string \<Rightarrow> api_doc \<Rightarrow> string" where
  "template_narrative sig g =
     (let meta = ad_meta g; signal = (case am_signal meta of None \<Rightarrow> sig | Some s \<Rightarrow> s) in
      if ad_root g = [] \<or> ad_edges g = [] then
        ''Steady state: no causal contention detected across '' @
          show_nat (case am_pods meta of None \<Rightarrow> 0 | Some n \<Rightarrow> n) @ '' workloads.''
      else
        let cause = c_pod (hd (ad_root g));
            e = strongest_out cause (ad_edges g);
            victim = ae_dst e;
            ev = (let t = join_str '', '' (ae_evidence e) in if t = [] then ''correlation'' else t);
            eta = map_of (rev (map (\<lambda>b. (v_pod b, v_eta_s b)) (ad_blast g))) victim;
            eta_txt = (case eta of None \<Rightarrow> [] | Some t \<Rightarrow>
              if t = 0 then [] else '', with impact on '' @ victim @ '' expected in ~'' @ show_int t @ ''s'');
            reg_txt = (case am_register meta of None \<Rightarrow> [] | Some r \<Rightarrow>
              if r \<in> {''recurrence'', ''variant''} then '' (recognised as a '' @ r @ '' of a known case)'' else [])
        in cause @ '' is the likely root cause of '' @ signal @ '' contention: its activity correlates with '' @
           victim @ '' over '' @ ev @ eta_txt @ reg_txt @ ''.'')"

subsection \<open>The narrative and its cache\<close>

record verdict_sig =
  vs_root :: "string option"
  vs_edges :: "(string \<times> string \<times> string option) list"
  vs_case :: "string option"

definition state_name :: "edge_state \<Rightarrow> string" where
  "state_name st = (case st of Active \<Rightarrow> ''active'' | Confirming \<Rightarrow> ''confirming'' | Steady \<Rightarrow> ''steady''
     | Decaying \<Rightarrow> ''decaying'' | Hidden \<Rightarrow> ''hidden'')"

definition edge_triple :: "api_edge \<Rightarrow> string \<times> string \<times> string option" where
  "edge_triple e = (ae_src e, ae_dst e, map_option state_name (ae_state e))"

text \<open>Two triples that differ only in that one state is missing cannot be compared.\<close>

definition incomparable :: "api_edge \<Rightarrow> api_edge \<Rightarrow> bool" where
  "incomparable a b \<longleftrightarrow> ae_src a = ae_src b \<and> ae_dst a = ae_dst b \<and> ae_state a = None \<and> ae_state b \<noteq> None"

definition verdict_signature :: "api_doc \<Rightarrow> verdict_sig res" where
  "verdict_signature g =
     (if \<exists>a \<in> set (ad_edges g). \<exists>b \<in> set (ad_edges g). incomparable a b then Inl TypeError
      else Inr \<lparr>vs_root = (case ad_root g of [] \<Rightarrow> None | c # _ \<Rightarrow> Some (c_pod c)),
        vs_edges = sort_key (\<lambda>(a, b, st). (a, b, case st of None \<Rightarrow> [] | Some x \<Rightarrow> x)) (map edge_triple (ad_edges g)),
        vs_case = am_register (ad_meta g)\<rparr>)"

definition py_space :: "char \<Rightarrow> bool" where
  "py_space c = (let n = (of_char c :: nat) in n \<in> {9, 10, 11, 12, 13, 28, 29, 30, 31, 32, 133, 160})"

definition strip_text :: "string \<Rightarrow> string" where
  "strip_text s = rev (dropWhile py_space (rev (dropWhile py_space s)))"

datatype llm_reply = LlmFailed | LlmAnswered "string option"

definition ollama :: "bool \<Rightarrow> llm_reply \<Rightarrow> string option" where
  "ollama enabled r = (if \<not> enabled then None
     else case r of LlmFailed \<Rightarrow> None
       | LlmAnswered resp \<Rightarrow> (let t = strip_text (or_empty resp) in if t = [] then None else Some t))"

datatype narr_source = FromLlm | Fallback

record narr_out =
  no_text :: string
  no_source :: narr_source
  no_model :: "string option"
  no_ts :: real

record api_config =
  ac_signal :: string
  ac_llm :: bool
  ac_model :: string

record narr_request =
  nr_fetch :: "string + engine_graph"
  nr_llm :: llm_reply
  nr_now :: real

type_synonym narr_cache = "(verdict_sig \<times> narr_out) list"

definition narrative :: "api_config \<Rightarrow> narr_request \<Rightarrow> narr_cache \<Rightarrow> narr_out reply \<times> narr_cache" where
  "narrative cfg r cache = (case api_graph (nr_fetch r) of HttpError s \<Rightarrow> (HttpError s, cache)
   | Reply g \<Rightarrow> (case verdict_signature g of Inl e \<Rightarrow> (HttpError 500, cache)
   | Inr sig \<Rightarrow> (case map_of cache sig of Some out \<Rightarrow> (Reply out, cache)
   | None \<Rightarrow>
      let template = template_narrative (ac_signal cfg) g;
          text = ollama (ac_llm cfg) (nr_llm r);
          out = \<lparr>no_text = (case text of None \<Rightarrow> template | Some t \<Rightarrow> t),
                 no_source = (if text = None then Fallback else FromLlm),
                 no_model = (if text = None then None else Some (ac_model cfg)), no_ts = nr_now r\<rparr>
      in (Reply out, if text \<noteq> None then [(sig, out)] else cache))))"

definition narr_step :: "api_config \<Rightarrow> narr_cache \<Rightarrow> narr_request \<Rightarrow> narr_cache \<Rightarrow> bool" where
  "narr_step cfg c r c' \<longleftrightarrow> c' = snd (narrative cfg r c)"

subsection \<open>Telemetry and scenarios\<close>

record pod_level =
  pd_workload :: string
  pd_namespace :: string
  pd_signal :: string
  pd_value :: real
  pd_anomalous :: bool

definition round4 :: "real \<Rightarrow> real" where
  "round4 x = of_int (py_round (x * 10000)) / 10000"

definition flagged :: "string + engine_graph \<Rightarrow> string set" where
  "flagged fetched = (case fetched of Inl e \<Rightarrow> {} | Inr g \<Rightarrow> (\<lambda>f. api_workload (f_pod f)) ` set (eg_findings g))"

definition pod_series :: "string \<Rightarrow> string set \<Rightarrow> string \<times> sample list \<Rightarrow> pod_level pdict \<Rightarrow> pod_level pdict res" where
  "pod_series sig flags ks out =
     (let parts = split_on slash (fst ks) in
      if length parts < 3 \<or> last parts \<noteq> sig \<or> snd ks = [] then Inr out
      else let w = api_workload (parts ! 1);
               cur = dget out w \<lparr>pd_workload = w, pd_namespace = parts ! 0, pd_signal = sig, pd_value = 0, pd_anomalous = False\<rparr>
           in rbind (res_of_option KeyError (smp_value (last (snd ks)))) (\<lambda>v.
                Inr (AList.update w (cur\<lparr>pd_value := round4 (max (pd_value cur) v), pd_anomalous := w \<in> flags\<rparr>) out)))"

fun pod_levels :: "string \<Rightarrow> string set \<Rightarrow> window \<Rightarrow> pod_level pdict \<Rightarrow> pod_level pdict res" where
  "pod_levels sig flags [] out = Inr out"
| "pod_levels sig flags (ks # w) out = rbind (pod_series sig flags ks out) (pod_levels sig flags w)"

definition api_pods :: "string \<Rightarrow> string + window \<Rightarrow> string + engine_graph \<Rightarrow> pod_level list reply" where
  "api_pods sig agg eng = (case agg of Inl e \<Rightarrow> HttpError 503
   | Inr w \<Rightarrow> (case pod_levels sig (flagged eng) w [] of Inl e \<Rightarrow> HttpError 500
     | Inr out \<Rightarrow> Reply (sort_key (\<lambda>p. - pd_value p) (map snd out))))"

fun first_series :: "string \<Rightarrow> string \<Rightarrow> window \<Rightarrow> sample list option" where
  "first_series pod sig [] = None"
| "first_series pod sig (ks # w) =
     (let parts = split_on slash (fst ks) in
      if length parts \<ge> 3 \<and> last parts = sig \<and> snd ks \<noteq> [] \<and> api_workload (parts ! 1) = pod then Some (snd ks)
      else first_series pod sig w)"

definition sample_pair :: "sample \<Rightarrow> (string \<times> real) res" where
  "sample_pair s = rbind (res_of_option KeyError (smp_ts s)) (\<lambda>t.
     rbind (res_of_option KeyError (smp_value s)) (\<lambda>v. Inr (t, v)))"

definition api_signal :: "string \<Rightarrow> string \<Rightarrow> string + window \<Rightarrow> (string \<times> real) list reply" where
  "api_signal pod sig agg = (case agg of Inl e \<Rightarrow> HttpError 503
   | Inr w \<Rightarrow> (case first_series pod sig w of None \<Rightarrow> HttpError 404
     | Some ss \<Rightarrow> (case rtrav sample_pair ss of Inl e \<Rightarrow> HttpError 500 | Inr ps \<Rightarrow> Reply ps)))"

definition api_events :: "string + json_event list \<Rightarrow> json_event list reply" where
  "api_events agg = (case agg of Inl e \<Rightarrow> HttpError 503 | Inr es \<Rightarrow> Reply es)"

definition health :: "bool \<Rightarrow> bool \<Rightarrow> (string \<times> bool) list \<times> bool" where
  "health agg_up eng_up = ([(''aggregator'', agg_up), (''engine'', eng_up)], agg_up \<and> eng_up)"

record scenario =
  sc_id :: string
  sc_name :: string
  sc_mechanism :: string
  sc_triggerable :: bool

definition scenarios :: "scenario list" where
  "scenarios =
     [\<lparr>sc_id = ''S0'', sc_name = ''Steady-state control'', sc_mechanism = ''10 min idle; expect no causal edges'', sc_triggerable = False\<rparr>,
      \<lparr>sc_id = ''S1'', sc_name = ''PVC I/O contention cascade'', sc_mechanism = ''sustained fio on a shared volume'', sc_triggerable = True\<rparr>,
      \<lparr>sc_id = ''S2'', sc_name = ''Large-file I/O starvation'', sc_mechanism = ''bulk archive read/write'', sc_triggerable = False\<rparr>,
      \<lparr>sc_id = ''S3'', sc_name = ''CPU throttle interference'', sc_mechanism = ''CPU-bound burst under a constrained limit'', sc_triggerable = False\<rparr>,
      \<lparr>sc_id = ''S4'', sc_name = ''Network degradation + retry amplification'', sc_mechanism = ''injected egress latency'', sc_triggerable = False\<rparr>,
      \<lparr>sc_id = ''S5'', sc_name = ''Memory leak + OOM termination'', sc_mechanism = ''unbounded growth to the memory limit'', sc_triggerable = False\<rparr>]"

definition api_scenarios :: "scenario list reply" where
  "api_scenarios = Reply scenarios"

definition healthz :: "(string \<times> bool) list" where
  "healthz = [(''ok'', True)]"

definition upper :: "string \<Rightarrow> string" where
  "upper s = map (\<lambda>c. let n = (of_char c :: nat) in if 97 \<le> n \<and> n \<le> 122 then char_of (n - 32) else c) s"

definition trigger :: "string \<Rightarrow> bool \<Rightarrow> string reply" where
  "trigger sid posted = (if upper sid = ''S1'' then (if posted then Reply ''armed'' else HttpError 503) else HttpError 501)"

lemma api_workload_stable [simp]: "api_workload pod = stable_workload pod"
  by (simp add: api_workload_def stable_workload_def)

subsection \<open>The cache\<close>

text \<open>An answer of the model for a verdict: some request of \<open>R\<close> showed that verdict, and this is what the model said.\<close>

definition told :: "api_config \<Rightarrow> narr_request set \<Rightarrow> verdict_sig \<Rightarrow> string \<Rightarrow> bool" where
  "told cfg R sig said \<longleftrightarrow> (\<exists>r \<in> R. \<exists>g. api_graph (nr_fetch r) = Reply g \<and> verdict_signature g = Inr sig \<and>
     ollama (ac_llm cfg) (nr_llm r) = Some said)"

definition cache_ok :: "api_config \<Rightarrow> narr_request set \<Rightarrow> narr_cache \<Rightarrow> bool" where
  "cache_ok cfg R c \<longleftrightarrow> length c \<le> 1 \<and> (\<forall>(sig, o') \<in> set c. no_source o' = FromLlm \<and> told cfg R sig (no_text o'))"

lemma narrative_cases:
  obtains (unreachable) "api_graph (nr_fetch r) = HttpError 503" "narrative cfg r c = (HttpError 503, c)"
  | (clash) g where "api_graph (nr_fetch r) = Reply g" "verdict_signature g = Inl TypeError" "narrative cfg r c = (HttpError 500, c)"
  | (hit) g sig o' where "api_graph (nr_fetch r) = Reply g" "verdict_signature g = Inr sig" "map_of c sig = Some o'"
      "narrative cfg r c = (Reply o', c)"
  | (model) g sig said where "api_graph (nr_fetch r) = Reply g" "verdict_signature g = Inr sig" "map_of c sig = None"
      "ollama (ac_llm cfg) (nr_llm r) = Some said"
      "narrative cfg r c = (Reply \<lparr>no_text = said, no_source = FromLlm, no_model = Some (ac_model cfg), no_ts = nr_now r\<rparr>,
         [(sig, \<lparr>no_text = said, no_source = FromLlm, no_model = Some (ac_model cfg), no_ts = nr_now r\<rparr>)])"
  | (fallback) g sig where "api_graph (nr_fetch r) = Reply g" "verdict_signature g = Inr sig" "map_of c sig = None"
      "ollama (ac_llm cfg) (nr_llm r) = None"
      "narrative cfg r c = (Reply \<lparr>no_text = template_narrative (ac_signal cfg) g, no_source = Fallback, no_model = None,
         no_ts = nr_now r\<rparr>, c)"
proof (cases "nr_fetch r")
  case (Inl e)
  then show ?thesis using that(1) by (simp add: narrative_def api_graph_def)
next
  case (Inr eg)
  then have g: "api_graph (nr_fetch r) = Reply (normalised eg)" by (simp add: api_graph_def)
  show ?thesis
  proof (cases "verdict_signature (normalised eg)")
    case (Inl e)
    then have "verdict_signature (normalised eg) = Inl TypeError" by (auto simp: verdict_signature_def split: if_splits)
    then show ?thesis using that(2)[OF g] g by (simp add: narrative_def)
  next
    case sig: (Inr s)
    show ?thesis
    proof (cases "map_of c s")
      case None
      then show ?thesis using that(4,5)[OF g sig None] g sig
        by (cases "ollama (ac_llm cfg) (nr_llm r)") (simp_all add: narrative_def Let_def)
    next
      case (Some o')
      then show ?thesis using that(3)[OF g sig Some] g sig by (simp add: narrative_def)
    qed
  qed
qed

lemma told_mono: "told cfg R sig said \<Longrightarrow> R \<subseteq> R' \<Longrightarrow> told cfg R' sig said"
  unfolding told_def by blast

lemma cache_ok_step:
  assumes "cache_ok cfg R c" "r \<in> R" "narr_step cfg c r c'"
  shows "cache_ok cfg R c'"
proof (cases rule: narrative_cases[of r cfg c])
  case (model g sig said)
  then have "told cfg R sig said" using assms(2) unfolding told_def by blast
  then show ?thesis using model assms(3) by (simp add: narr_step_def cache_ok_def)
qed (use assms in \<open>simp_all add: narr_step_def\<close>)

interpretation narrator: invariant_machine "narr_step cfg" "cache_ok cfg R" "\<lambda>r. r \<in> R" for cfg R
  by unfold_locales (blast intro: cache_ok_step)

subsection \<open>The level of a pod\<close>

lemma py_round_idem: "round4 (round4 x) = round4 x"
  by (simp add: round4_def)

lemma round4_mono: "x \<le> y \<Longrightarrow> round4 x \<le> round4 y"
  by (simp add: round4_def py_round_mono divide_right_mono)

lemma round4_max: "round4 (max (round4 x) y) = round4 (max x y)"
  using round4_mono[of x y] round4_mono[of y x] round4_mono[of "round4 x" y] round4_mono[of y "round4 x"]
  by (auto simp: max_def py_round_idem not_le intro: antisym)

definition last_level :: "string \<times> sample list \<Rightarrow> real" where
  "last_level ks = (case smp_value (last (snd ks)) of None \<Rightarrow> 0 | Some v \<Rightarrow> v)"

text \<open>The series of a workload: those of the signal with samples.\<close>

definition series_of :: "string \<Rightarrow> string \<Rightarrow> window \<Rightarrow> window" where
  "series_of sig w win = filter (\<lambda>ks. let parts = split_on slash (fst ks) in
     \<not> (length parts < 3 \<or> last parts \<noteq> sig \<or> snd ks = []) \<and> api_workload (parts ! 1) = w) win"

definition level_of :: "real list \<Rightarrow> real" where
  "level_of vs = foldl max 0 vs"

definition levels_ok :: "string \<Rightarrow> string set \<Rightarrow> window \<Rightarrow> pod_level pdict \<Rightarrow> bool" where
  "levels_ok sig flags win out \<longleftrightarrow> distinct (map fst out) \<and>
     (\<forall>w. w \<in> fst ` set out \<longleftrightarrow> series_of sig w win \<noteq> []) \<and>
     (\<forall>(w, p) \<in> set out. pd_workload p = w \<and> pd_signal p = sig \<and> pd_anomalous p = (w \<in> flags) \<and>
        pd_value p = round4 (level_of (map last_level (series_of sig w win))))"

lemma levels_ok_step:
  assumes ok: "levels_ok sig flags win out" and res: "pod_series sig flags ks out = Inr out'"
  shows "levels_ok sig flags (win @ [ks]) out'"
proof -
  let ?parts = "split_on slash (fst ks)" and ?w = "stable_workload (split_on slash (fst ks) ! 1)"
  show ?thesis
  proof (cases "length ?parts < 3 \<or> last ?parts \<noteq> sig \<or> snd ks = []")
    case True
    then have "out' = out" "series_of sig w (win @ [ks]) = series_of sig w win" for w
      using res by (auto simp: pod_series_def Let_def series_of_def)
    then show ?thesis using ok by (simp add: levels_ok_def)
  next
    case False
    let ?cur = "dget out ?w \<lparr>pd_workload = ?w, pd_namespace = ?parts ! 0, pd_signal = sig, pd_value = 0, pd_anomalous = False\<rparr>"
    obtain v where v: "smp_value (last (snd ks)) = Some v"
      and out': "out' = AList.update ?w (?cur\<lparr>pd_value := round4 (max (pd_value ?cur) v), pd_anomalous := ?w \<in> flags\<rparr>) out"
      using res False by (cases "smp_value (last (snd ks))") (auto simp: pod_series_def Let_def)
    have d: "distinct (map fst out)" using ok by (simp add: levels_ok_def)
    have ser: "series_of sig w (win @ [ks]) = series_of sig w win @ (if w = ?w then [ks] else [])" for w
      using False by (auto simp: series_of_def Let_def)
    have lev: "last_level ks = v" by (simp add: last_level_def v)
    have cur: "pd_workload ?cur = ?w" "pd_signal ?cur = sig"
        "round4 (max (pd_value ?cur) v) = round4 (level_of (map last_level (series_of sig ?w (win @ [ks]))))"
    proof -
      have "pd_workload ?cur = ?w \<and> pd_signal ?cur = sig \<and>
        round4 (max (pd_value ?cur) v) = round4 (max (level_of (map last_level (series_of sig ?w win))) v)"
      proof (cases "map_of out ?w")
        case None
        then have "?w \<notin> fst ` set out" by (simp add: map_of_eq_None_iff)
        then have "series_of sig ?w win = []" using ok unfolding levels_ok_def by blast
        then show ?thesis using None by (simp add: dget_def level_of_def)
      next
        case (Some p)
        then have "(?w, p) \<in> set out" by (rule map_of_SomeD)
        then have "pd_workload p = ?w" "pd_signal p = sig" "pd_value p = round4 (level_of (map last_level (series_of sig ?w win)))"
          using ok unfolding levels_ok_def by fastforce+
        then show ?thesis using Some by (simp add: dget_def round4_max)
      qed
      then show "pd_workload ?cur = ?w" "pd_signal ?cur = sig"
        "round4 (max (pd_value ?cur) v) = round4 (level_of (map last_level (series_of sig ?w (win @ [ks]))))"
        by (simp_all add: ser level_of_def lev)
    qed
    show ?thesis unfolding levels_ok_def
    proof (intro conjI)
      show "distinct (map fst out')" unfolding out' by (rule distinct_upd[OF d])
      show "\<forall>w. w \<in> fst ` set out' \<longleftrightarrow> series_of sig w (win @ [ks]) \<noteq> []"
        using ok unfolding out' fst_set_upd ser levels_ok_def by auto
      show "\<forall>(w, p) \<in> set out'. pd_workload p = w \<and> pd_signal p = sig \<and> pd_anomalous p = (w \<in> flags) \<and>
        pd_value p = round4 (level_of (map last_level (series_of sig w (win @ [ks]))))"
      proof clarify
        fix w p assume wp: "(w, p) \<in> set out'"
        show "pd_workload p = w \<and> pd_signal p = sig \<and> pd_anomalous p = (w \<in> flags) \<and>
          pd_value p = round4 (level_of (map last_level (series_of sig w (win @ [ks]))))"
        proof (cases "w = ?w")
          case True
          have "map_of out' w = Some p" using wp distinct_upd[OF d] unfolding out' by simp
          then have "p = ?cur\<lparr>pd_value := round4 (max (pd_value ?cur) v), pd_anomalous := ?w \<in> flags\<rparr>"
            using True unfolding out' by (simp add: dict_simps)
          then show ?thesis using cur True by simp
        next
          case False
          then have "(w, p) \<in> set out" using wp upd_in_setD unfolding out' by fastforce
          then show ?thesis using ok False unfolding levels_ok_def ser by fastforce
        qed
      qed
    qed
  qed
qed

lemma pod_levels_ok:
  "levels_ok sig flags win out \<Longrightarrow> pod_levels sig flags w out = Inr out' \<Longrightarrow> levels_ok sig flags (win @ w) out'"
proof (induction w arbitrary: win out)
  case (Cons ks w)
  then obtain mid where "pod_series sig flags ks out = Inr mid" "pod_levels sig flags w mid = Inr out'" by (auto simp: res_simps)
  with Cons.IH[OF levels_ok_step[OF Cons.prems(1)]] show ?case by simp
qed simp

definition valued_series :: "string \<Rightarrow> window \<Rightarrow> bool" where
  "valued_series sig win \<longleftrightarrow> (\<forall>(k, ss) \<in> set win. last (split_on slash k) = sig \<and> ss \<noteq> [] \<longrightarrow> smp_value (last ss) \<noteq> None)"

lemma pod_levels_total: "valued_series sig w \<Longrightarrow> \<exists>out'. pod_levels sig flags w out = Inr out'"
proof (induction w arbitrary: out)
  case (Cons ks w)
  have "smp_value (last (snd ks)) \<noteq> None" if "last (split_on slash (fst ks)) = sig" "snd ks \<noteq> []"
    using Cons.prems that by (cases ks) (auto simp: valued_series_def)
  then have "\<exists>mid. pod_series sig flags ks out = Inr mid"
    by (auto simp: pod_series_def Let_def)
  then obtain mid where "pod_series sig flags ks out = Inr mid" by blast
  moreover have "valued_series sig w" using Cons.prems by (simp add: valued_series_def)
  ultimately show ?case using Cons.IH by simp
qed simp

subsection \<open>The template\<close>

lemma hd_tl_set: "xs \<noteq> [] \<Longrightarrow> insert (hd xs) (set (tl xs)) = set xs"
  by (cases xs) auto

lemma strongest_out_spec:
  assumes "edges \<noteq> []"
  shows "strongest_out cause edges \<in> set edges \<and>
    (\<forall>x \<in> set edges. ae_src x = cause \<longrightarrow> ae_src (strongest_out cause edges) = cause \<and> \<bar>ae_r x\<bar> \<le> \<bar>ae_r (strongest_out cause edges)\<bar>) \<and>
    (ae_src (strongest_out cause edges) = cause \<or> (\<forall>x \<in> set edges. \<bar>ae_r x\<bar> \<le> \<bar>ae_r (strongest_out cause edges)\<bar>))"
proof -
  let ?own = "filter (\<lambda>e. ae_src e = cause) edges"
  let ?cand = "if ?own \<noteq> [] then ?own else edges"
  have ne: "?cand \<noteq> []" using assms by simp
  have eq: "strongest_out cause edges = py_max_by (\<lambda>e. \<bar>ae_r e\<bar>) (hd ?cand) (tl ?cand)"
    by (simp only: strongest_out_def Let_def)
  have cand: "insert (hd ?cand) (set (tl ?cand)) = set ?cand" by (rule hd_tl_set[OF ne])
  have inn: "strongest_out cause edges \<in> set ?cand"
    unfolding eq cand[symmetric] by (rule py_max_by_in)
  have ge: "\<bar>ae_r x\<bar> \<le> \<bar>ae_r (strongest_out cause edges)\<bar>" if "x \<in> set ?cand" for x
  proof -
    have "x = hd ?cand \<or> x \<in> set (tl ?cand)" using that cand by blast
    then show ?thesis unfolding eq
      using py_max_by_ge_base[of "\<lambda>e. \<bar>ae_r e\<bar>" "hd ?cand" "tl ?cand"] py_max_by_ge[of x "tl ?cand" "\<lambda>e. \<bar>ae_r e\<bar>" "hd ?cand"] by auto
  qed
  show ?thesis
  proof (cases "?own = []")
    case True
    then have "ae_src x \<noteq> cause" if "x \<in> set edges" for x using that by (auto simp: filter_empty_conv)
    then show ?thesis using inn ge True by simp
  next
    case False
    then have "ae_src (strongest_out cause edges) = cause" "strongest_out cause edges \<in> set edges" using inn by auto
    then show ?thesis using ge False by auto
  qed
qed

subsection \<open>Properties\<close>

text \<open>
  The deterministic verdict is grounded in the graph: with a ranked cause and an edge, it opens with
  the first suspect as the cause and names the target of an edge of the graph: one leaving the cause
  whenever there is one, and the strongest of those; otherwise the strongest of all.
\<close>

theorem template_grounded:
  assumes "ad_root g = c # cs" and "ad_edges g \<noteq> []"
  shows "\<exists>e \<in> set (ad_edges g). \<exists>mid rest. template_narrative sig g =
      c_pod c @ '' is the likely root cause of '' @ mid @ '' contention: its activity correlates with '' @ ae_dst e @ '' over '' @ rest \<and>
    (\<forall>x \<in> set (ad_edges g). ae_src x = c_pod c \<longrightarrow> ae_src e = c_pod c \<and> \<bar>ae_r x\<bar> \<le> \<bar>ae_r e\<bar>) \<and>
    (ae_src e = c_pod c \<or> (\<forall>x \<in> set (ad_edges g). \<bar>ae_r x\<bar> \<le> \<bar>ae_r e\<bar>))"
proof -
  let ?e = "strongest_out (c_pod c) (ad_edges g)"
  have "\<exists>mid rest. template_narrative sig g = c_pod c @ '' is the likely root cause of '' @ mid @
      '' contention: its activity correlates with '' @ ae_dst ?e @ '' over '' @ rest"
    unfolding template_narrative_def Let_def assms(1)
    by (simp only: assms(2) list.simps(3) simp_thms if_False list.sel) (intro exI, rule refl)
  then show ?thesis using strongest_out_spec[OF assms(2), of "c_pod c"] by blast
qed

text \<open>
  C29. Every narrative served has its provenance: after any history of requests, an answer is either the
  template of the current verdict, given only when the model had nothing to say, or a text the model
  gave, in this or an earlier request, for a verdict with the same signature.
\<close>

theorem narrative_provenance:
  assumes "run (narr_step cfg) [] reqs cache" and "narrative cfg r cache = (Reply ans, cache')"
  shows "\<exists>g sig. api_graph (nr_fetch r) = Reply g \<and> verdict_signature g = Inr sig \<and>
    (no_source ans = Fallback \<and> no_text ans = template_narrative (ac_signal cfg) g \<and> ollama (ac_llm cfg) (nr_llm r) = None \<or>
     no_source ans = FromLlm \<and> (\<exists>r' \<in> insert r (set reqs). \<exists>g'. api_graph (nr_fetch r') = Reply g' \<and>
       verdict_signature g' = Inr sig \<and> ollama (ac_llm cfg) (nr_llm r') = Some (no_text ans)))"
proof -
  have ok: "cache_ok cfg (set reqs) cache" by (rule narrator.run_inv[OF assms(1)]) (simp_all add: cache_ok_def)
  show ?thesis
  proof (cases rule: narrative_cases[of r cfg cache])
    case (hit g sig o')
    then have "(sig, ans) \<in> set cache" using assms(2) by (auto dest: map_of_SomeD)
    then have "no_source ans = FromLlm" "told cfg (set reqs) sig (no_text ans)" using ok unfolding cache_ok_def by auto
    then show ?thesis using hit(1,2) unfolding told_def by blast
  next
    case (model g sig said)
    then have "no_source ans = FromLlm" "no_text ans = said" using assms(2) by auto
    then show ?thesis using model by blast
  next
    case (fallback g sig)
    then show ?thesis using assms(2) by auto
  qed (use assms(2) in simp_all)
qed

text \<open>A published graph whose edges carry their memory is narrated.\<close>

lemma published_narrated:
  assumes "published_ok (sv_graph sv)"
  shows "\<exists>g ans cache'. api_graph (Inr (served sig (sv_graph sv))) = Reply g \<and>
    narrative cfg \<lparr>nr_fetch = Inr (served sig (sv_graph sv)), nr_llm = answer, nr_now = t\<rparr> cache = (Reply ans, cache') \<and>
    (\<forall>e \<in> set (ad_edges g). ae_conf e \<noteq> None \<and> ae_state e \<noteq> None \<and> ae_source e \<noteq> None) \<and>
    (cache = [] \<and> ollama (ac_llm cfg) answer = None \<longrightarrow>
       no_text ans = template_narrative (ac_signal cfg) g \<and> no_source ans = Fallback \<and> cache' = [])"
proof -
  let ?g = "normalised (served sig (sv_graph sv))"
  let ?r = "\<lparr>nr_fetch = Inr (served sig (sv_graph sv)), nr_llm = answer, nr_now = t\<rparr>"
  have mem: "x_mem h \<noteq> None" if "h \<in> set (eg_edges (served sig (sv_graph sv)))" for h
    using that assms by (cases "sv_graph sv") (simp_all add: served_def published_ok_def)
  have annotated: "ae_conf e \<noteq> None \<and> ae_state e \<noteq> None \<and> ae_source e \<noteq> None" if "e \<in> set (ad_edges ?g)" for e
    using that mem by (auto simp: normalised_def to_api_edge_def)
  then have "\<not> (\<exists>a \<in> set (ad_edges ?g). \<exists>b \<in> set (ad_edges ?g). incomparable a b)" by (auto simp: incomparable_def)
  then obtain vs where vs: "verdict_signature ?g = Inr vs" by (simp add: verdict_signature_def)
  have g: "api_graph (nr_fetch ?r) = Reply ?g" by (simp add: api_graph_def)
  show ?thesis
  proof (cases rule: narrative_cases[of ?r cfg cache])
    case (hit g' sig' o')
    then show ?thesis using g annotated by (intro exI[of _ ?g] exI[of _ o'] exI[of _ cache]) auto
  next
    case (model g' sig' said)
    then show ?thesis using g annotated by (intro exI[of _ ?g]) auto
  next
    case (fallback g' sig')
    then have "g' = ?g" using g by simp
    then show ?thesis using g annotated fallback by (intro exI[of _ ?g]) auto
  qed (use g vs in auto)
qed

text \<open>
  C28. Whatever the engine publishes can be narrated: after the boot on any file whose coefficients are
  in range and after any history of polls, good or bad, the gateway answers a request for the narrative
  of the published graph, never with an error, whatever the cache holds and the model said.  The
  normalised edges all carry a confidence, a state and a source, and when no text is cached and the
  model has none the answer is the template of the graph.
\<close>

theorem engine_always_narrated:
  assumes "stats_api (en_lib en)" and "digraph_api (en_nx en)" and "boot en now params st = Inr sv0"
    and "unit_rows (s_edges (sv_store sv0))" and "run (svc_step en) sv0 polls sv"
  shows "\<exists>g ans cache'. api_graph (Inr (served sig (sv_graph sv))) = Reply g \<and>
    narrative cfg \<lparr>nr_fetch = Inr (served sig (sv_graph sv)), nr_llm = answer, nr_now = t\<rparr> cache = (Reply ans, cache') \<and>
    (\<forall>e \<in> set (ad_edges g). ae_conf e \<noteq> None \<and> ae_state e \<noteq> None \<and> ae_source e \<noteq> None) \<and>
    (cache = [] \<and> ollama (ac_llm cfg) answer = None \<longrightarrow>
       no_text ans = template_narrative (ac_signal cfg) g \<and> no_source ans = Fallback \<and> cache' = [])"
  by (rule published_narrated) (use board.run_inv[OF assms(5)] assms(1,2,4) boot_sound(2)[OF assms(3)] in blast)

text \<open>
  An engine that fails is reported as healthy: when the loop of the engine ended in an error, the
  document it serves has no graph, and the narrative of the gateway without a model, for every
  configuration, is that of a steady state.
\<close>

theorem engine_error_reads_steady:
  "narrative \<lparr>ac_signal = sig, ac_llm = False, ac_model = m\<rparr>
     \<lparr>nr_fetch = Inr (served sig (sv_graph (loop_body en (p\<lparr>pl_window := Inl e\<rparr>) sv))), nr_llm = answer, nr_now = t\<rparr> [] =
   (Reply \<lparr>no_text = ''Steady state: no causal contention detected across 0 workloads.'', no_source = Fallback,
      no_model = None, no_ts = t\<rparr>, [])"
proof -
  have g: "sv_graph (loop_body en (p\<lparr>pl_window := Inl e\<rparr>) sv) = EngineError (FetchError e)" by (simp add: loop_body_def)
  have "show_nat 0 = ''0''" by (subst show_nat.simps) (simp add: digit_def)
  then show ?thesis unfolding g
    by (simp add: narrative_def api_graph_def served_def normalised_def verdict_signature_def template_narrative_def
        ollama_def)
qed

text \<open>
  The list of pods: with a value in the last sample of every series of the signal it is returned,
  hottest first, with exactly one entry per workload that has a series; its level is the largest last
  value of its series (and 0), rounded to four places once, and it is anomalous exactly when the engine
  has a finding of that workload; an unreachable engine only clears the flags.
\<close>

theorem pod_list_exact:
  assumes "valued_series sig win"
  shows "\<exists>ps. api_pods sig (Inr win) eng = Reply ps \<and> sorted_wrt (\<lambda>a b. pd_value b \<le> pd_value a) ps \<and>
    distinct (map pd_workload ps) \<and> (\<forall>w. w \<in> pd_workload ` set ps \<longleftrightarrow> series_of sig w win \<noteq> []) \<and>
    (\<forall>p \<in> set ps. pd_value p = round4 (level_of (map last_level (series_of sig (pd_workload p) win))) \<and>
       pd_anomalous p = (pd_workload p \<in> flagged eng))"
proof -
  obtain out where out: "pod_levels sig (flagged eng) win [] = Inr out" using pod_levels_total[OF assms] by blast
  have "levels_ok sig (flagged eng) [] []" by (simp add: levels_ok_def series_of_def)
  from pod_levels_ok[OF this out] have ok: "levels_ok sig (flagged eng) win out" by simp
  let ?ps = "sort_key (\<lambda>p. - pd_value p) (map snd out)"
  have p: "pd_workload (snd x) = fst x" "pd_value (snd x) = round4 (level_of (map last_level (series_of sig (fst x) win)))"
    "pd_anomalous (snd x) = (fst x \<in> flagged eng)" if "x \<in> set out" for x
    using ok that unfolding levels_ok_def by (cases x, fastforce)+
  have wl: "map (pd_workload \<circ> snd) out = map fst out" using p(1) by simp
  have keys: "pd_workload ` set ?ps = fst ` set out" using p(1) by (force simp: image_image)
  have "distinct (map (pd_workload \<circ> snd) out)" unfolding wl using ok by (simp add: levels_ok_def)
  then have "distinct (map pd_workload ?ps)" by (simp add: distinct_sort_key_fst comp_def)
  moreover have "sorted_wrt (\<lambda>a b. pd_value b \<le> pd_value a) ?ps"
    using sorted_sort_key[of "\<lambda>p. - pd_value p" "map snd out"] by (simp add: sorted_map)
  moreover have "\<forall>w. w \<in> pd_workload ` set ?ps \<longleftrightarrow> series_of sig w win \<noteq> []"
    unfolding keys using ok unfolding levels_ok_def by blast
  ultimately show ?thesis using p by (intro exI[of _ ?ps]) (auto simp: api_pods_def out)
qed

subsection \<open>Concrete answers\<close>

definition small_doc :: api_doc where
  "small_doc = \<lparr>ad_root = [\<lparr>c_pod = ''a'', c_score = 1, c_onset_s = None\<rparr>],
     ad_edges = [\<lparr>ae_src = ''a'', ae_dst = ''b'', ae_r = 7/10, ae_lag_s = 5, ae_evidence = [], ae_conf = None,
       ae_state = None, ae_weight = None, ae_source = None\<rparr>],
     ad_blast = [], ad_findings = [], ad_meta = \<lparr>am_signal = None, am_pods = None, am_register = None\<rparr>\<rparr>"

theorem template_grounded_witness:
  "\<exists>mid rest. template_narrative ''psi_io'' small_doc =
     ''a'' @ '' is the likely root cause of '' @ mid @ '' contention: its activity correlates with '' @ ''b'' @ '' over '' @ rest"
proof -
  have r: "ad_root small_doc = \<lparr>c_pod = ''a'', c_score = 1, c_onset_s = None\<rparr> # []" "ad_edges small_doc \<noteq> []"
    by (simp_all add: small_doc_def)
  have "e \<in> set (ad_edges small_doc) \<Longrightarrow> ae_dst e = ''b''" for e by (simp add: small_doc_def)
  with template_grounded[OF r, of "''psi_io''"] show ?thesis by fastforce
qed

definition quiet_request :: narr_request where
  "quiet_request = \<lparr>nr_fetch = Inr (served ''psi_io'' (EngineError (FetchError []))), nr_llm = LlmFailed, nr_now = 0\<rparr>"

theorem narrative_provenance_witness:
  "\<exists>g. api_graph (nr_fetch quiet_request) = Reply g"
proof -
  let ?cfg = "\<lparr>ac_signal = ''psi_io'', ac_llm = True, ac_model = ''m''\<rparr>"
  have "case fst (narrative ?cfg quiet_request []) of HttpError n \<Rightarrow> False | Reply a \<Rightarrow> True" by code_simp
  then obtain ans where "fst (narrative ?cfg quiet_request []) = Reply ans" by (auto split: reply.splits)
  then have n: "narrative ?cfg quiet_request [] = (Reply ans, snd (narrative ?cfg quiet_request []))" by (metis prod.collapse)
  have "run (narr_step ?cfg) [] [] []" by simp
  from narrative_provenance[OF this n] show ?thesis by blast
qed

theorem engine_always_narrated_witness:
  "\<exists>sv0 ans cache'. boot tick_engine 0 [] new_store = Inr sv0 \<and>
     narrative \<lparr>ac_signal = ''psi_io'', ac_llm = True, ac_model = ''m''\<rparr>
       \<lparr>nr_fetch = Inr (served ''psi_io'' (sv_graph (loop_body tick_engine tick_poll sv0))), nr_llm = LlmFailed, nr_now = 0\<rparr> [] =
     (Reply ans, cache') \<and> no_source ans = Fallback"
proof -
  let ?cfg = "\<lparr>ac_signal = ''psi_io'', ac_llm = True, ac_model = ''m''\<rparr>"
  obtain sv0 where b: "boot tick_engine 0 [] new_store = Inr sv0"
    by (simp add: boot_def Let_def bootstrap_draws_nothing)
  have u: "unit_rows (s_edges (sv_store sv0))" by (simp add: boot_sound(1)[OF b] unit_rows_def)
  have r: "run (svc_step tick_engine) sv0 [tick_poll] (loop_body tick_engine tick_poll sv0)"
    by (simp add: run_Cons_iff svc_step_def)
  have "ollama (ac_llm ?cfg) LlmFailed = None" by (simp add: ollama_def)
  with engine_always_narrated[OF tick_engine_ok(1,2) b u r, where cfg = ?cfg and answer = LlmFailed
      and cache = "[]" and sig = "''psi_io''" and t = 0] b
  show ?thesis by blast
qed

theorem pod_list_exact_witness:
  "\<exists>ps. api_pods ''psi_io'' (Inr tick_window) (Inl []) = Reply ps \<and> distinct (map pd_workload ps)"
proof -
  have "valued_series ''psi_io'' tick_window" by (simp add: valued_series_def tick_window_def upt_rec)
  from pod_list_exact[OF this, of "Inl []"] show ?thesis by blast
qed

end
