(* ===== verification/Cluster.thy ===== *)
theory Cluster
  imports Feed Api
begin

text \<open>
  The aggregator, the engine and the gateway together.  A step of the cluster is an atomic step of the
  aggregator, one of the two fetches of an iteration of the engine's loop (the second one runs the
  iteration), a fetch that fails, or a restart of one of the processes: the aggregator starts empty, the
  engine boots on its file.  \<open>fmt\<close> formats the time stamps of the samples.
\<close>

record cluster =
  cl_agg :: agg
  cl_engine :: service
  cl_window :: "window option"

datatype cluster_event = Aggregated agg_event | WindowFetched | WindowLost string real
  | EventsFetched real | EventsLost string real | AggregatorRestarted | EngineRestarted real string

inductive cluster_step :: "'g engine \<Rightarrow> pack \<Rightarrow> (real \<Rightarrow> string) \<Rightarrow> cluster \<Rightarrow> cluster_event \<Rightarrow> cluster \<Rightarrow> bool"
  for en p fmt where
  cl_aggregated: "agg_step p (cl_agg c) e a \<Longrightarrow> cluster_step en p fmt c (Aggregated e) (c\<lparr>cl_agg := a\<rparr>)"
| cl_window_fetched: "cl_window c = None \<Longrightarrow>
    cluster_step en p fmt c WindowFetched (c\<lparr>cl_window := Some (window_doc fmt (ag_ring (cl_agg c)))\<rparr>)"
| cl_window_lost: "cl_window c = None \<Longrightarrow> cluster_step en p fmt c (WindowLost e t)
    (c\<lparr>cl_engine := loop_body en \<lparr>pl_window = Inl e, pl_events = Inl e, pl_clock = t\<rparr> (cl_engine c)\<rparr>)"
| cl_events_fetched: "cl_window c = Some w \<Longrightarrow> cluster_step en p fmt c (EventsFetched t)
    (c\<lparr>cl_window := None,
      cl_engine := loop_body en \<lparr>pl_window = Inr w, pl_events = events_doc (ag_recent (cl_agg c)), pl_clock = t\<rparr> (cl_engine c)\<rparr>)"
| cl_events_lost: "cl_window c = Some w \<Longrightarrow> cluster_step en p fmt c (EventsLost e t)
    (c\<lparr>cl_window := None, cl_engine := loop_body en \<lparr>pl_window = Inr w, pl_events = Inl e, pl_clock = t\<rparr> (cl_engine c)\<rparr>)"
| cl_agg_restarted: "cluster_step en p fmt c AggregatorRestarted (c\<lparr>cl_agg := agg_start p\<rparr>)"
| cl_engine_restarted: "boot en t params (sv_store (cl_engine c)) = Inr sv \<Longrightarrow>
    cluster_step en p fmt c (EngineRestarted t params) (c\<lparr>cl_engine := sv, cl_window := None\<rparr>)"

definition cluster_start :: "pack \<Rightarrow> service \<Rightarrow> cluster" where
  "cluster_start p sv = \<lparr>cl_agg = agg_start p, cl_engine = sv, cl_window = None\<rparr>"

subsection \<open>One iteration\<close>

lemma complete_poll:
  assumes "stats_api (en_lib en)" "digraph_api (en_nx en)" "unit_rows (s_edges (sv_store sv))"
    and "pl_window p = Inr w" "pl_events p = Inr es" "complete_window (en_epoch en) w" "complete_events es"
  shows "loop_body en p sv = sv \<or> (\<exists>ob. sv_graph (loop_body en p sv) = Verdict ob)"
proof -
  obtain inp where inp: "build_inputs (en_svc en) (en_epoch en) w es = Inr inp" using build_inputs_total[OF assms(6,7)] by blast
  show ?thesis
  proof (cases "i_vectors inp = []")
    case True
    then show ?thesis using inp by (simp add: loop_body_def assms(4,5))
  next
    case False
    from loop_body_clean[OF assms(1-5) inp False] show ?thesis by (metis service.select_convs(2))
  qed
qed

lemma failed_poll: "pl_window p = Inl e \<or> pl_window p = Inr w \<and> pl_events p = Inl e \<Longrightarrow>
    loop_body en p sv = sv\<lparr>sv_graph := EngineError (FetchError e)\<rparr>"
  by (auto simp: loop_body_def)

subsection \<open>What holds in the cluster\<close>

definition no_exception :: "published \<Rightarrow> bool" where
  "no_exception g \<longleftrightarrow> (\<forall>e. g \<noteq> EngineError (Raised e))"

definition cluster_ok :: "'g engine \<Rightarrow> cluster \<Rightarrow> bool" where
  "cluster_ok en c \<longleftrightarrow> unit_rows (s_edges (sv_store (cl_engine c))) \<and> published_ok (sv_graph (cl_engine c)) \<and>
     no_exception (sv_graph (cl_engine c)) \<and> (\<forall>w. cl_window c = Some w \<longrightarrow> complete_window (en_epoch en) w)"

lemma poll_ok:
  assumes "stats_api (en_lib en)" "digraph_api (en_nx en)" "unit_rows (s_edges (sv_store sv))"
    "published_ok (sv_graph sv)" "no_exception (sv_graph sv)"
    and "pl_window p = Inl e \<or> (\<exists>w. pl_window p = Inr w \<and> complete_window (en_epoch en) w \<and>
      (case pl_events p of Inl e \<Rightarrow> True | Inr es \<Rightarrow> complete_events es))"
  shows "unit_rows (s_edges (sv_store (loop_body en p sv))) \<and> published_ok (sv_graph (loop_body en p sv)) \<and>
    no_exception (sv_graph (loop_body en p sv))"
proof -
  have "no_exception (sv_graph (loop_body en p sv))"
  proof (cases "\<exists>w es. pl_window p = Inr w \<and> pl_events p = Inr es")
    case True
    then obtain w es where w: "pl_window p = Inr w" "pl_events p = Inr es" by blast
    with assms(6) have "complete_window (en_epoch en) w" "complete_events es" by auto
    from complete_poll[OF assms(1-3) w this] show ?thesis using assms(5) by (auto simp: no_exception_def)
  next
    case False
    then obtain w e where "pl_window p = Inl e \<or> pl_window p = Inr w \<and> pl_events p = Inl e"
      by (metis sum.exhaust)
    from failed_poll[OF this, of en sv] show ?thesis by (simp add: no_exception_def)
  qed
  then show ?thesis using loop_body_unit[OF assms(1-3)] loop_body_published[OF assms(1-4)] by blast
qed

lemma boot_unit: "boot en t params st = Inr sv \<Longrightarrow> unit_rows (s_edges st) \<Longrightarrow> unit_rows (s_edges (sv_store sv))"
  using boot_sound(1)[of en t params st sv]
  by (auto simp: open_store_def record_model_version_def migrate_def Let_def unit_rows_def)

lemma boot_no_exception: "boot en t params st = Inr sv \<Longrightarrow> \<exists>g m. sv_graph sv = Booted g m"
  by (auto simp: boot_def Let_def bootstrap_draws_nothing)

lemma cluster_ok_step:
  assumes "stats_api (en_lib en)" "digraph_api (en_nx en)" "cluster_ok en c" "cluster_step en p fmt c ev c'"
  shows "cluster_ok en c'"
  using assms(4)
proof (cases rule: cluster_step.cases)
  case (cl_window_lost e t)
  then show ?thesis using assms(3) poll_ok[OF assms(1,2), of "cl_engine c" "\<lparr>pl_window = Inl e, pl_events = Inl e, pl_clock = t\<rparr>" e]
    by (simp add: cluster_ok_def)
next
  case (cl_events_fetched w t)
  have "case events_doc r of Inl e \<Rightarrow> True | Inr es \<Rightarrow> complete_events es" for r
    using events_doc_complete[of r] by (simp split: sum.split)
  then show ?thesis using cl_events_fetched assms(3)
      poll_ok[OF assms(1,2), of "cl_engine c" "\<lparr>pl_window = Inr w, pl_events = events_doc (ag_recent (cl_agg c)), pl_clock = t\<rparr>"]
    by (simp add: cluster_ok_def)
next
  case (cl_events_lost w e t)
  then show ?thesis using assms(3)
      poll_ok[OF assms(1,2), of "cl_engine c" "\<lparr>pl_window = Inr w, pl_events = Inl e, pl_clock = t\<rparr>"]
    by (simp add: cluster_ok_def)
next
  case (cl_engine_restarted t params sv)
  then show ?thesis using assms(3) boot_unit[of en t params "sv_store (cl_engine c)" sv]
      boot_sound(2)[of en t params "sv_store (cl_engine c)" sv] boot_no_exception[of en t params "sv_store (cl_engine c)" sv]
    by (auto simp: cluster_ok_def no_exception_def)
qed (use assms(3) in \<open>simp_all add: cluster_ok_def window_doc_complete\<close>)

interpretation cluster: invariant_machine "cluster_step en p fmt" "cluster_ok en"
  "\<lambda>_. stats_api (en_lib en) \<and> digraph_api (en_nx en)" for en p fmt
  by unfold_locales (auto intro: cluster_ok_step)

subsection \<open>Without losses\<close>

definition lossless :: "cluster_event \<Rightarrow> bool" where
  "lossless ev = (case ev of WindowLost _ _ \<Rightarrow> False | EventsLost _ _ \<Rightarrow> False | _ \<Rightarrow> True)"

definition finite_pack :: "pack \<Rightarrow> bool" where
  "finite_pack p \<longleftrightarrow> (\<forall>(k, v) \<in> set (pk_thresholds p). is_finite v)"

definition finite_events :: "agg \<Rightarrow> bool" where
  "finite_events a \<longleftrightarrow> (\<forall>ev \<in> set (ag_pending a) \<union> set (ag_recent a). is_finite (gv_threshold ev))"

lemma threshold_for_finite: "finite_pack p \<Longrightarrow> threshold_for sg p = Some thr \<Longrightarrow> is_finite thr"
  by (auto simp: threshold_for_def finite_pack_def split: if_splits dest!: map_of_SomeD)

lemma finite_events_step: "finite_pack p \<Longrightarrow> agg_step p a e a' \<Longrightarrow> finite_events a \<Longrightarrow> finite_events a'"
proof (erule agg_step.cases)
  fix sg s b r evs
  assume "finite_pack p" "finite_events a" "eval_sample p sg s (ag_ring b, ag_pending b) = Some (r, evs)"
    "a = b" "a' = b\<lparr>ag_ring := r, ag_pending := evs\<rparr>"
  then show "finite_events a'" using threshold_for_finite[of p sg]
    by (auto simp: eval_sample_def Let_def finite_events_def mk_event_def split: if_splits option.splits)
next
  fix b ev evs
  assume "finite_events a" "a = b" "ag_pending b = ev # evs" "a' = b\<lparr>ag_pending := evs, ag_recent := publish ev (ag_recent b)\<rparr>"
  then show "finite_events a'"
    by (auto simp: finite_events_def publish_def Let_def dest: in_set_dropD)
qed

definition cluster_live :: "'g engine \<Rightarrow> cluster \<Rightarrow> bool" where
  "cluster_live en c \<longleftrightarrow> cluster_ok en c \<and> finite_events (cl_agg c) \<and> (\<forall>x. sv_graph (cl_engine c) \<noteq> EngineError x)"

lemma events_doc_finite: "finite_events a \<Longrightarrow> \<exists>es. events_doc (ag_recent a) = Inr es"
  by (auto simp: events_doc_def finite_events_def list_all_iff)

lemma cluster_live_step:
  assumes "stats_api (en_lib en)" "digraph_api (en_nx en)" "finite_pack p" "cluster_live en c"
    and "cluster_step en p fmt c ev c'" "lossless ev"
  shows "cluster_live en c'"
proof -
  have ok: "cluster_ok en c'" using cluster_ok_step[OF assms(1,2) _ assms(5)] assms(4) by (simp add: cluster_live_def)
  from assms(5) show ?thesis
  proof (cases rule: cluster_step.cases)
    case (cl_aggregated e a)
    then show ?thesis using ok assms(4) finite_events_step[OF assms(3), of "cl_agg c" e a] by (simp add: cluster_live_def)
  next
    case (cl_events_fetched w t)
    obtain es where es: "events_doc (ag_recent (cl_agg c)) = Inr es"
      using events_doc_finite assms(4) by (auto simp: cluster_live_def)
    have "unit_rows (s_edges (sv_store (cl_engine c)))" "complete_window (en_epoch en) w"
      using assms(4) cl_events_fetched by (auto simp: cluster_live_def cluster_ok_def)
    from complete_poll[OF assms(1,2) this(1) _ _ this(2) events_doc_complete[OF es],
        of "\<lparr>pl_window = Inr w, pl_events = Inr es, pl_clock = t\<rparr>"]
    show ?thesis using ok assms(4) cl_events_fetched es by (auto simp: cluster_live_def)
  next
    case (cl_agg_restarted)
    then show ?thesis using ok assms(4) by (simp add: cluster_live_def finite_events_def agg_start_def)
  next
    case (cl_engine_restarted t params sv)
    then show ?thesis using ok assms(4) boot_no_exception[of en t params "sv_store (cl_engine c)" sv]
      by (auto simp: cluster_live_def)
  qed (use ok assms(4,6) in \<open>simp_all add: cluster_live_def lossless_def\<close>)
qed

interpretation lossless: invariant_machine "cluster_step en p fmt" "cluster_live en"
  "\<lambda>ev. stats_api (en_lib en) \<and> digraph_api (en_nx en) \<and> finite_pack p \<and> lossless ev" for en p fmt
  by unfold_locales (auto intro: cluster_live_step)

lemma cluster_start_ok:
  assumes "boot en now params st = Inr sv0" "unit_rows (s_edges st)"
  shows "cluster_live en (cluster_start p sv0)"
  using boot_unit[OF assms] boot_sound(2)[OF assms(1)] boot_no_exception[OF assms(1)]
  by (auto simp: cluster_live_def cluster_ok_def cluster_start_def no_exception_def finite_events_def agg_start_def)

subsection \<open>Properties\<close>

text \<open>
  C1. The engine never fails of itself, in the whole cluster: over every interleaving of the aggregator's
  steps, the engine's fetches, losses of either fetch and restarts of either process, the published
  document never reports an exception of the engine, every edge it draws carries its memory, the
  gateway narrates it without an error, and no window is held that the engine cannot read.  And when no fetch was lost and the thresholds are finite
  numbers, it never reports an error at all.
\<close>

theorem cluster_never_raises:
  assumes "stats_api (en_lib en)" and "digraph_api (en_nx en)" and "boot en now params st = Inr sv0"
    and "unit_rows (s_edges st)" and "run (cluster_step en p fmt) (cluster_start p sv0) evs c"
  shows "(\<forall>e. sv_graph (cl_engine c) \<noteq> EngineError (Raised e)) \<and>
    (\<forall>ob. sv_graph (cl_engine c) = Verdict ob \<longrightarrow> (\<forall>h \<in> set (g_edges (out_graph ob)). x_mem h \<noteq> None)) \<and>
    (\<exists>ans cache'. narrative cfg \<lparr>nr_fetch = Inr (served sig (sv_graph (cl_engine c))), nr_llm = answer, nr_now = t\<rparr> cache =
       (Reply ans, cache')) \<and>
    (\<forall>w. cl_window c = Some w \<longrightarrow> complete_window (en_epoch en) w) \<and>
    (finite_pack p \<and> list_all lossless evs \<longrightarrow> (\<forall>x. sv_graph (cl_engine c) \<noteq> EngineError x))"
proof -
  have start: "cluster_live en (cluster_start p sv0)" by (rule cluster_start_ok[OF assms(3,4)])
  have "cluster_ok en c"
    using cluster.run_inv[OF assms(5)] start assms(1,2) by (simp add: cluster_live_def)
  moreover have "cluster_live en c" if "finite_pack p" "list_all lossless evs"
    by (rule lossless.run_inv[OF assms(5) start]) (use that assms(1,2) in \<open>simp add: list_all_iff\<close>)
  moreover have "\<exists>ans cache'. narrative cfg \<lparr>nr_fetch = Inr (served sig (sv_graph (cl_engine c))), nr_llm = answer, nr_now = t\<rparr> cache =
      (Reply ans, cache')"
    using published_narrated[of "cl_engine c" sig cfg answer t cache] calculation(1) by (auto simp: cluster_ok_def)
  moreover have "\<forall>ob. sv_graph (cl_engine c) = Verdict ob \<longrightarrow> (\<forall>h \<in> set (g_edges (out_graph ob)). x_mem h \<noteq> None)"
    using calculation(1) by (auto simp: cluster_ok_def published_ok_def)
  ultimately show ?thesis by (simp add: cluster_ok_def cluster_live_def no_exception_def)
qed

text \<open>Steps of the aggregator are steps of the cluster.\<close>

lemma lift_aggregator:
  "run (agg_step p) (cl_agg c) es a \<Longrightarrow> run (cluster_step en p fmt) c (map Aggregated es) (c\<lparr>cl_agg := a\<rparr>)"
proof (induction es arbitrary: c)
  case (Cons e es)
  then obtain b where b: "agg_step p (cl_agg c) e b" "run (agg_step p) b es a" by auto
  have "run (cluster_step en p fmt) (c\<lparr>cl_agg := b\<rparr>) (map Aggregated es) (c\<lparr>cl_agg := a\<rparr>)"
    using Cons.IH[of "c\<lparr>cl_agg := b\<rparr>"] b(2) by simp
  then show ?case using cl_aggregated[OF b(1)] by (auto intro: run_step)
qed auto

theorem cluster_never_raises_witness:
  "\<exists>sv0 c. boot tick_engine 0 [] new_store = Inr sv0 \<and>
     run (cluster_step tick_engine test_pack (\<lambda>_. [])) (cluster_start test_pack sv0)
       (map Aggregated test_events @ [WindowFetched, EventsFetched 1]) c \<and>
     cl_window c = None \<and> sv_graph (cl_engine c) \<noteq> EngineError (FetchError [])"
proof -
  obtain sv0 where b: "boot tick_engine 0 [] new_store = Inr sv0"
    by (simp add: boot_def Let_def bootstrap_draws_nothing)
  let ?s = "cluster_start test_pack sv0" and ?step = "cluster_step tick_engine test_pack (\<lambda>_. [])"
  obtain a where "run (agg_step test_pack) (agg_start test_pack) test_events a" using test_run by (rule exE)
  then have r0: "run ?step ?s (map Aggregated test_events) (?s\<lparr>cl_agg := a\<rparr>)"
    by (intro lift_aggregator) (simp add: cluster_start_def)
  let ?c0 = "?s\<lparr>cl_agg := a\<rparr>"
  let ?w = "window_doc (\<lambda>_. []) (ag_ring (cl_agg ?c0))"
  let ?c1 = "?c0\<lparr>cl_window := Some ?w\<rparr>"
  let ?c2 = "?c1\<lparr>cl_window := None, cl_engine := loop_body tick_engine
      \<lparr>pl_window = Inr ?w, pl_events = events_doc (ag_recent (cl_agg ?c1)), pl_clock = 1\<rparr> (cl_engine ?c1)\<rparr>"
  have "?step ?c0 WindowFetched ?c1" by (rule cl_window_fetched) (simp add: cluster_start_def)
  moreover have "?step ?c1 (EventsFetched 1) ?c2" by (rule cl_events_fetched) simp
  ultimately have "run ?step ?c0 [WindowFetched, EventsFetched 1] ?c2" by (rule run_step[OF _ run_step[OF _ run_refl]])
  with r0 have r: "run ?step ?s (map Aggregated test_events @ [WindowFetched, EventsFetched 1]) ?c2" by (rule run_append)
  have u: "unit_rows (s_edges new_store)" by (simp add: new_store_def unit_rows_def)
  have "finite_pack test_pack" by (simp add: finite_pack_def test_pack_def is_finite_def)
  then have "sv_graph (cl_engine ?c2) \<noteq> EngineError (FetchError [])"
    using cluster_never_raises[OF tick_engine_ok(1,2) b u r] by (simp add: lossless_def)
  moreover have "cl_window ?c2 = None" by simp
  ultimately show ?thesis by (intro exI[of _ sv0] exI[of _ ?c2] conjI b r)
qed

end
