(* ===== verification/Json.thy ===== *)
theory Json
  imports Text
begin

text \<open>
  JSON as the memory of the engine stores it: \<open>_json\<close> and \<open>_load_json\<close> of \<open>correlation/engine/state.py\<close>,
  over Python's \<open>json.dumps\<close> (sorted keys, no blanks, ASCII only) and \<open>json.loads\<close>.  The text of a float
  is an argument: \<open>sf\<close> is \<open>float.__repr__\<close> and \<open>rf\<close> is \<open>float\<close> on a number with a fraction or an exponent,
  \<open>None\<close> when it is too large.  Characters are the 8-bit ones of the model, so an escape of another
  character is not read.
\<close>

datatype json = JNull | JBool bool | JInt int | JFloat real | JInf bool | JNaN | JStr string
  | JArr "json list" | JObj "(string \<times> json) list"

subsection \<open>Writing\<close>

definition hex :: "nat \<Rightarrow> char" where
  "hex n = ''0123456789abcdef'' ! n"

definition QUOTE :: char where
  "QUOTE = CHR 0x22"

definition BACKSLASH :: char where
  "BACKSLASH = CHR 0x5C"

definition escape :: "char \<Rightarrow> string" where
  "escape c = (let n = (of_char c :: nat) in
     if c = QUOTE then [BACKSLASH, QUOTE] else if c = BACKSLASH then [BACKSLASH, BACKSLASH]
     else if n = 10 then [BACKSLASH, CHR ''n''] else if n = 13 then [BACKSLASH, CHR ''r'']
     else if n = 9 then [BACKSLASH, CHR ''t''] else if n = 12 then [BACKSLASH, CHR ''f'']
     else if n = 8 then [BACKSLASH, CHR ''b'']
     else if 32 \<le> n \<and> n \<le> 126 then [c]
     else [BACKSLASH, CHR ''u'', CHR ''0'', CHR ''0'', hex (n div 16), hex (n mod 16)])"

definition dump_str :: "string \<Rightarrow> string" where
  "dump_str s = QUOTE # concat (map escape s) @ [QUOTE]"

text \<open>\<open>_json\<close>\<close>

fun dump :: "(real \<Rightarrow> string) \<Rightarrow> json \<Rightarrow> string" where
  "dump sf JNull = ''null''"
| "dump sf (JBool b) = (if b then ''true'' else ''false'')"
| "dump sf (JInt i) = show_int i"
| "dump sf (JFloat x) = sf x"
| "dump sf (JInf pos) = (if pos then ''Infinity'' else ''-Infinity'')"
| "dump sf JNaN = ''NaN''"
| "dump sf (JStr s) = dump_str s"
| "dump sf (JArr vs) = ''['' @ join_str '','' (map (dump sf) vs) @ '']''"
| "dump sf (JObj kvs) = ''{'' @ join_str '','' (map (\<lambda>kt. dump_str (fst kt) @ '':'' @ snd kt)
     (sort_key fst (map (\<lambda>kv. (fst kv, dump sf (snd kv))) kvs))) @ ''}''"

subsection \<open>Reading\<close>

definition json_space :: "char \<Rightarrow> bool" where
  "json_space c = (let n = (of_char c :: nat) in n \<in> {32, 9, 10, 13})"

definition skip :: "string \<Rightarrow> string" where
  "skip s = dropWhile json_space s"

definition unhex :: "char \<Rightarrow> nat option" where
  "unhex c = (let n = (of_char c :: nat) in
     if 48 \<le> n \<and> n \<le> 57 then Some (n - 48) else if 97 \<le> n \<and> n \<le> 102 then Some (n - 87)
     else if 65 \<le> n \<and> n \<le> 70 then Some (n - 55) else None)"

definition hex_char :: "char \<Rightarrow> char \<Rightarrow> char \<Rightarrow> char \<Rightarrow> char option" where
  "hex_char a b c d = (case (unhex a, unhex b, unhex c, unhex d) of
     (Some w, Some x, Some y, Some z) \<Rightarrow> if w = 0 \<and> x = 0 then Some (char_of (16 * y + z)) else None | _ \<Rightarrow> None)"

definition unescape :: "char \<Rightarrow> char option" where
  "unescape c = (if c = QUOTE \<or> c = BACKSLASH \<or> c = CHR ''/'' then Some c
     else if c = CHR ''n'' then Some (char_of (10::nat)) else if c = CHR ''r'' then Some (char_of (13::nat))
     else if c = CHR ''t'' then Some (char_of (9::nat)) else if c = CHR ''f'' then Some (char_of (12::nat))
     else if c = CHR ''b'' then Some (char_of (8::nat)) else None)"

text \<open>\<open>scanstring\<close>, after the opening quote; control characters are not allowed.\<close>

fun pstr :: "string \<Rightarrow> (string \<times> string) option" where
  "pstr [] = None"
| "pstr (c # s) =
     (if c = QUOTE then Some ([], s)
      else if (of_char c :: nat) < 32 then None
      else if c \<noteq> BACKSLASH then map_option (\<lambda>(t, r). (c # t, r)) (pstr s)
      else (case s of [] \<Rightarrow> None
        | d # s1 \<Rightarrow>
            if d = CHR ''u'' then
              (case s1 of w # x # y # z # s2 \<Rightarrow>
                 (case hex_char w x y z of None \<Rightarrow> None | Some e \<Rightarrow> map_option (\<lambda>(t, r). (e # t, r)) (pstr s2))
               | _ \<Rightarrow> None)
            else (case unescape d of None \<Rightarrow> None | Some e \<Rightarrow> map_option (\<lambda>(t, r). (e # t, r)) (pstr s1))))"

definition starts :: "string \<Rightarrow> string \<Rightarrow> bool" where
  "starts p s = (take (length p) s = p)"

text \<open>The three parts of a number, each with the rest of the text.\<close>

definition nat_part :: "string \<Rightarrow> (string \<times> string) option" where
  "nat_part s = (if starts ''0'' s then Some (''0'', tl s)
     else if s \<noteq> [] \<and> is_digit (hd s) then Some (takeWhile is_digit s, dropWhile is_digit s) else None)"

definition int_part :: "string \<Rightarrow> (string \<times> string) option" where
  "int_part s = (if starts ''-'' s then map_option (\<lambda>(d, r). (CHR ''-'' # d, r)) (nat_part (tl s)) else nat_part s)"

definition frac_part :: "string \<Rightarrow> string \<times> string" where
  "frac_part s = (if starts ''.'' s \<and> takeWhile is_digit (tl s) \<noteq> []
     then (CHR ''.'' # takeWhile is_digit (tl s), dropWhile is_digit (tl s)) else ([], s))"

definition num_sign :: "string \<Rightarrow> string" where
  "num_sign s = (if starts ''+'' s \<or> starts ''-'' s then take 1 s else [])"

definition exp_part :: "string \<Rightarrow> string \<times> string" where
  "exp_part s =
     (if s = [] \<or> hd s \<notin> {CHR ''e'', CHR ''E''} then ([], s)
      else let sg = num_sign (tl s); u = drop (length sg) (tl s)
           in if takeWhile is_digit u \<noteq> [] then (hd s # sg @ takeWhile is_digit u, dropWhile is_digit u) else ([], s))"

definition read_int :: "string \<Rightarrow> int" where
  "read_int s = (if starts ''-'' s then - int (num (tl s)) else int (num s))"

definition pnum :: "(string \<Rightarrow> real option) \<Rightarrow> string \<Rightarrow> (json \<times> string) option" where
  "pnum rf s = (case int_part s of None \<Rightarrow> None
     | Some (i, s1) \<Rightarrow> let (f, s2) = frac_part s1; (e, s3) = exp_part s2 in
         if f = [] \<and> e = [] then Some (JInt (read_int i), s3)
         else Some (case rf (i @ f @ e) of None \<Rightarrow> JInf (\<not> starts ''-'' i) | Some x \<Rightarrow> JFloat x, s3))"

text \<open>\<open>null\<close>, \<open>true\<close>, \<open>false\<close>, \<open>NaN\<close>, the infinities, or a number.\<close>

definition pword :: "(string \<Rightarrow> real option) \<Rightarrow> string \<Rightarrow> (json \<times> string) option" where
  "pword rf s =
     (if starts ''null'' s then Some (JNull, drop 4 s) else if starts ''true'' s then Some (JBool True, drop 4 s)
      else if starts ''false'' s then Some (JBool False, drop 5 s) else if starts ''NaN'' s then Some (JNaN, drop 3 s)
      else if starts ''Infinity'' s then Some (JInf True, drop 8 s)
      else if starts ''-Infinity'' s then Some (JInf False, drop 9 s) else pnum rf s)"

definition dict_of :: "(string \<times> json) list \<Rightarrow> (string \<times> json) list" where
  "dict_of kvs = fold (\<lambda>kv d. AList.update (fst kv) (snd kv) d) kvs []"

lemma length_skip [simp]: "length (skip s) \<le> length s"
  by (simp add: skip_def length_dropWhile_le)

lemma tl_skip [simp]: "length (skip s) - Suc 0 \<le> length s" "length (skip (tl (skip s))) \<le> length s"
proof -
  show 1: "length (skip s) - Suc 0 \<le> length s" by (rule le_trans[OF diff_le_self length_skip])
  show "length (skip (tl (skip s))) \<le> length s" by (rule le_trans[OF length_skip]) (use 1 in simp)
qed

lemma starts_Cons [simp]: "starts (p # ps) s \<longleftrightarrow> s \<noteq> [] \<and> hd s = p \<and> starts ps (tl s)"
  by (cases s) (auto simp: starts_def)

lemma starts_Nil [simp]: "starts [] s"
  by (simp add: starts_def)

lemma pstr_shorter: "pstr s = Some (t, r) \<Longrightarrow> length r < length s"
proof (induction s arbitrary: t r rule: pstr.induct)
  case (2 c s)
  show ?case
  proof (cases "c = QUOTE \<or> (of_char c :: nat) < 32 \<or> c \<noteq> BACKSLASH")
    case True
    then show ?thesis using 2(1,4) by (auto split: if_splits)
  next
    case esc: False
    then obtain d s1 where s: "s = d # s1" using 2(4) by (cases s) auto
    show ?thesis
    proof (cases "d = CHR ''u''")
      case True
      then obtain w x y z s2 e t' where "s1 = w # x # y # z # s2" "hex_char w x y z = Some e" "pstr s2 = Some (t', r)"
        using 2(4) esc s by (auto split: list.splits option.splits)
      with 2(2) esc s True show ?thesis by fastforce
    next
      case False
      then obtain e t' where "unescape d = Some e" "pstr s1 = Some (t', r)"
        using 2(4) esc s by (auto split: option.splits)
      with 2(3) esc s False show ?thesis by fastforce
    qed
  qed
qed simp

lemma length_dropWhile_less: "takeWhile P s \<noteq> [] \<Longrightarrow> length (dropWhile P s) < length s"
  by (cases s) (auto simp: le_imp_less_Suc length_dropWhile_le split: if_splits)

lemma nat_part_shorter: "nat_part s = Some (i, r) \<Longrightarrow> length r < length s"
  by (cases s) (auto simp: nat_part_def length_dropWhile_le le_imp_less_Suc split: if_splits)

lemma int_part_shorter: "int_part s = Some (i, r) \<Longrightarrow> length r < length s"
  by (cases s) (auto simp: int_part_def split: if_splits dest!: nat_part_shorter)

lemma frac_part_shorter: "length (snd (frac_part s)) \<le> length s"
  using length_dropWhile_le[of is_digit "tl s"] by (cases s) (auto simp: frac_part_def)

lemma exp_part_shorter: "length (snd (exp_part s)) \<le> length s"
proof -
  have "snd (exp_part s) = s \<or> (\<exists>n. snd (exp_part s) = dropWhile is_digit (drop n (tl s)))"
    by (auto simp: exp_part_def Let_def)
  moreover have "length (dropWhile is_digit (drop n (tl s))) \<le> length s" for n
    using length_dropWhile_le[of is_digit "drop n (tl s)"] by simp
  ultimately show ?thesis by (metis order_refl)
qed

lemma pnum_shorter: "pnum rf s = Some (v, r) \<Longrightarrow> length r < length s"
proof -
  assume a: "pnum rf s = Some (v, r)"
  then obtain i s1 where i: "int_part s = Some (i, s1)" by (auto simp: pnum_def split: option.splits)
  then have "r = snd (exp_part (snd (frac_part s1)))"
    using a by (auto simp: pnum_def Let_def split: prod.splits if_splits)
  then have "length r \<le> length (snd (frac_part s1))" using exp_part_shorter by simp
  then show ?thesis using int_part_shorter[OF i] frac_part_shorter[of s1] by linarith
qed

lemma pword_shorter:
  assumes "pword rf s = Some (v, r)"
  shows "length r < length s"
proof (cases "pnum rf s = Some (v, r)")
  case False
  have "s \<noteq> []" using assms by (auto simp: pword_def pnum_def int_part_def nat_part_def)
  moreover have "\<exists>n. 0 < n \<and> r = drop n s"
    using assms False unfolding pword_def by (simp split: if_split_asm del: starts_Cons) (use zero_less_numeral in blast)+
  ultimately show ?thesis by (cases s) auto
qed (rule pnum_shorter)

lemma starts_tl: "starts (p # ps) s \<Longrightarrow> length (tl s) < length s"
  by (cases s) auto

lemma after_string: "starts [QUOTE] s \<Longrightarrow> pstr (tl s) = Some (k, q) \<Longrightarrow> length q < length s"
  using pstr_shorter[of "tl s" k q] by (cases s) auto

lemma after_skip: "length q < n \<Longrightarrow> length (skip (tl (skip q))) < n"
  by (rule le_less_trans[OF tl_skip(2)])

text \<open>\<open>scan_once\<close>, the rest of an array after its bracket, the rest of an object after its brace.\<close>

function (sequential) pval :: "(string \<Rightarrow> real option) \<Rightarrow> string \<Rightarrow> (json \<times> string) option"
  and pitems :: "(string \<Rightarrow> real option) \<Rightarrow> string \<Rightarrow> (json list \<times> string) option"
  and pfields :: "(string \<Rightarrow> real option) \<Rightarrow> string \<Rightarrow> ((string \<times> json) list \<times> string) option" where
  "pval rf [] = None"
| "pval rf (c # s) =
     (if c = QUOTE then map_option (\<lambda>(t, r). (JStr t, r)) (pstr s)
      else if c = CHR ''['' then
        (if starts '']'' (skip s) then Some (JArr [], tl (skip s))
         else map_option (\<lambda>(vs, r). (JArr vs, r)) (pitems rf (skip s)))
      else if c = CHR ''{'' then
        (if starts ''}'' (skip s) then Some (JObj [], tl (skip s))
         else map_option (\<lambda>(kvs, r). (JObj (dict_of kvs), r)) (pfields rf (skip s)))
      else pword rf (c # s))"
| "pitems rf s = (case pval rf s of None \<Rightarrow> None
     | Some (v, r) \<Rightarrow>
         if starts '']'' (skip r) then Some ([v], tl (skip r))
         else if starts '','' (skip r) then map_option (\<lambda>(vs, q). (v # vs, q)) (pitems rf (skip (tl (skip r))))
         else None)"
| "pfields rf s = (if \<not> starts [QUOTE] s then None
     else case pstr (tl s) of None \<Rightarrow> None
       | Some (k, r) \<Rightarrow>
           if \<not> starts '':'' (skip r) then None
           else (case pval rf (skip (tl (skip r))) of None \<Rightarrow> None
             | Some (v, q) \<Rightarrow>
                 if starts ''}'' (skip q) then Some ([(k, v)], tl (skip q))
                 else if starts '','' (skip q) then map_option (\<lambda>(kvs, u). ((k, v) # kvs, u)) (pfields rf (skip (tl (skip q))))
                 else None))"
  by pat_completeness auto

termination
proof -
  have parsers_shorter:
    "pval_pitems_pfields_dom (Inl (rf, s)) \<Longrightarrow> pval rf s = Some (v, r) \<Longrightarrow> length r < length s"
    "pval_pitems_pfields_dom (Inr (Inl (rf, s))) \<Longrightarrow> pitems rf s = Some (vs, r) \<Longrightarrow> length r < length s"
    "pval_pitems_pfields_dom (Inr (Inr (rf, s))) \<Longrightarrow> pfields rf s = Some (kvs, r) \<Longrightarrow> length r < length s" for rf s v r vs kvs
  proof (induction rf s and rf s and rf s arbitrary: v r and vs r and kvs r rule: pval_pitems_pfields.pinduct)
    case (2 rf c s)
    show ?case
    proof (cases "c = QUOTE \<or> c = CHR ''['' \<or> c = CHR ''{''")
      case True
      then consider "c = QUOTE" | "c = CHR ''[''" "c \<noteq> QUOTE" | "c = CHR ''{''" "c \<noteq> QUOTE" "c \<noteq> CHR ''[''"
        by (auto simp: QUOTE_def)
      then show ?thesis
      proof cases
        case 1
        then show ?thesis using 2 pstr_shorter[of s] by (auto simp: pval.psimps)
      next
        case b: 2
        show ?thesis
        proof (cases "starts '']'' (skip s)")
          case True
          then show ?thesis using 2 b by (auto simp: pval.psimps less_Suc_eq_le)
        next
          case False
          then obtain vs where "pitems rf (skip s) = Some (vs, r)" using 2 b by (auto simp: pval.psimps)
          from 2(2)[OF b(2,1) False this] length_skip[of s] show ?thesis by (simp del: length_skip)
        qed
      next
        case b: 3
        show ?thesis
        proof (cases "starts ''}'' (skip s)")
          case True
          then show ?thesis using 2 b by (auto simp: pval.psimps less_Suc_eq_le)
        next
          case False
          then obtain kvs where "pfields rf (skip s) = Some (kvs, r)" using 2 b by (auto simp: pval.psimps)
          from 2(3)[OF b(2,3,1) False this] length_skip[of s] show ?thesis by (simp del: length_skip)
        qed
      qed
    next
      case False
      then show ?thesis using 2(1,4) pword_shorter[of rf "c # s" v r] by (simp add: pval.psimps)
    qed
  next
    case (3 rf s)
    obtain v q where v: "pval rf s = Some (v, q)" using 3(1,4) by (auto simp: pitems.psimps split: option.splits)
    then have q: "length q < length s" using 3(2) by blast
    show ?case
    proof (cases "starts '']'' (skip q)")
      case True
      then show ?thesis using 3(1,4) v le_less_trans[OF tl_skip(1) q] by (auto simp: pitems.psimps)
    next
      case False
      then obtain vs' where "starts '','' (skip q)" "pitems rf (skip (tl (skip q))) = Some (vs', r)"
        using 3(1,4) v by (auto simp: pitems.psimps split: if_splits)
      from 3(3)[OF v refl False this] show ?thesis by (rule less_trans[OF less_le_trans[OF _ tl_skip(2)] q])
    qed
  next
    case (4 rf s)
    obtain k q where k: "starts [QUOTE] s" "pstr (tl s) = Some (k, q)" "starts '':'' (skip q)"
      using 4(1,4) by (auto simp: pfields.psimps split: option.splits if_splits)
    obtain v u where v: "pval rf (skip (tl (skip q))) = Some (v, u)"
      using 4(1,4) k by (auto simp: pfields.psimps split: option.splits if_splits)
    have q: "length q < length s" using pstr_shorter[OF k(2)] k(1) by (cases s) auto
    have "length u < length (skip (tl (skip q)))" using 4(2) k v by blast
    then have u: "length u < length s" by (rule less_trans[OF less_le_trans[OF _ tl_skip(2)] q])
    show ?case
    proof (cases "starts ''}'' (skip u)")
      case True
      then show ?thesis using 4(1,4) k v le_less_trans[OF tl_skip(1) u] by (auto simp: pfields.psimps)
    next
      case False
      then obtain kvs' where f: "starts '','' (skip u)" "pfields rf (skip (tl (skip u))) = Some (kvs', r)"
        using 4(1,4) k v by (auto simp: pfields.psimps split: if_splits)
      then have "length r < length (skip (tl (skip u)))" using 4(3) k v False by blast
      then show ?thesis by (rule less_trans[OF less_le_trans[OF _ tl_skip(2)] u])
    qed
  qed (simp add: pval.psimps)
  show ?thesis
  proof (relation "measure (\<lambda>x. case x of Inl (rf, s) \<Rightarrow> 2 * length s
      | Inr (Inl (rf, s)) \<Rightarrow> 2 * length s + 1 | Inr (Inr (rf, s)) \<Rightarrow> 2 * length s + 1)", goal_cases)
    case (5 rf s a v q)
    then have "length q < length s" using parsers_shorter(1)[of rf s v q] by simp
    from after_skip[OF this] show ?case by simp
  next
    case (6 rf s a k q)
    then have "length q < length s" using after_string[of s k q] by simp
    from after_skip[OF this] show ?case by simp
  next
    case (7 rf s a k q b v u)
    then have "length q < length s" using after_string[of s k q] by simp
    from after_skip[OF this] have "length (skip (tl (skip q))) < length s" .
    then have "length u < length s" using parsers_shorter(1)[of rf "skip (tl (skip q))" v u] 7 by simp
    from after_skip[OF this] show ?case by simp
  qed (simp_all add: le_imp_less_Suc)
qed

declare pitems.simps [simp del] pfields.simps [simp del]

subsection \<open>Strings are read back\<close>

lemma unhex_hex: "n < 16 \<Longrightarrow> unhex (hex n) = Some n"
proof -
  assume "n < 16"
  then have "n = 0 \<or> n = 1 \<or> n = 2 \<or> n = 3 \<or> n = 4 \<or> n = 5 \<or> n = 6 \<or> n = 7 \<or> n = 8 \<or> n = 9 \<or> n = 10 \<or> n = 11 \<or>
    n = 12 \<or> n = 13 \<or> n = 14 \<or> n = 15" by arith
  then show ?thesis by (elim disjE) (simp_all add: hex_def unhex_def)
qed

lemma hex_char_hex: "hex_char (CHR ''0'') (CHR ''0'') (hex (of_char c div 16)) (hex (of_char c mod 16)) = Some c"
proof -
  have b: "(of_char c :: nat) < 256" by simp
  then have "(of_char c :: nat) div 16 < 16" by (simp add: less_mult_imp_div_less)
  moreover have "unhex (CHR ''0'') = Some 0" by (simp add: unhex_def)
  moreover have "char_of (16 * (of_char c div 16) + of_char c mod 16 :: nat) = c" by simp
  ultimately show ?thesis by (simp add: hex_char_def unhex_hex)
qed

lemma pstr_escape: "pstr (escape c @ s) = map_option (\<lambda>(t, r). (c # t, r)) (pstr s)"
proof -
  have ch: "char_of (of_char c :: nat) = c" by simp
  have n: "(of_char c :: nat) = k \<Longrightarrow> char_of k = c" for k using ch by simp
  show ?thesis
    by (simp add: escape_def Let_def unescape_def hex_char_hex QUOTE_def BACKSLASH_def n split: option.split)
qed

lemma pstr_dump: "pstr (concat (map escape t) @ QUOTE # r) = Some (t, r)"
  by (induction t) (simp_all add: pstr_escape)

subsection \<open>Numbers are read back\<close>

text \<open>What follows a value in a text of \<open>_json\<close>.\<close>

definition ends :: "string \<Rightarrow> bool" where
  "ends r \<longleftrightarrow> r = [] \<or> hd r \<in> {CHR '','', CHR '']'', CHR ''}''}"

lemma ends_not_digit: "ends r \<Longrightarrow> r = [] \<or> \<not> is_digit (hd r) \<and> \<not> json_space (hd r)"
  by (auto simp: ends_def is_digit_def json_space_def)

lemma span_append:
  assumes "r = [] \<or> \<not> P (hd r)"
  shows "takeWhile P (t @ r) = takeWhile P t" "dropWhile P (t @ r) = dropWhile P t @ r"
proof -
  have "takeWhile P r = []" "dropWhile P r = r" using assms by (cases r; simp)+
  then show "takeWhile P (t @ r) = takeWhile P t" "dropWhile P (t @ r) = dropWhile P t @ r" by (induction t) auto
qed

lemma nat_part_append:
  assumes "nat_part t = Some (i, u)" "ends r"
  shows "nat_part (t @ r) = Some (i, u @ r)" "t = i @ u" "t \<noteq> []" "is_digit (hd t)"
proof -
  have nd: "r = [] \<or> \<not> is_digit (hd r)" using ends_not_digit[OF assms(2)] by blast
  note sp = span_append[of r is_digit, OF nd]
  have t: "t \<noteq> []" using assms(1) by (auto simp: nat_part_def split: if_splits)
  then have h: "hd (t @ r) = hd t" "tl (t @ r) = tl t @ r" by simp_all
  show "nat_part (t @ r) = Some (i, u @ r)" using assms(1) t unfolding nat_part_def starts_Cons h sp by (auto split: if_splits)
  show "t = i @ u" using assms(1) t by (cases t) (auto simp: nat_part_def split: if_splits)
  show "t \<noteq> []" by (rule t)
  show "is_digit (hd t)" using assms(1) by (auto simp: nat_part_def is_digit_def split: if_splits)
qed

lemma int_part_append:
  assumes "int_part t = Some (i, u)" "ends r"
  shows "int_part (t @ r) = Some (i, u @ r)" "t = i @ u"
    "t \<noteq> [] \<and> (is_digit (hd t) \<or> hd t = CHR ''-'' \<and> tl t \<noteq> [] \<and> is_digit (hd (tl t)))"
proof -
  have "int_part (t @ r) = Some (i, u @ r) \<and> t = i @ u \<and>
      t \<noteq> [] \<and> (is_digit (hd t) \<or> hd t = CHR ''-'' \<and> tl t \<noteq> [] \<and> is_digit (hd (tl t)))"
  proof (cases "starts ''-'' t")
    case True
    then obtain t' d where "t = CHR ''-'' # t'" "nat_part t' = Some (d, u)" "i = CHR ''-'' # d"
      using assms(1) by (cases t) (auto simp: int_part_def)
    with nat_part_append[OF this(2) assms(2)] show ?thesis by (simp add: int_part_def)
  next
    case False
    then have n: "nat_part t = Some (i, u)" using assms(1) unfolding int_part_def by (simp only: if_False)
    note na = nat_part_append[OF n assms(2)]
    have "\<not> starts ''-'' (t @ r)" using False na(3) by simp
    then have "int_part (t @ r) = Some (i, u @ r)" using na(1) unfolding int_part_def by (simp only: if_False)
    then show ?thesis using na by blast
  qed
  then show "int_part (t @ r) = Some (i, u @ r)" "t = i @ u"
    "t \<noteq> [] \<and> (is_digit (hd t) \<or> hd t = CHR ''-'' \<and> tl t \<noteq> [] \<and> is_digit (hd (tl t)))" by blast+
qed

lemma ends_starts: "ends r \<Longrightarrow> c \<notin> {CHR '','', CHR '']'', CHR ''}''} \<Longrightarrow> \<not> starts (c # cs) r"
  by (auto simp: ends_def)

lemma frac_part_append:
  assumes "frac_part t = (f, u)" "ends r"
  shows "frac_part (t @ r) = (f, u @ r)" "t = f @ u"
proof -
  have nd: "r = [] \<or> \<not> is_digit (hd r)" using ends_not_digit[OF assms(2)] by blast
  note sp = span_append[of r is_digit, OF nd]
  have r: "\<not> starts ''.'' r" by (rule ends_starts[OF assms(2)]) simp
  show "frac_part (t @ r) = (f, u @ r)"
  proof (cases t)
    case Nil
    then show ?thesis using assms(1) r by (auto simp: frac_part_def)
  next
    case (Cons c t')
    then show ?thesis using assms(1) by (auto simp: frac_part_def sp split: if_splits)
  qed
  show "t = f @ u" using assms(1) by (cases t) (auto simp: frac_part_def split: if_splits)
qed

lemma exp_part_append:
  assumes "exp_part t = (e, u)" "ends r"
  shows "exp_part (t @ r) = (e, u @ r)" "t = e @ u"
proof -
  have nd: "r = [] \<or> \<not> is_digit (hd r)" using ends_not_digit[OF assms(2)] by blast
  note sp = span_append[of r is_digit, OF nd]
  have r: "\<not> starts ''+'' r" "\<not> starts ''-'' r" "r = [] \<or> hd r \<notin> {CHR ''e'', CHR ''E''}"
    using assms(2) by (auto simp: ends_def)
  have "exp_part (t @ r) = (e, u @ r) \<and> t = e @ u"
  proof (cases t)
    case Nil
    then show ?thesis using assms(1) r(3) by (auto simp: exp_part_def)
  next
    case c: (Cons c t')
    show ?thesis
    proof (cases "t' = []")
      case True
      have "num_sign r = []" unfolding num_sign_def using r(1,2) by (simp only: if_False simp_thms)
      moreover have "takeWhile is_digit r = []" using nd by (cases r) auto
      ultimately have "exp_part (c # r) = ([], c # r)" by (simp add: exp_part_def)
      moreover have "exp_part [c] = ([], [c])" by (simp add: exp_part_def num_sign_def)
      ultimately show ?thesis using assms(1) unfolding c True by auto
    next
      case False
      have sg: "num_sign (t' @ r) = num_sign t'" "length (num_sign t') \<le> length t'" using False by (simp_all add: num_sign_def Suc_le_eq)
      then have "drop (length (num_sign t')) (t' @ r) = drop (length (num_sign t')) t' @ r" by simp
      moreover have "num_sign t' @ drop (length (num_sign t')) t' = t'" using False by (cases t') (simp_all add: num_sign_def)
      ultimately show ?thesis using assms(1) c sg(1) sp[of "drop (length (num_sign t')) t'"]
        by (auto simp: exp_part_def Let_def split: if_splits)
    qed
  qed
  then show "exp_part (t @ r) = (e, u @ r)" "t = e @ u" by blast+
qed

text \<open>The text of a number that is read as a float.\<close>

definition float_text :: "string \<Rightarrow> bool" where
  "float_text t = (case int_part t of None \<Rightarrow> False
     | Some (i, u) \<Rightarrow> let (f, u2) = frac_part u; (e, u3) = exp_part u2 in u3 = [] \<and> (f \<noteq> [] \<or> e \<noteq> []))"

lemma pnum_float:
  assumes "float_text t" "rf t = Some x" "ends r"
  shows "pnum rf (t @ r) = Some (JFloat x, r)"
proof -
  obtain i u f u2 e where p: "int_part t = Some (i, u)" "frac_part u = (f, u2)" "exp_part u2 = (e, [])" "f \<noteq> [] \<or> e \<noteq> []"
    using assms(1) by (auto simp: float_text_def Let_def split: option.splits prod.splits)
  have "t = i @ f @ e"
    using int_part_append(2)[OF p(1) assms(3)] frac_part_append(2)[OF p(2) assms(3)] exp_part_append(2)[OF p(3) assms(3)] by simp
  then show ?thesis
    using p(4) assms(2) int_part_append(1)[OF p(1) assms(3)] frac_part_append(1)[OF p(2) assms(3)] exp_part_append(1)[OF p(3) assms(3)]
    by (auto simp: pnum_def)
qed

lemma digit_not_minus: "is_digit c \<Longrightarrow> c \<noteq> CHR ''-''"
  by (auto simp: is_digit_def)

lemma nat_part_show: "nat_part (show_nat n) = Some (show_nat n, [])"
proof (cases "n = 0")
  case True
  then show ?thesis by (simp add: nat_part_def show_nat.simps[of 0] digit_simps)
next
  case False
  have "list_all is_digit (show_nat n)" by simp
  then have "takeWhile is_digit (show_nat n) = show_nat n" "dropWhile is_digit (show_nat n) = []" "is_digit (hd (show_nat n))"
    by (simp_all add: takeWhile_eq_all_conv list_all_iff)
  then show ?thesis using False show_nat_head[of n] by (simp add: nat_part_def)
qed

lemma int_part_show: "int_part (show_int i) = Some (show_int i, [])"
proof -
  have "is_digit (hd (show_nat n))" for n
    using show_nat_digits[of n] by (cases "show_nat n") auto
  then have "\<not> starts ''-'' (show_nat n)" for n using digit_not_minus by fastforce
  then show ?thesis by (auto simp: show_int_def int_part_def nat_part_show)
qed

lemma read_show_int: "read_int (show_int i) = i"
proof -
  have "is_digit (hd (show_nat n))" for n
    using show_nat_digits[of n] by (cases "show_nat n") auto
  then have "\<not> starts ''-'' (show_nat n)" for n using digit_not_minus by fastforce
  then show ?thesis by (auto simp: show_int_def read_int_def)
qed

lemma pnum_int:
  assumes "ends r"
  shows "pnum rf (show_int i @ r) = Some (JInt i, r)"
proof -
  have "frac_part [] = ([], [])" "exp_part [] = ([], [])" by (simp_all add: frac_part_def exp_part_def)
  from int_part_append(1)[OF int_part_show assms] frac_part_append(1)[OF this(1) assms] exp_part_append(1)[OF this(2) assms]
  show ?thesis by (simp add: pnum_def read_show_int)
qed

text \<open>A number is none of the words.\<close>

lemma pval_number:
  assumes "int_part t = Some (i, u)" "ends r"
  shows "pval rf (t @ r) = pnum rf (t @ r)" "\<not> json_space (hd t)" "t \<noteq> []" "hd t \<notin> {CHR '']'', CHR ''}''}"
proof -
  have t: "t \<noteq> []" "is_digit (hd t) \<or> hd t = CHR ''-'' \<and> tl t \<noteq> [] \<and> is_digit (hd (tl t))"
    using int_part_append(3)[OF assms] by blast+
  obtain c t' where c: "t = c # t'" using t(1) by (cases t) auto
  have letter: "is_digit d \<Longrightarrow> d \<notin> {QUOTE, CHR ''['', CHR ''{'', CHR ''n'', CHR ''t'', CHR ''f'', CHR ''N'', CHR ''I'', CHR '']'', CHR ''}''} \<and>
      \<not> json_space d" for d
    by (auto simp: is_digit_def json_space_def QUOTE_def Let_def)
  have "pword rf (t @ r) = pnum rf (t @ r)"
  proof -
    have "c \<notin> {CHR ''n'', CHR ''t'', CHR ''f'', CHR ''N'', CHR ''I''}" using t(2) c letter[of c] by auto
    moreover have "c = CHR ''-'' \<longrightarrow> hd (t' @ r) \<noteq> CHR ''I''" using t(2) c letter[of "hd t'"] digit_not_minus[of c] by auto
    ultimately show ?thesis unfolding pword_def c append_Cons starts_Cons list.sel by (simp only: simp_thms if_False insert_iff empty_iff de_Morgan_disj) auto
  qed
  moreover have "c \<notin> {QUOTE, CHR ''['', CHR ''{''}" using t(2) c letter[of c] by (auto simp: QUOTE_def)
  ultimately show "pval rf (t @ r) = pnum rf (t @ r)" using c by simp
  show "\<not> json_space (hd t)" using t(2) letter[of "hd t"] by (auto simp: json_space_def)
  show "t \<noteq> []" by (rule t(1))
  show "hd t \<notin> {CHR '']'', CHR ''}''}" using t(2) letter[of "hd t"] by auto
qed

subsection \<open>Values are read back\<close>

text \<open>
  What a dictionary is, and what is relied on of the text of the floats that occur: it is a number with a
  fraction or an exponent that reads back as the float.
\<close>

fun dumpable :: "(real \<Rightarrow> string) \<Rightarrow> (string \<Rightarrow> real option) \<Rightarrow> json \<Rightarrow> bool" where
  "dumpable sf rf (JFloat x) = (float_text (sf x) \<and> rf (sf x) = Some x)"
| "dumpable sf rf (JArr vs) = list_all (dumpable sf rf) vs"
| "dumpable sf rf (JObj kvs) = (distinct (map fst kvs) \<and> list_all (\<lambda>kv. dumpable sf rf (snd kv)) kvs)"
| "dumpable sf rf _ = True"

text \<open>The same value with its dictionaries in the order of the keys; Python's \<open>==\<close> ignores the order.\<close>

fun sorted_keys :: "json \<Rightarrow> json" where
  "sorted_keys (JArr vs) = JArr (map sorted_keys vs)"
| "sorted_keys (JObj kvs) = JObj (sort_key fst (map (\<lambda>kv. (fst kv, sorted_keys (snd kv))) kvs))"
| "sorted_keys v = v"

definition value_text :: "string \<Rightarrow> bool" where
  "value_text t \<longleftrightarrow> t \<noteq> [] \<and> \<not> json_space (hd t) \<and> hd t \<notin> {CHR '']'', CHR ''}''}"

lemma skip_text [simp]: "t \<noteq> [] \<Longrightarrow> \<not> json_space (hd t) \<Longrightarrow> skip (t @ r) = t @ r"
  by (cases t) (simp_all add: skip_def)

lemma skip_cons [simp]: "\<not> json_space c \<Longrightarrow> skip (c # r) = c # r"
  by (simp add: skip_def)

lemma json_space_simps [simp]: "\<not> json_space (CHR '','')" "\<not> json_space (CHR '':'')" "\<not> json_space (CHR '']'')"
  "\<not> json_space (CHR ''}'')" "\<not> json_space QUOTE"
  by (simp_all add: json_space_def QUOTE_def)

lemma dump_text: "dumpable sf rf v \<Longrightarrow> value_text (dump sf v)"
proof (cases v)
  case (JInt i)
  then show ?thesis using pval_number(2-4)[OF int_part_show, of "[]" i] by (simp add: value_text_def ends_def)
next
  case (JFloat x)
  assume "dumpable sf rf v"
  then obtain i u where "int_part (sf x) = Some (i, u)" using JFloat by (auto simp: float_text_def split: option.splits)
  then show ?thesis using JFloat pval_number(2-4)[of "sf x" i u "[]"] by (simp add: value_text_def ends_def)
qed (auto simp: value_text_def json_space_def dump_str_def QUOTE_def)

definition read_back :: "(real \<Rightarrow> string) \<Rightarrow> (string \<Rightarrow> real option) \<Rightarrow> json \<Rightarrow> bool" where
  "read_back sf rf v \<longleftrightarrow> value_text (dump sf v) \<and> (\<forall>r. ends r \<longrightarrow> pval rf (dump sf v @ r) = Some (sorted_keys v, r))"

lemma pitems_dump:
  assumes "vs \<noteq> []" "\<And>v. v \<in> set vs \<Longrightarrow> read_back sf rf v"
  shows "pitems rf (join_str '','' (map (dump sf) vs) @ CHR '']'' # r) = Some (map sorted_keys vs, r)"
  using assms
proof (induction vs)
  case (Cons v vs)
  have v: "\<And>r. ends r \<Longrightarrow> pval rf (dump sf v @ r) = Some (sorted_keys v, r)"
    using Cons.prems(2)[of v] by (simp add: read_back_def)
  show ?case
  proof (cases vs)
    case Nil
    then show ?thesis using v[of "CHR '']'' # r"] by (simp add: pitems.simps ends_def)
  next
    case (Cons w ws)
    let ?t = "join_str '','' (map (dump sf) vs) @ CHR '']'' # r"
    have ih: "pitems rf ?t = Some (map sorted_keys vs, r)"
      using Cons.IH Cons.prems(2) Cons by simp
    have "value_text (dump sf w)" using Cons.prems(2)[of w] Cons by (simp add: read_back_def)
    then have "skip ?t = ?t" using Cons by (cases ws) (auto simp: value_text_def)
    with v[of "CHR '','' # ?t"] ih show ?thesis
      by (subst pitems.simps) (simp add: Cons ends_def)
  qed
qed simp

definition field_text :: "string \<times> string \<Rightarrow> string" where
  "field_text kt = dump_str (fst kt) @ '':'' @ snd kt"

lemma pfields_dump:
  assumes "kvs \<noteq> []" "\<And>k v. (k, v) \<in> set kvs \<Longrightarrow> read_back sf rf v"
  shows "pfields rf (join_str '','' (map (\<lambda>(k, v). field_text (k, dump sf v)) kvs) @ CHR ''}'' # r) =
    Some (map (\<lambda>(k, v). (k, sorted_keys v)) kvs, r)"
  using assms
proof (induction kvs)
  case (Cons kv kvs)
  obtain k v where kv: "kv = (k, v)" by (cases kv)
  have v: "\<And>r. ends r \<Longrightarrow> pval rf (dump sf v @ r) = Some (sorted_keys v, r)" and vt: "value_text (dump sf v)"
    using Cons.prems(2)[of k v] kv by (simp_all add: read_back_def)
  have sk: "skip (dump sf v @ q) = dump sf v @ q" for q using vt by (simp add: value_text_def)
  have key: "pstr (tl (field_text (k, dump sf v) @ q)) = Some (k, CHR '':'' # dump sf v @ q)" "starts [QUOTE] (field_text (k, dump sf v) @ q)" for q
    by (simp_all add: field_text_def dump_str_def pstr_dump)
  show ?case
  proof (cases kvs)
    case Nil
    then show ?thesis using v[of "CHR ''}'' # r"] key[of "CHR ''}'' # r"] kv
      by (subst pfields.simps) (simp add: ends_def sk)
  next
    case c: (Cons w ws)
    let ?t = "join_str '','' (map (\<lambda>(k, v). field_text (k, dump sf v)) kvs) @ CHR ''}'' # r"
    have ih: "pfields rf ?t = Some (map (\<lambda>(k, v). (k, sorted_keys v)) kvs, r)"
      by (rule Cons.IH) (use c Cons.prems(2) in auto)
    have "skip ?t = ?t" using c by (cases ws; cases w) (auto simp: field_text_def dump_str_def)
    with v[of "CHR '','' # ?t"] ih key[of "CHR '','' # ?t"] kv show ?thesis
      by (subst pfields.simps) (simp add: c ends_def sk)
  qed
qed simp

lemma dict_of_distinct: "distinct (map fst kvs) \<Longrightarrow> dict_of kvs = kvs"
proof -
  have "fold (\<lambda>kv d. AList.update (fst kv) (snd kv) d) kvs d = d @ kvs"
    if "distinct (map fst kvs)" "fst ` set kvs \<inter> fst ` set d = {}" for d
    using that
  proof (induction kvs arbitrary: d)
    case (Cons kv kvs)
    have "k \<notin> fst ` set e \<Longrightarrow> AList.update k v e = e @ [(k, v)]" for k v and e :: "(string \<times> json) list"
      by (induction e) auto
    then have "AList.update (fst kv) (snd kv) d = d @ [kv]" using Cons.prems(2) by (cases kv) auto
    then show ?case using Cons by auto
  qed simp
  from this[of "[]"] show "distinct (map fst kvs) \<Longrightarrow> dict_of kvs = kvs" by (simp add: dict_of_def)
qed

lemma insort_key_fst_map: "insort_key fst (k, f v) (map (\<lambda>kv. (fst kv, f (snd kv))) xs) =
    map (\<lambda>kv. (fst kv, f (snd kv))) (insort_key fst (k, v) xs)"
  by (induction xs) auto

lemma sort_key_fst_map: "sort_key fst (map (\<lambda>kv. (fst kv, f (snd kv))) xs) = map (\<lambda>kv. (fst kv, f (snd kv))) (sort_key fst xs)"
  for xs :: "(string \<times> 'a) list"
proof (induction xs)
  case (Cons x xs)
  then show ?case by (cases x) (simp add: insort_key_fst_map)
qed simp

lemma dump_obj: "dump sf (JObj kvs) = CHR ''{'' # join_str '','' (map (\<lambda>(k, v). field_text (k, dump sf v)) (sort_key fst kvs)) @ ''}''"
  unfolding dump.simps sort_key_fst_map by (simp add: field_text_def case_prod_unfold comp_def)

lemma quote_brace: "QUOTE \<noteq> CHR ''}''"
  by (simp add: QUOTE_def)

lemma dump_read_back: "dumpable sf rf v \<Longrightarrow> read_back sf rf v"
proof (induction v)
  case (JInt i)
  then show ?case using dump_text[OF JInt] pnum_int pval_number(1)[OF int_part_show]
    by (simp add: read_back_def)
next
  case (JFloat x)
  then obtain i u where "int_part (sf x) = Some (i, u)" by (auto simp: float_text_def split: option.splits)
  then show ?case using dump_text[OF JFloat] JFloat pnum_float pval_number(1)
    by (simp add: read_back_def)
next
  case (JArr vs)
  have "read_back sf rf v" if "v \<in> set vs" for v using JArr that by (simp add: list_all_iff)
  note items = pitems_dump[of vs sf rf, OF _ this]
  have "pval rf (dump sf (JArr vs) @ r) = Some (sorted_keys (JArr vs), r)" for r
  proof (cases "vs = []")
    case False
    then obtain w ws where w: "vs = w # ws" by (cases vs) auto
    have t: "value_text (dump sf w)" using JArr.prems w dump_text[of sf rf w] by simp
    let ?t = "join_str '','' (map (dump sf) vs) @ CHR '']'' # r"
    have "skip ?t = ?t \<and> \<not> starts '']'' ?t" using t w by (cases ws) (auto simp: value_text_def)
    then show ?thesis using items[OF False, where r = r] by (simp add: QUOTE_def)
  qed (simp add: QUOTE_def)
  then show ?case using dump_text[OF JArr.prems] by (simp add: read_back_def)
next
  case (JObj kvs)
  let ?s = "sort_key fst kvs"
  have d: "distinct (map fst ?s)" using JObj.prems by (simp add: distinct_sort_key_fst)
  have "read_back sf rf v" if "(k, v) \<in> set ?s" for k v
    using JObj.IH[of "(k, v)" v] JObj.prems that by (auto simp: list_all_iff)
  note fields = pfields_dump[of ?s sf rf, OF _ this]
  have "pval rf (dump sf (JObj kvs) @ r) = Some (sorted_keys (JObj kvs), r)" for r
  proof (cases "?s = []")
    case True
    then have "kvs = []" by (metis length_0_conv length_sort)
    then show ?thesis by (simp add: QUOTE_def)
  next
    case False
    then obtain w ws where w: "?s = w # ws" by (cases ?s) auto
    let ?t = "join_str '','' (map (\<lambda>(k, v). field_text (k, dump sf v)) ?s) @ CHR ''}'' # r"
    have "skip ?t = ?t \<and> \<not> starts ''}'' ?t" using w by (cases ws; cases w) (auto simp: field_text_def dump_str_def quote_brace)
    moreover have "dict_of (map (\<lambda>(k, v). (k, sorted_keys v)) ?s) = map (\<lambda>(k, v). (k, sorted_keys v)) ?s"
      by (rule dict_of_distinct) (use d in \<open>simp add: comp_def case_prod_beta\<close>)
    ultimately show ?thesis using fields[OF False, where r = r] unfolding dump_obj
      by (simp add: QUOTE_def sort_key_fst_map case_prod_beta)
  qed
  then show ?case using dump_text[OF JObj.prems] by (simp add: read_back_def)
qed (simp_all add: read_back_def value_text_def json_space_def dump_str_def pstr_dump pword_def, simp_all add: QUOTE_def)

subsection \<open>Loading\<close>

text \<open>\<open>json.loads\<close>, \<open>None\<close> for its \<open>ValueError\<close>, and \<open>_load_json\<close>.\<close>

definition loads :: "(string \<Rightarrow> real option) \<Rightarrow> string \<Rightarrow> json option" where
  "loads rf s = (case pval rf (skip s) of None \<Rightarrow> None | Some (v, r) \<Rightarrow> if skip r = [] then Some v else None)"

definition load_json :: "(string \<Rightarrow> real option) \<Rightarrow> string option \<Rightarrow> json \<Rightarrow> json" where
  "load_json rf val dflt = (case val of None \<Rightarrow> dflt
     | Some s \<Rightarrow> if s = [] then dflt else (case loads rf s of None \<Rightarrow> dflt | Some v \<Rightarrow> v))"

lemma loads_dump: "dumpable sf rf v \<Longrightarrow> loads rf (dump sf v) = Some (sorted_keys v)"
proof -
  assume "dumpable sf rf v"
  from dump_read_back[OF this] have v: "value_text (dump sf v)" "pval rf (dump sf v @ []) = Some (sorted_keys v, [])"
    by (simp_all add: read_back_def ends_def)
  have "skip (dump sf v @ []) = dump sf v @ []" by (rule skip_text) (use v(1) in \<open>simp_all add: value_text_def\<close>)
  then show ?thesis using v(2) by (simp add: loads_def skip_def)
qed

lemma load_json_dump: "dumpable sf rf v \<Longrightarrow> load_json rf (Some (dump sf v)) dflt = sorted_keys v"
  using loads_dump[of sf rf v] dump_text[of sf rf v] by (simp add: load_json_def value_text_def)

lemma dump_sorted_keys: "dump sf (sorted_keys v) = dump sf v"
proof (induction v)
  case (JArr vs)
  then show ?case by (simp add: comp_def cong: map_cong)
next
  case (JObj kvs)
  have idem: "sort_key fst (sort_key fst xs) = sort_key fst xs" for xs :: "(string \<times> json) list"
    by (rule sort_key_id_if_sorted) simp
  have "dump sf (sorted_keys v) = dump sf v" if "(k, v) \<in> set (sort_key fst kvs)" for k v
    using JObj[of "(k, v)" v] that by simp
  then have "map (\<lambda>(k, v). field_text (k, dump sf v)) (map (\<lambda>kv. (fst kv, sorted_keys (snd kv))) (sort_key fst kvs)) =
      map (\<lambda>(k, v). field_text (k, dump sf v)) (sort_key fst kvs)"
    by (auto simp: comp_def)
  then show ?case unfolding sorted_keys.simps dump_obj idem sort_key_fst_map by (simp only:)
qed simp_all

lemma json_of_text:
  assumes "dumpable sf rf v" and "dumpable sf rf w"
  shows "dump sf v = dump sf w \<longleftrightarrow> sorted_keys v = sorted_keys w"
proof -
  have "sorted_keys v = sorted_keys w" if "dump sf v = dump sf w"
    using loads_dump[OF assms(1)] loads_dump[OF assms(2)] that by simp
  moreover have "dump sf v = dump sf w" if "sorted_keys v = sorted_keys w"
    using dump_sorted_keys[of sf v] dump_sorted_keys[of sf w] that by simp
  ultimately show ?thesis by blast
qed

subsection \<open>Properties\<close>

text \<open>
  C14. What the engine writes into a JSON column it reads back: for every value whose dictionaries have
  distinct keys and whose floats print as numbers that read back, \<open>_load_json\<close> of \<open>_json\<close> gives the value,
  with its dictionaries in the order of their keys, whatever the default, and two values have the same
  text exactly when they are equal up to the order of the keys.
\<close>

theorem json_round_trip:
  assumes "dumpable sf rf v" and "dumpable sf rf w"
  shows "load_json rf (Some (dump sf v)) dflt = sorted_keys v \<and> (dump sf v = dump sf w \<longleftrightarrow> sorted_keys v = sorted_keys w)"
  using load_json_dump[OF assms(1)] json_of_text[OF assms] by blast

definition half_text :: "real \<Rightarrow> string" where
  "half_text x = (if x = 1/2 then ''0.5'' else ''1e400'')"

definition half_read :: "string \<Rightarrow> real option" where
  "half_read t = (if t = ''0.5'' then Some (1/2) else None)"

theorem json_round_trip_witness:
  "load_json half_read (Some (dump half_text (JObj [(''b'', JInt (-7)), (''a'', JArr [JFloat (1/2), JStr [QUOTE, CHR 0x0A]])]))) JNull =
     JObj [(''a'', JArr [JFloat (1/2), JStr [QUOTE, CHR 0x0A]]), (''b'', JInt (-7))]"
proof -
  let ?v = "JObj [(''b'', JInt (-7)), (''a'', JArr [JFloat (1/2), JStr [QUOTE, CHR 0x0A]])]"
  have "float_text ''0.5''" by code_simp
  then have "dumpable half_text half_read ?v" by (simp add: half_text_def half_read_def)
  moreover have "sorted_keys ?v = JObj [(''a'', JArr [JFloat (1/2), JStr [QUOTE, CHR 0x0A]]), (''b'', JInt (-7))]"
    by simp
  ultimately show ?thesis using json_round_trip[of half_text half_read ?v ?v JNull] by simp
qed

end
