(* ===== verification/Columns.thy ===== *)
theory Columns
  imports Json Cases
begin

text \<open>
  The JSON columns of the case library as text: what \<open>_promote_case\<close> of \<open>correlation/engine/state.py\<close>
  writes and what \<open>_case_sim\<close> reads back, and the text that the digest of a case is taken of.  In the other
  theories the columns hold the values; here they are shown to be interchangeable.
\<close>

subsection \<open>Encoding\<close>

definition strs_json :: "string list \<Rightarrow> json" where
  "strs_json xs = JArr (map JStr xs)"

definition arrow_json :: "string \<times> string \<Rightarrow> json" where
  "arrow_json a = JObj [(''src'', JStr (fst a)), (''dst'', JStr (snd a))]"

definition motif_json :: "(string \<times> string) list \<Rightarrow> json" where
  "motif_json ms = JArr (map arrow_json ms)"

definition lags_json :: "int pdict \<Rightarrow> json" where
  "lags_json d = JObj (map (\<lambda>kv. (fst kv, JInt (snd kv))) d)"

definition opt_json :: "string option \<Rightarrow> json" where
  "opt_json w = (case w of None \<Rightarrow> JNull | Some s \<Rightarrow> JStr s)"

definition key_json :: "case_key \<Rightarrow> json" where
  "key_json k = JObj [(''stressors'', strs_json (k_stressors k)), (''victims'', strs_json (k_victims k)),
     (''signal'', JStr (k_signal k)), (''witness_kind'', opt_json (k_witness k)), (''motif'', motif_json (k_motif k))]"

definition key_text :: "(real \<Rightarrow> string) \<Rightarrow> case_key \<Rightarrow> string" where
  "key_text sf k = dump sf (key_json k)"

text \<open>The columns of a row of \<open>cases\<close> that are read again.\<close>

record case_text =
  ct_stressors :: string
  ct_victims :: string
  ct_motif :: string
  ct_signal :: string
  ct_witness :: "string option"

definition encode_case :: "(real \<Rightarrow> string) \<Rightarrow> case_row \<Rightarrow> case_text" where
  "encode_case sf c = \<lparr>ct_stressors = dump sf (strs_json (cs_stressors c)), ct_victims = dump sf (strs_json (cs_victims c)),
     ct_motif = dump sf (motif_json (cs_motif c)), ct_signal = cs_signal c, ct_witness = cs_witness c\<rparr>"

subsection \<open>Reading\<close>

text \<open>\<open>set(...)\<close> of a loaded column of strings, and the arrows of a loaded motif.\<close>

definition as_string :: "json \<Rightarrow> string res" where
  "as_string v = (case v of JStr s \<Rightarrow> Inr s | _ \<Rightarrow> Inl TypeError)"

definition elements :: "json \<Rightarrow> json list res" where
  "elements v = (case v of JArr vs \<Rightarrow> Inr vs | JObj kvs \<Rightarrow> Inr (map (\<lambda>kv. JStr (fst kv)) kvs)
     | JStr s \<Rightarrow> Inr (map (\<lambda>c. JStr [c]) s) | _ \<Rightarrow> Inl TypeError)"

definition string_set :: "json \<Rightarrow> string set res" where
  "string_set v = rbind (elements v) (\<lambda>vs. rbind (rtrav as_string vs) (\<lambda>xs. Inr (set xs)))"

definition member :: "string \<Rightarrow> json \<Rightarrow> string res" where
  "member k v = (case v of JObj kvs \<Rightarrow> rbind (res_of_option KeyError (map_of kvs k)) as_string | _ \<Rightarrow> Inl TypeError)"

definition arrow_of :: "json \<Rightarrow> (string \<times> string) res" where
  "arrow_of v = rbind (member ''src'' v) (\<lambda>a. rbind (member ''dst'' v) (\<lambda>b. Inr (a, b)))"

definition arrow_set :: "json \<Rightarrow> (string \<times> string) set res" where
  "arrow_set v = rbind (elements v) (\<lambda>vs. rbind (rtrav arrow_of vs) (\<lambda>xs. Inr (set xs)))"

text \<open>\<open>_case_sim\<close> on the text columns.\<close>

definition case_sim_text :: "(string \<Rightarrow> real option) \<Rightarrow> case_key \<Rightarrow> case_text \<Rightarrow> real res" where
  "case_sim_text rf fp crow =
     (if k_signal fp \<noteq> ct_signal crow \<or> or_empty (k_witness fp) \<noteq> or_empty (ct_witness crow) then Inr 0
      else rbind (string_set (load_json rf (Some (ct_victims crow)) (JArr []))) (\<lambda>cv.
        rbind (string_set (load_json rf (Some (ct_stressors crow)) (JArr []))) (\<lambda>cs.
        rbind (arrow_set (load_json rf (Some (ct_motif crow)) (JArr []))) (\<lambda>cm.
          Inr (4/10 * jaccard (set (k_victims fp)) cv + 2/10 * jaccard (set (k_stressors fp)) cs
            + 4/10 * jaccard (set (k_motif fp)) cm)))))"

subsection \<open>The columns are faithful\<close>

lemma strs_read:
  "load_json rf (Some (dump sf (strs_json xs))) d = strs_json xs" "string_set (strs_json xs) = Inr (set xs)"
proof -
  have "dumpable sf rf (strs_json xs)" "sorted_keys (strs_json xs) = strs_json xs"
    by (simp_all add: strs_json_def list_all_iff comp_def)
  then show "load_json rf (Some (dump sf (strs_json xs))) d = strs_json xs" by (simp add: load_json_dump)
  have "rtrav as_string (map JStr xs) = Inr xs" by (induction xs) (simp_all add: as_string_def)
  then show "string_set (strs_json xs) = Inr (set xs)" by (simp add: string_set_def elements_def strs_json_def)
qed

lemma map_of_sort_key:
  fixes kvs :: "(string \<times> 'a) list"
  assumes "distinct (map fst kvs)"
  shows "map_of (sort_key f kvs) k = map_of kvs k"
proof -
  have "map_of (sort_key f kvs) k = Some v \<longleftrightarrow> map_of kvs k = Some v" for v
    using assms by (simp add: map_of_eq_Some_iff distinct_sort_key_fst)
  then show ?thesis by (cases "map_of kvs k"; cases "map_of (sort_key f kvs) k") auto
qed

lemma arrow_read: "arrow_of (sorted_keys (arrow_json a)) = Inr a"
proof -
  have m: "map_of (sort_key fst [(''src'', JStr (fst a)), (''dst'', JStr (snd a))]) k =
      map_of [(''src'', JStr (fst a)), (''dst'', JStr (snd a))] k" for k
    by (rule map_of_sort_key) simp
  show ?thesis by (simp add: arrow_of_def member_def arrow_json_def as_string_def m del: sort_key_simps)
qed

lemma motif_read: "arrow_set (load_json rf (Some (dump sf (motif_json ms))) d) = Inr (set ms)"
proof -
  have "dumpable sf rf (motif_json ms)" by (simp add: motif_json_def arrow_json_def list_all_iff)
  then have "load_json rf (Some (dump sf (motif_json ms))) d = sorted_keys (motif_json ms)" by (rule load_json_dump)
  moreover have "rtrav arrow_of (map (\<lambda>a. sorted_keys (arrow_json a)) ms) = Inr ms"
    by (induction ms) (simp_all add: arrow_read del: sorted_keys.simps)
  ultimately show ?thesis by (simp add: arrow_set_def elements_def motif_json_def comp_def)
qed

lemma key_dumpable: "dumpable sf rf (key_json k)"
  by (simp add: key_json_def strs_json_def motif_json_def arrow_json_def opt_json_def list_all_iff split: option.split)

lemma strs_inj: "sorted_keys (strs_json xs) = sorted_keys (strs_json ys) \<Longrightarrow> xs = ys"
proof -
  assume "sorted_keys (strs_json xs) = sorted_keys (strs_json ys)"
  then have "map JStr xs = map JStr ys" by (simp add: strs_json_def comp_def)
  then show "xs = ys" by (simp add: inj_map_eq_map inj_def)
qed

lemma motif_inj: "sorted_keys (motif_json xs) = sorted_keys (motif_json ys) \<Longrightarrow> xs = ys"
proof -
  assume "sorted_keys (motif_json xs) = sorted_keys (motif_json ys)"
  then have "map (\<lambda>a. sorted_keys (arrow_json a)) xs = map (\<lambda>a. sorted_keys (arrow_json a)) ys"
    by (simp add: motif_json_def comp_def del: sorted_keys.simps(2))
  moreover have "inj (\<lambda>a. sorted_keys (arrow_json a))" by (rule injI) (metis arrow_read sum.inject(2))
  ultimately show "xs = ys" by (simp add: inj_map_eq_map)
qed

lemma key_json_inj: "sorted_keys (key_json k) = sorted_keys (key_json k') \<Longrightarrow> k = k'"
proof -
  assume e: "sorted_keys (key_json k) = sorted_keys (key_json k')"
  define L where "L k = [(''stressors'', sorted_keys (strs_json (k_stressors k))), (''victims'', sorted_keys (strs_json (k_victims k))),
     (''signal'', JStr (k_signal k)), (''witness_kind'', sorted_keys (opt_json (k_witness k))),
     (''motif'', sorted_keys (motif_json (k_motif k)))]" for k :: case_key
  have "sorted_keys (key_json k) = JObj (sort_key fst (L k))" for k
    unfolding key_json_def sorted_keys.simps(2) L_def by (simp only: list.map fst_conv snd_conv sorted_keys.simps)
  then have "sort_key fst (L k) = sort_key fst (L k')" using e by (simp only: json.inject)
  moreover have "distinct (map fst (L k))" for k by (simp add: L_def)
  ultimately have "map_of (L k) x = map_of (L k') x" for x by (metis map_of_sort_key)
  note m = this[of "''stressors''"] this[of "''victims''"] this[of "''signal''"] this[of "''witness_kind''"] this[of "''motif''"]
  have w: "sorted_keys (opt_json a) = sorted_keys (opt_json b) \<Longrightarrow> a = b" for a b
    by (cases a; cases b) (simp_all add: opt_json_def)
  from m have "k_stressors k = k_stressors k'" "k_victims k = k_victims k'" "k_signal k = k_signal k'"
    "k_witness k = k_witness k'" "k_motif k = k_motif k'"
    by (simp_all add: L_def strs_inj motif_inj w del: sorted_keys.simps)
  then show "k = k'" by simp
qed

subsection \<open>Properties\<close>

text \<open>
  C13. Keeping the case library as JSON text changes nothing: the similarity that the engine computes from
  the stored columns is that of the values they were written from, evidence lists are read back as they
  were, two incidents have the same key text exactly when they have the same key, so a digest of the text
  that does not collide on the keys that occur identifies them, which is what the results about the library
  rely on.
\<close>

theorem case_columns_faithful:
  "case_sim_text rf fp (encode_case sf c) = Inr (case_sim fp c) \<and>
   load_json rf (Some (dump sf (strs_json ev))) (JArr []) = strs_json ev \<and>
   (key_text sf k = key_text sf k' \<longleftrightarrow> k = k') \<and>
   (digest_ok (\<lambda>k. sha (key_text sf k)) K \<longleftrightarrow> inj_on sha (key_text sf ` K) \<and> (\<forall>k. sha (key_text sf k) \<noteq> []))"
proof -
  have key: "key_text sf k = key_text sf k' \<longleftrightarrow> k = k'" for k k'
    using json_of_text[OF key_dumpable key_dumpable] key_json_inj unfolding key_text_def by blast
  then have "inj (key_text sf)" by (simp add: inj_def)
  then have "inj_on (\<lambda>k. sha (key_text sf k)) K \<longleftrightarrow> inj_on sha (key_text sf ` K)"
    using comp_inj_on_iff[of "key_text sf" K sha] by (simp add: comp_def inj_on_subset)
  moreover have "case_sim_text rf fp (encode_case sf c) = Inr (case_sim fp c)"
    by (simp add: case_sim_text_def encode_case_def strs_read motif_read case_sim_def)
  ultimately show ?thesis using key by (simp add: strs_read digest_ok_def)
qed

end
