(* ===== verification/Settings.thy ===== *)
theory Settings
  imports Api
begin

text \<open>
  The settings of the service, the gateway and the workloads, read from the environment when the process
  starts.  An environment is a dictionary; \<open>pflt\<close> and \<open>pint\<close> are Python's \<open>float\<close> and \<open>int\<close> on strings, with
  \<open>None\<close> for their \<open>ValueError\<close>.  Negative counts (\<open>BASE_MIN_N\<close>, \<open>ANALYSIS_WINDOW\<close>) are left out.
\<close>

type_synonym env = "string pdict"

definition env_float :: "(string \<Rightarrow> real option) \<Rightarrow> env \<Rightarrow> string \<Rightarrow> string \<Rightarrow> real res" where
  "env_float pflt env k d = res_of_option ValueError (pflt (dget env k d))"

definition env_nat :: "(string \<Rightarrow> int option) \<Rightarrow> env \<Rightarrow> string \<Rightarrow> string \<Rightarrow> nat res" where
  "env_nat pint env k d = rbind (res_of_option ValueError (pint (dget env k d))) (\<lambda>i. Inr (nat i))"

text \<open>\<open>[s.strip() for s in text.split(",")]\<close>\<close>

definition comma_list :: "string \<Rightarrow> string list" where
  "comma_list s = map strip_text (split_on (CHR '','') s)"

definition mem_settings :: "(string \<Rightarrow> real option) \<Rightarrow> (string \<Rightarrow> int option) \<Rightarrow> env \<Rightarrow> mem_config res" where
  "mem_settings pflt pint env =
     rbind (env_float pflt env ''EDGE_ALPHA'' ''0.4'') (\<lambda>alpha.
     rbind (env_float pflt env ''EDGE_DECAY'' ''0.1'') (\<lambda>decay.
     rbind (env_float pflt env ''EDGE_SHOW'' ''0.6'') (\<lambda>show.
     rbind (env_float pflt env ''EDGE_HIDE'' ''0.25'') (\<lambda>hide.
     rbind (env_float pflt env ''EDGE_PRIOR'' ''0.2'') (\<lambda>prior.
     rbind (env_float pflt env ''EDGE_FLOOR_FRAC'' ''0.4'') (\<lambda>floor_frac.
     rbind (env_float pflt env ''CASE_TAU_MERGE'' ''0.85'') (\<lambda>tau_merge.
     rbind (env_float pflt env ''CASE_TAU_FAMILY'' ''0.60'') (\<lambda>tau_family.
     rbind (env_float pflt env ''BASE_ALPHA'' ''0.05'') (\<lambda>base_alpha.
     rbind (env_float pflt env ''DEV_K'' ''4.0'') (\<lambda>dev_k.
     rbind (env_float pflt env ''MAD_FLOOR'' ''0.01'') (\<lambda>mad_floor.
     rbind (env_nat pint env ''BASE_MIN_N'' ''12'') (\<lambda>base_min_n.
       Inr \<lparr>c_signal = dget env ''ENGINE_SIGNAL'' ''psi_io'', c_alpha = alpha, c_decay = decay, c_show = show,
         c_hide = hide, c_prior = prior, c_floor_frac = floor_frac, c_tau_merge = tau_merge, c_tau_family = tau_family,
         c_base_alpha = base_alpha, c_dev_k = dev_k, c_mad_floor = mad_floor, c_base_min_n = base_min_n\<rparr>))))))))))))"

definition svc_settings :: "(string \<Rightarrow> real option) \<Rightarrow> (string \<Rightarrow> int option) \<Rightarrow> env \<Rightarrow> svc_config res" where
  "svc_settings pflt pint env =
     rbind (env_float pflt env ''COPRESSURE_MIN'' ''0.10'') (\<lambda>copr.
     rbind (env_nat pint env ''ANALYSIS_WINDOW'' ''36'') (\<lambda>window.
     rbind (env_float pflt env ''POLL_S'' ''5'') (\<lambda>step.
       Inr \<lparr>v_signal = dget env ''ENGINE_SIGNAL'' ''psi_io'', v_write_signal = dget env ''WRITE_SIGNAL'' ''io_write'',
         v_copr_min = copr, v_window = window, v_step = step,
         v_storage = comma_list (dget env ''STORAGE_WORKLOADS'' ''cooling-monitor,dcim-bridge,log-archiver,timescaledb'')\<rparr>)))"

definition api_settings :: "env \<Rightarrow> api_config" where
  "api_settings env = \<lparr>ac_signal = dget env ''ENGINE_SIGNAL'' ''psi_io'',
     ac_llm = (rstrip_slash (dget env ''OLLAMA_HOST'' []) \<noteq> []), ac_model = dget env ''OLLAMA_MODEL'' ''gemma4:e4b''\<rparr>"

text \<open>\<open>os.path.join\<close> of two parts.\<close>

definition path_join :: "string \<Rightarrow> string \<Rightarrow> string" where
  "path_join a b = (if take 1 b = [slash] then b else if a = [] \<or> last a = slash then a @ b else a @ slash # b)"

text \<open>The constants of \<open>cooling-monitor\<close>, and the command line of its storm.\<close>

record fio_config =
  f_dir :: string
  f_flag :: string
  f_size :: string
  f_jobs :: string
  f_runtime :: string
  f_fsync :: string
  f_direct :: string
  f_port :: int

definition fio_settings :: "(string \<Rightarrow> int option) \<Rightarrow> env \<Rightarrow> fio_config res" where
  "fio_settings pint env = (let dir = dget env ''DATA_DIR'' ''/shared/cooling'' in
     rbind (res_of_option ValueError (pint (dget env ''TRIGGER_PORT'' ''8080''))) (\<lambda>port.
       Inr \<lparr>f_dir = dir, f_flag = path_join dir ''FLUSH'', f_size = dget env ''FIO_SIZE'' ''512m'',
         f_jobs = dget env ''FIO_JOBS'' ''4'', f_runtime = dget env ''FIO_RUNTIME'' ''45'',
         f_fsync = dget env ''FIO_FSYNC'' ''8'', f_direct = dget env ''FIO_DIRECT'' ''1'', f_port = port\<rparr>))"

definition fio_command :: "fio_config \<Rightarrow> string list" where
  "fio_command cfg = [''fio'', ''--name=thermalflush'', ''--directory='' @ f_dir cfg, ''--rw=write'', ''--bs=1M'',
     ''--size='' @ f_size cfg, ''--numjobs='' @ f_jobs cfg, ''--fsync='' @ f_fsync cfg,
     ''--direct='' @ f_direct cfg, ''--ioengine=libaio'', ''--time_based'',
     ''--runtime='' @ f_runtime cfg, ''--group_reporting'', ''--unlink=1'']"

text \<open>What the loop and the server of the engine read, and the addresses the gateway asks.\<close>

record loop_config =
  l_window_url :: string
  l_events_url :: string
  l_interval :: int
  l_port :: int
  l_memory_db :: string

definition loop_settings :: "(string \<Rightarrow> int option) \<Rightarrow> env \<Rightarrow> loop_config res" where
  "loop_settings pint env =
     rbind (res_of_option ValueError (pint (dget env ''ENGINE_INTERVAL'' ''10''))) (\<lambda>interval.
     rbind (res_of_option ValueError (pint (dget env ''ENGINE_PORT'' ''9100''))) (\<lambda>port.
       Inr \<lparr>l_window_url = dget env ''WINDOW_URL'' ''http://aggregator.aiops.svc:9000/window'',
         l_events_url = dget env ''EVENTS_URL'' ''http://aggregator.aiops.svc:9000/events'',
         l_interval = interval, l_port = port,
         l_memory_db = dget env ''MEMORY_DB'' ''/var/lib/skn/memory/l3-memory.db''\<rparr>))"

record backends =
  bk_engine :: string
  bk_agg :: string
  bk_cooling :: string

definition backend_urls :: "env \<Rightarrow> backends" where
  "backend_urls env = \<lparr>bk_engine = rstrip_slash (dget env ''ENGINE_URL'' ''http://correlation-engine.aiops.svc:9100''),
     bk_agg = rstrip_slash (dget env ''AGGREGATOR_URL'' ''http://aggregator.aiops.svc:9000''),
     bk_cooling = rstrip_slash (dget env ''COOLING_URL'' ''http://cooling-monitor.factory-data.svc:8080'')\<rparr>"

text \<open>The other workloads.  \<open>omp_threads\<close> is the environment after the batch has set \<open>OMP_NUM_THREADS\<close>.\<close>

definition burst_seconds :: "(string \<Rightarrow> int option) \<Rightarrow> env \<Rightarrow> int res" where
  "burst_seconds pint env = res_of_option ValueError (pint (dget env ''BURST_S'' ''120''))"

definition burst_threads :: "env \<Rightarrow> string" where
  "burst_threads env = dget env ''NUMPY_THREADS'' ''2''"

definition omp_threads :: "env \<Rightarrow> env" where
  "omp_threads env = AList.update ''OMP_NUM_THREADS'' (burst_threads env) env"

definition lower :: "char \<Rightarrow> char" where
  "lower c = (let n = (of_char c :: nat) in if 65 \<le> n \<and> n \<le> 90 then char_of (n + 32) else c)"

definition leak_enabled :: "env \<Rightarrow> bool" where
  "leak_enabled env \<longleftrightarrow> map lower (dget env ''LEAK_ENABLED'' ''false'') = ''true''"

definition pg_dsn :: "env \<Rightarrow> string" where
  "pg_dsn env = dget env ''PG_DSN'' ''host=timescaledb.factory-data.svc user=factory password=factory dbname=telemetry''"

definition mqtt_host :: "env \<Rightarrow> string" where
  "mqtt_host env = dget env ''MQTT_HOST'' ''mqtt-broker.factory-core.svc''"

subsection \<open>Properties\<close>

definition reads_decimals :: "(string \<Rightarrow> real option) \<Rightarrow> (string \<Rightarrow> int option) \<Rightarrow> bool" where
  "reads_decimals pflt pint \<longleftrightarrow> pflt ''0.4'' = Some (4/10) \<and> pflt ''0.1'' = Some (1/10) \<and> pflt ''0.6'' = Some (6/10) \<and>
     pflt ''0.25'' = Some (25/100) \<and> pflt ''0.2'' = Some (2/10) \<and> pflt ''0.85'' = Some (85/100) \<and> pflt ''0.60'' = Some (60/100) \<and>
     pflt ''0.05'' = Some (5/100) \<and> pflt ''4.0'' = Some 4 \<and> pflt ''0.01'' = Some (1/100) \<and> pflt ''0.10'' = Some (1/10) \<and>
     pflt ''5'' = Some 5 \<and> pint ''12'' = Some 12 \<and> pint ''36'' = Some 36"

lemma error_chain:
  assumes "rbind m g = Inl e" "m = Inl e \<Longrightarrow> P" "\<And>y. m = Inr y \<Longrightarrow> g y = Inl e \<Longrightarrow> P"
  shows P
  using assms by (cases m) auto

text \<open>
  The defaults of the programs fit together: the gateway asks the engine and the storm trigger at the ports
  on which they listen, and no address it builds on ends with a slash.
\<close>

lemma defaults_fit:
  assumes "\<And>i. pint (show_int i) = Some i"
  shows "\<exists>c f. loop_settings pint [] = Inr c \<and> fio_settings pint [] = Inr f \<and>
    bk_engine (backend_urls []) = ''http://correlation-engine.aiops.svc:'' @ show_int (l_port c) \<and>
    bk_cooling (backend_urls []) = ''http://cooling-monitor.factory-data.svc:'' @ show_int (f_port f) \<and>
    f_flag f = ''/shared/cooling/FLUSH''"
proof -
  have t: "show_int 10 = ''10''" "show_int 9100 = ''9100''" "show_int 8080 = ''8080''"
    by (simp_all add: show_int_def show_nat.simps digit_def)
  then have p: "pint ''10'' = Some 10" "pint ''9100'' = Some 9100" "pint ''8080'' = Some 8080" using assms by metis+
  have d: "dget [] k v = v" for k and v :: string by (simp add: dget_def)
  have "loop_settings pint [] = Inr \<lparr>l_window_url = ''http://aggregator.aiops.svc:9000/window'',
      l_events_url = ''http://aggregator.aiops.svc:9000/events'', l_interval = 10, l_port = 9100,
      l_memory_db = ''/var/lib/skn/memory/l3-memory.db''\<rparr>"
    by (simp add: loop_settings_def d p)
  moreover have "fio_settings pint [] = Inr \<lparr>f_dir = ''/shared/cooling'', f_flag = path_join ''/shared/cooling'' ''FLUSH'',
      f_size = ''512m'', f_jobs = ''4'', f_runtime = ''45'', f_fsync = ''8'', f_direct = ''1'', f_port = 8080\<rparr>"
    by (simp add: fio_settings_def d p Let_def)
  moreover have "path_join ''/shared/cooling'' ''FLUSH'' = ''/shared/cooling/FLUSH''" by code_simp
  moreover have "bk_engine (backend_urls []) = ''http://correlation-engine.aiops.svc:'' @ show_int 9100"
    "bk_cooling (backend_urls []) = ''http://cooling-monitor.factory-data.svc:'' @ show_int 8080"
    unfolding t by code_simp+
  ultimately show ?thesis by (intro exI conjI) (assumption | simp)+
qed

lemma backend_no_slash:
  "slash \<notin> set (take 1 (rev (bk_engine (backend_urls env)))) \<and> slash \<notin> set (take 1 (rev (bk_agg (backend_urls env)))) \<and>
   slash \<notin> set (take 1 (rev (bk_cooling (backend_urls env))))"
proof -
  have "slash \<notin> set (take 1 (rev (rstrip_slash u)))" for u
    by (induction u rule: rev_induct) (auto simp: rstrip_slash_def)
  then show ?thesis by (simp add: backend_urls_def)
qed

text \<open>
  The two sets of defaults agree: with no variable set, the service builds the very configuration that
  \<open>MemoryConfig\<close> has by default, on which the results about the default configuration rest; every error
  is a \<open>ValueError\<close>, and it occurs when a number cannot be read.
\<close>

theorem settings_default:
  assumes "reads_decimals pflt pint"
  shows "mem_settings pflt pint [] = Inr default_config \<and> svc_settings pflt pint [] = Inr default_svc \<and>
    (mem_settings pflt pint env = Inl e \<or> svc_settings pflt pint env = Inl e \<longrightarrow> e = ValueError)"
proof -
  have c: "comma_list ''cooling-monitor,dcim-bridge,log-archiver,timescaledb'' =
      [''cooling-monitor'', ''dcim-bridge'', ''log-archiver'', ''timescaledb'']" by code_simp
  have f: "env_float pflt env k d = Inl x \<Longrightarrow> x = ValueError" for k d x
    by (cases "pflt (dget env k d)") (auto simp: env_float_def)
  have n: "env_nat pint env k d = Inl x \<Longrightarrow> x = ValueError" for k d x
    by (cases "pint (dget env k d)") (auto simp: env_nat_def)
  have "mem_settings pflt pint [] = Inr default_config"
    using assms by (simp add: mem_settings_def env_float_def env_nat_def dget_def reads_decimals_def default_config_def)
  moreover have "svc_settings pflt pint [] = Inr default_svc"
    using assms by (simp add: svc_settings_def env_float_def env_nat_def dget_def reads_decimals_def default_svc_def c)
  moreover have "e = ValueError" if "mem_settings pflt pint env = Inl e"
    using that unfolding mem_settings_def by (elim error_chain f n) simp
  moreover have "e = ValueError" if "svc_settings pflt pint env = Inl e"
    using that unfolding svc_settings_def by (elim error_chain f n) simp
  ultimately show ?thesis by blast
qed

end
