(* ===== verification/Workloads.thy ===== *)
theory Workloads
  imports Machine Service Text
begin

text \<open>
  The Python workloads that keep state, as step relations: the ingest queue and its writer
  (\<open>workloads/telemetry-ingest/main.py\<close>), the frame cache (\<open>workloads/vision-qc/main.py\<close>) and the
  trigger of the storm (\<open>workloads/cooling-monitor/main.py\<close>).  A step is what happens between two
  points at which another thread can run; when the timer of the writer expires is not determined.
\<close>

subsection \<open>Telemetry ingest\<close>

text \<open>
  \<open>i_done\<close> records the batches that left the writer, with whether they were committed; \<open>i_accepted\<close> the
  messages the queue took; both are history, not state of the program.
\<close>

record 'm ingest =
  i_queue :: "'m list"
  i_conn :: bool
  i_batch :: "'m list"
  i_inserted :: nat
  i_depth :: nat
  i_done :: "(bool \<times> 'm list) list"
  i_accepted :: "'m list"

definition Q_MAX :: nat where
  "Q_MAX = 50000"

definition BATCH_MAX :: nat where
  "BATCH_MAX = 500"

definition ingest_start :: "'m ingest" where
  "ingest_start = \<lparr>i_queue = [], i_conn = False, i_batch = [], i_inserted = 0, i_depth = 0, i_done = [], i_accepted = []\<rparr>"

text \<open>\<open>on_msg\<close>; a payload that does not decode raises before the queue is touched.\<close>

definition on_msg :: "'m option \<Rightarrow> 'm ingest \<Rightarrow> 'm ingest" where
  "on_msg m s = (case m of None \<Rightarrow> s
     | Some x \<Rightarrow> if length (i_queue s) < Q_MAX then s\<lparr>i_queue := i_queue s @ [x], i_accepted := i_accepted s @ [x]\<rparr> else s)"

datatype 'm ingest_event = Message "'m option" | Connected | Take | Committed | DbError

inductive ingest_step :: "'m ingest \<Rightarrow> 'm ingest_event \<Rightarrow> 'm ingest \<Rightarrow> bool" where
  step_message: "ingest_step s (Message m) (on_msg m s)"
| step_connect: "\<not> i_conn s \<Longrightarrow> ingest_step s Connected (s\<lparr>i_conn := True\<rparr>)"
| step_take: "i_conn s \<Longrightarrow> length (i_batch s) < BATCH_MAX \<Longrightarrow> i_queue s = x # q \<Longrightarrow>
    ingest_step s Take (s\<lparr>i_queue := q, i_batch := i_batch s @ [x]\<rparr>)"
| step_commit: "i_conn s \<Longrightarrow> i_batch s \<noteq> [] \<Longrightarrow>
    ingest_step s Committed (s\<lparr>i_batch := [], i_inserted := i_inserted s + length (i_batch s), i_depth := length (i_queue s),
      i_done := i_done s @ [(True, i_batch s)]\<rparr>)"
| step_error: "ingest_step s DbError (s\<lparr>i_conn := False, i_batch := [], i_done := i_done s @ [(False, i_batch s)]\<rparr>)"

inductive_cases ingest_stepE: "ingest_step s ev s'"

definition committed_rows :: "'m ingest \<Rightarrow> 'm list" where
  "committed_rows s = concat (map snd (filter fst (i_done s)))"

definition ingest_ok :: "'m ingest \<Rightarrow> bool" where
  "ingest_ok s \<longleftrightarrow> i_accepted s = concat (map snd (i_done s)) @ i_batch s @ i_queue s \<and>
     length (i_queue s) \<le> Q_MAX \<and> length (i_batch s) \<le> BATCH_MAX \<and> i_inserted s = length (committed_rows s)"

lemma ingest_ok_step: "ingest_ok s \<Longrightarrow> ingest_step s ev s' \<Longrightarrow> ingest_ok s'"
  by (erule ingest_stepE) (auto simp: ingest_ok_def on_msg_def committed_rows_def split: option.split)

interpretation ingest: invariant_machine ingest_step ingest_ok "\<lambda>_. True"
  by unfold_locales (blast intro: ingest_ok_step)

lemma errors_done:
  "run ingest_step s evs s' \<Longrightarrow> DbError \<notin> set evs \<Longrightarrow> list_all fst (i_done s) \<Longrightarrow> list_all fst (i_done s')"
proof (induction rule: run.induct)
  case (run_step s ev s' evs s'')
  from run_step.hyps(1) run_step.prems have "list_all fst (i_done s')"
    by (cases rule: ingest_step.cases) (auto simp: on_msg_def split: option.splits if_splits)
  then show ?case using run_step by simp
qed simp

text \<open>
  What the queue should take, told from the events alone: the messages that decode, and of those the ones that
  arrive while fewer than 50000 wait, \<open>w\<close> being the number that wait.
\<close>

definition decoded :: "'m ingest_event list \<Rightarrow> 'm list" where
  "decoded evs = List.map_filter (\<lambda>e. case e of Message m \<Rightarrow> m | _ \<Rightarrow> None) evs"

fun admitted :: "nat \<Rightarrow> 'm ingest_event list \<Rightarrow> 'm list" where
  "admitted w [] = []"
| "admitted w (e # evs) = (case e of
     Message (Some x) \<Rightarrow> if w < 50000 then x # admitted (w + 1) evs else admitted w evs
   | Take \<Rightarrow> admitted (w - 1) evs
   | _ \<Rightarrow> admitted w evs)"

lemma decoded_simps [simp]: "decoded [] = []" "decoded (e # evs) = (case e of Message (Some x) \<Rightarrow> [x] | _ \<Rightarrow> []) @ decoded evs"
  by (simp_all add: decoded_def List.map_filter_simps split: ingest_event.split option.split)

lemma accepted_admitted:
  "run ingest_step s evs s' \<Longrightarrow> i_accepted s' = i_accepted s @ admitted (length (i_queue s)) evs"
proof (induction rule: run.induct)
  case (run_step s ev s' evs s'')
  from run_step.hyps(1) show ?case
    by (rule ingest_stepE) (simp_all add: run_step.IH on_msg_def Q_MAX_def split: option.split)
qed simp

lemma admitted_all: "w + length (decoded evs) \<le> 50000 \<Longrightarrow> admitted w evs = decoded evs"
  by (induction evs arbitrary: w) (auto split: ingest_event.split option.split)

subsection \<open>Frame cache\<close>

definition CACHE_BOUND :: nat where
  "CACHE_BOUND = 64"

text \<open>\<open>append\<close> on a list, and on a \<open>deque\<close> with a bound, which drops from the left.\<close>

definition cache_append :: "bool \<Rightarrow> 'f \<Rightarrow> 'f list \<Rightarrow> 'f list" where
  "cache_append leak f cache = (let c = cache @ [f] in
     if leak then c else drop (length c - CACHE_BOUND) c)"

definition frame_step :: "bool \<Rightarrow> 'f \<Rightarrow> 'f list \<times> nat \<Rightarrow> 'f list \<times> nat" where
  "frame_step leak f s = (let c = cache_append leak f (fst s) in (c, length c))"

lemma fst_frame_step: "fst (frame_step leak f s) = cache_append leak f (fst s)"
  by (simp add: frame_step_def Let_def)

lemma fold_frames:
  "fst (fold (frame_step leak) fs ([], 0)) = (if leak then fs else drop (length fs - CACHE_BOUND) fs)"
proof (induction fs rule: rev_induct)
  case (snoc f fs)
  have step: "fst (fold (frame_step leak) (fs @ [f]) ([], 0)) = cache_append leak f (fst (fold (frame_step leak) fs ([], 0)))"
    by (simp add: fst_frame_step)
  have "Suc (length fs - 64) = length fs - 63" if "64 \<le> length fs" using that by linarith
  then show ?case unfolding step snoc
    by (cases "length fs < CACHE_BOUND") (auto simp: cache_append_def Let_def not_less CACHE_BOUND_def)
qed simp

subsection \<open>The trigger of the storm\<close>

record cooling =
  cl_flag :: bool
  cl_storming :: bool
  cl_storms :: nat

datatype cooling_event = Post string | Iterate | StormEnds

text \<open>\<open>_reply\<close>: the status and the body.\<close>

definition trigger_reply :: "nat \<Rightarrow> string \<Rightarrow> nat \<times> string" where
  "trigger_reply code body = (code, body)"

definition do_POST :: "string \<Rightarrow> cooling \<Rightarrow> (nat \<times> string) \<times> cooling" where
  "do_POST path s = (if rstrip_slash path = ''/flush'' then (trigger_reply 202 (''S1 armed'' @ [newline]), s\<lparr>cl_flag := True\<rparr>)
     else (trigger_reply 404 (''not found'' @ [newline]), s))"

definition do_GET_health :: "string \<Rightarrow> nat \<times> string" where
  "do_GET_health path = (if path = ''/healthz'' then trigger_reply 200 (''ok'' @ [newline])
     else trigger_reply 404 (''not found'' @ [newline]))"

definition main_iteration :: "cooling \<Rightarrow> cooling" where
  "main_iteration s = (if cl_flag s then s\<lparr>cl_flag := False, cl_storming := True, cl_storms := cl_storms s + 1\<rparr> else s)"

inductive cooling_step :: "cooling \<Rightarrow> cooling_event \<Rightarrow> cooling \<Rightarrow> bool" where
  step_post: "cooling_step s (Post path) (snd (do_POST path s))"
| step_iterate: "\<not> cl_storming s \<Longrightarrow> cooling_step s Iterate (main_iteration s)"
| step_storm_ends: "cl_storming s \<Longrightarrow> cooling_step s StormEnds (s\<lparr>cl_storming := False\<rparr>)"

inductive_cases cooling_stepE: "cooling_step s ev s'"

definition calm :: cooling where
  "calm = \<lparr>cl_flag = False, cl_storming = False, cl_storms = 0\<rparr>"

definition armed_by :: "cooling_event \<Rightarrow> bool" where
  "armed_by ev = (case ev of Post path \<Rightarrow> rstrip_slash path = ''/flush'' | _ \<Rightarrow> False)"

definition pending :: "cooling \<Rightarrow> nat" where
  "pending s = cl_storms s + (if cl_flag s then 1 else 0)"

lemma pending_step: "cooling_step s ev s' \<Longrightarrow>
    (if armed_by ev then pending s' = pending s \<or> pending s' = pending s + 1 else pending s' = pending s) \<and>
    (armed_by ev \<longrightarrow> cl_flag s') \<and> (cl_flag s \<longrightarrow> cl_flag s' \<or> cl_storms s' = cl_storms s + 1)"
  by (erule cooling_stepE) (auto simp: pending_def armed_by_def do_POST_def main_iteration_def)

lemma storms_bounded:
  "run cooling_step s evs s' \<Longrightarrow> pending s \<le> pending s' \<and> pending s' \<le> pending s + length (filter armed_by evs)"
proof (induction rule: run.induct)
  case (run_step s ev s' evs s'')
  then show ?case using pending_step[OF run_step.hyps(1)] by (auto split: if_splits)
qed simp

lemma storms_mono: "run cooling_step s evs s' \<Longrightarrow> cl_storms s \<le> cl_storms s'"
proof (induction rule: run.induct)
  case (run_step s ev s' evs s'')
  have "cl_storms s \<le> cl_storms s'" using run_step.hyps(1)
    by (rule cooling_stepE) (auto simp: do_POST_def main_iteration_def)
  then show ?case using run_step by simp
qed simp

lemma flag_kept:
  "run cooling_step s evs s' \<Longrightarrow> cl_flag s \<Longrightarrow> cl_flag s' \<or> cl_storms s < cl_storms s'"
proof (induction rule: run.induct)
  case (run_step s ev s' evs s'')
  have "cl_flag s' \<or> cl_storms s' = cl_storms s + 1" using pending_step[OF run_step.hyps(1)] run_step.prems by blast
  moreover have "cl_storms s' \<le> cl_storms s''" by (rule storms_mono[OF run_step.hyps(2)])
  moreover have "cl_storms s \<le> cl_storms s'" using run_step.hyps(1)
    by (rule cooling_stepE) (auto simp: do_POST_def main_iteration_def)
  ultimately show ?case using run_step.IH by linarith
qed simp

subsection \<open>Connection loops\<close>

text \<open>
  The main loop of the two MQTT clients: how each iteration ended, and what it did.  \<open>Serve\<close> is
  \<open>loop_forever\<close>, which returns only after a disconnection on purpose.
\<close>

datatype mqtt_end = ConnectFailed | SubscribeFailed | LoopFailed | LoopReturned

datatype mqtt_action = Connect | Subscribe string nat | Serve | Pause nat

fun mqtt_iteration :: "string \<times> nat \<Rightarrow> nat \<Rightarrow> mqtt_end \<Rightarrow> mqtt_action list" where
  "mqtt_iteration sub delay ConnectFailed = [Connect, Pause delay]"
| "mqtt_iteration sub delay SubscribeFailed = [Connect, Subscribe (fst sub) (snd sub), Pause delay]"
| "mqtt_iteration sub delay LoopFailed = [Connect, Subscribe (fst sub) (snd sub), Serve, Pause delay]"
| "mqtt_iteration sub delay LoopReturned = [Connect, Subscribe (fst sub) (snd sub), Serve]"

definition ingest_loop :: "mqtt_end list \<Rightarrow> mqtt_action list" where
  "ingest_loop ends = concat (map (mqtt_iteration (''sensors/#'', 1) 2) ends)"

definition vision_loop :: "mqtt_end list \<Rightarrow> mqtt_action list" where
  "vision_loop ends = concat (map (mqtt_iteration (''frames/#'', 0) 5) ends)"

subsection \<open>The analytics batch\<close>

text \<open>
  The burst: \<open>now n\<close> is the \<open>n\<close>-th reading of the clock in the loop, \<open>prod_step\<close> the product with the
  transposed matrix over 1500; the result counts the products.
\<close>

partial_function (option) burst :: "(nat \<Rightarrow> real) \<Rightarrow> real \<Rightarrow> real \<Rightarrow> ('a \<Rightarrow> 'a) \<Rightarrow> nat \<Rightarrow> 'a \<Rightarrow> (nat \<times> 'a) option" where
  "burst now t0 burst_s prod_step n a =
     (if now n - t0 < burst_s then burst now t0 burst_s prod_step (n + 1) (prod_step a) else Some (n, a))"

lemma burst_some:
  "(\<And>i. n \<le> i \<Longrightarrow> i < n + k \<Longrightarrow> now i - t0 < burst_s) \<Longrightarrow> \<not> now (n + k) - t0 < burst_s \<Longrightarrow>
   burst now t0 burst_s prod_step n a = Some (n + k, (prod_step ^^ k) a)"
proof (induction k arbitrary: n a)
  case 0
  then show ?case by (simp add: burst.simps)
next
  case (Suc k)
  have "burst now t0 burst_s prod_step (n + 1) (prod_step a) = Some (n + 1 + k, (prod_step ^^ k) (prod_step a))"
    by (rule Suc.IH) (use Suc.prems in auto)
  moreover have "now n - t0 < burst_s" using Suc.prems(1)[of n] by simp
  ultimately show ?case by (simp add: burst.simps[of now t0 burst_s prod_step n a] funpow_swap1)
qed

lemma burst_late:
  assumes "burst now t0 burst_s prod_step n a = Some r"
  shows "\<not> now (fst r) - t0 < burst_s"
  by (rule burst.raw_induct[where P = "\<lambda>now t0 burst_s prod_step n a r. \<not> now (fst r) - t0 < burst_s", OF _ assms])
    (auto split: if_splits)

text \<open>
  The batch returns exactly when the clock ever passes the end of the burst, after as many products as
  there were readings before it.
\<close>

theorem burst_returns:
  "(burst now t0 burst_s prod_step 0 a \<noteq> None \<longleftrightarrow> (\<exists>n. burst_s \<le> now n - t0)) \<and>
   (\<forall>n. burst_s \<le> now n - t0 \<and> (\<forall>i < n. now i - t0 < burst_s) \<longrightarrow>
      burst now t0 burst_s prod_step 0 a = Some (n, (prod_step ^^ n) a))"
proof -
  have s: "burst now t0 burst_s prod_step 0 a = Some (n, (prod_step ^^ n) a)"
    if "burst_s \<le> now n - t0" "\<forall>i < n. now i - t0 < burst_s" for n
    using burst_some[of 0 n now t0 burst_s prod_step a] that by simp
  have "burst now t0 burst_s prod_step 0 a \<noteq> None" if "burst_s \<le> now n - t0" for n
  proof -
    let ?m = "LEAST n. burst_s \<le> now n - t0"
    have "burst_s \<le> now ?m - t0" by (rule LeastI[where P = "\<lambda>n. burst_s \<le> now n - t0"]) (rule that)
    moreover have "\<forall>i < ?m. now i - t0 < burst_s" using not_less_Least by (metis not_le)
    ultimately show ?thesis using s by blast
  qed
  moreover have "\<exists>n. burst_s \<le> now n - t0" if "burst now t0 burst_s prod_step 0 a \<noteq> None"
    using that burst_late[of now t0 burst_s prod_step 0 a] by (auto simp: not_less)
  ultimately show ?thesis using s by blast
qed

theorem burst_returns_witness: "burst (\<lambda>n. 50 * real n) 0 120 (\<lambda>x. x + (1::nat)) 0 0 = Some (3, 3)"
proof -
  have "(120::real) \<le> 50 * real 3 - 0" by simp
  moreover have "\<forall>i < 3. 50 * real i - 0 < (120::real)" by auto
  ultimately have "burst (\<lambda>n. 50 * real n) 0 120 (\<lambda>x. x + (1::nat)) 0 0 = Some (3, ((\<lambda>x. x + 1) ^^ 3) 0)"
    using burst_returns[of "\<lambda>n. 50 * real n" 0 120 "\<lambda>x. x + (1::nat)" 0] by blast
  then show ?thesis by (simp add: numeral_3_eq_3)
qed

lemma mqtt_pauses:
  "length (filter (\<lambda>x. x = Connect) (concat (map (mqtt_iteration sub delay) ends))) = length ends"
  "length (filter (\<lambda>x. x = Pause delay) (concat (map (mqtt_iteration sub delay) ends))) =
     length (filter (\<lambda>e. e \<noteq> LoopReturned) ends)"
proof -
  have "length (filter (\<lambda>x. x = Connect) (mqtt_iteration sub delay e)) = 1"
    "length (filter (\<lambda>x. x = Pause delay) (mqtt_iteration sub delay e)) = (if e = LoopReturned then 0 else 1)" for e
    by (cases e; simp)+
  then show "length (filter (\<lambda>x. x = Connect) (concat (map (mqtt_iteration sub delay) ends))) = length ends"
    "length (filter (\<lambda>x. x = Pause delay) (concat (map (mqtt_iteration sub delay) ends))) =
      length (filter (\<lambda>e. e \<noteq> LoopReturned) ends)"
    by (induction ends) simp_all
qed

text \<open>A client that fails connects again: every iteration connects once, and pauses exactly if it failed.\<close>

theorem clients_reconnect:
  "length (filter (\<lambda>x. x = Connect) (ingest_loop ends)) = length ends \<and>
   length (filter (\<lambda>x. x = Pause 2) (ingest_loop ends)) = length (filter (\<lambda>e. e \<noteq> LoopReturned) ends) \<and>
   length (filter (\<lambda>x. x = Connect) (vision_loop ends)) = length ends \<and>
   length (filter (\<lambda>x. x = Pause 5) (vision_loop ends)) = length (filter (\<lambda>e. e \<noteq> LoopReturned) ends)"
  by (simp add: ingest_loop_def vision_loop_def mqtt_pauses)

subsection \<open>Properties\<close>

text \<open>
  C30. The ingest neither reorders nor duplicates, and drops only what it must: over every interleaving of
  messages, takes, commits and database errors, exactly those messages are accepted that decode while fewer
  than 50000 are waiting, so all that decode when there are no more than that; the accepted messages are, in
  order, those of the finished batches, of the batch in hand and of the queue; the queue and the batch stay
  within their limits, the counter is the number of committed rows, and without a database error nothing
  accepted is lost.
\<close>

theorem ingest_conserves:
  assumes "run ingest_step ingest_start evs s"
  shows "i_accepted s = admitted 0 evs \<and> (50000 < length (decoded evs) \<or> i_accepted s = decoded evs) \<and>
    i_accepted s = concat (map snd (i_done s)) @ i_batch s @ i_queue s \<and>
    length (i_queue s) \<le> 50000 \<and> length (i_batch s) \<le> 500 \<and> i_inserted s = length (committed_rows s) \<and>
    (DbError \<in> set evs \<or> i_accepted s = committed_rows s @ i_batch s @ i_queue s)"
proof -
  have "ingest_ok s" by (rule ingest.run_inv[OF assms]) (simp_all add: ingest_start_def ingest_ok_def committed_rows_def)
  moreover have "committed_rows s = concat (map snd (i_done s))" if "DbError \<notin> set evs"
    using errors_done[OF assms that] by (simp add: ingest_start_def committed_rows_def list_all_iff)
  moreover have "i_accepted s = admitted 0 evs" using accepted_admitted[OF assms] by (simp add: ingest_start_def)
  moreover have "50000 < length (decoded evs) \<or> admitted 0 evs = decoded evs"
    using admitted_all[of 0 evs] by (cases "length (decoded evs) \<le> 50000") simp_all
  ultimately show ?thesis by (cases "DbError \<in> set evs") (simp_all add: ingest_ok_def Q_MAX_def BATCH_MAX_def)
qed

text \<open>
  A database error loses rows: there is a run in which a message was accepted, the writer has
  reconnected, queue and batch are empty, and the message was never written.
\<close>

theorem db_error_loses_batch:
  "\<exists>s. run ingest_step ingest_start [Message (Some ''m''), Connected, Take, DbError, Connected] s \<and>
     i_accepted s = [''m''] \<and> i_conn s \<and> i_queue s = [] \<and> i_batch s = [] \<and> committed_rows s = []"
proof -
  let ?s1 = "on_msg (Some ''m'') ingest_start"
  let ?s2 = "?s1\<lparr>i_conn := True\<rparr>"
  let ?s3 = "?s2\<lparr>i_queue := [], i_batch := i_batch ?s2 @ [''m'']\<rparr>"
  let ?s4 = "?s3\<lparr>i_conn := False, i_batch := [], i_done := i_done ?s3 @ [(False, i_batch ?s3)]\<rparr>"
  let ?s5 = "?s4\<lparr>i_conn := True\<rparr>"
  have q: "i_queue ?s2 = ''m'' # []" "length (i_batch ?s2) < BATCH_MAX" "\<not> i_conn ?s1"
    by (simp_all add: on_msg_def ingest_start_def Q_MAX_def BATCH_MAX_def)
  have t: "ingest_step ?s2 Take ?s3" by (rule step_take[OF _ q(2,1)]) simp
  have r: "run ingest_step ingest_start [Message (Some ''m''), Connected, Take, DbError, Connected] ?s5"
    by (rule run_step, rule step_message, rule run_step, rule step_connect[OF q(3)], rule run_step, rule t,
        rule run_step, rule step_error, rule run_step, rule step_connect, simp, rule run_refl)
  have e: "i_accepted ?s5 = [''m''] \<and> i_conn ?s5 \<and> i_queue ?s5 = [] \<and> i_batch ?s5 = [] \<and> committed_rows ?s5 = []"
    by (simp add: on_msg_def ingest_start_def Q_MAX_def committed_rows_def)
  show ?thesis by (rule exI[of _ ?s5], rule conjI[OF r e])
qed

text \<open>
  The frame cache holds exactly the last 64 frames, and with the leak enabled all of them; after at
  least one frame the gauge shows how many it holds.
\<close>

theorem frame_cache_exact:
  "fold (frame_step leak) (fs @ [f]) ([], 0) =
     (let c = (if leak then fs @ [f] else drop (length fs + 1 - 64) (fs @ [f])) in (c, length c))"
proof -
  have "snd (fold (frame_step leak) (fs @ [f]) ([], 0)) = length (fst (fold (frame_step leak) (fs @ [f]) ([], 0)))"
    by (simp add: frame_step_def Let_def)
  then show ?thesis using fold_frames[of leak "fs @ [f]"]
    by (simp add: prod_eq_iff Let_def CACHE_BOUND_def del: fold_append)
qed

text \<open>
  Storms are triggered, and triggers are not lost: over every interleaving there are at most as many
  storms as posts to \<open>/flush\<close>; and when such a post has been answered, by the time the flag is down
  again at least one more storm has started.
\<close>

theorem storms_are_triggered:
  assumes "run cooling_step calm evs s" and "cooling_step s (Post path) s'" and "rstrip_slash path = ''/flush''"
    and "run cooling_step s' evs' s''"
  shows "cl_storms s \<le> length (filter armed_by evs) \<and> (cl_flag s'' \<or> cl_storms s < cl_storms s'')"
proof -
  have "pending s \<le> length (filter armed_by evs)" using storms_bounded[OF assms(1)] by (simp add: calm_def pending_def)
  then have "cl_storms s \<le> length (filter armed_by evs)" by (simp add: pending_def)
  moreover have "cl_flag s' \<and> cl_storms s' = cl_storms s"
    using assms(2,3) by (auto elim: cooling_stepE simp: do_POST_def)
  then have "cl_flag s'' \<or> cl_storms s < cl_storms s''" using flag_kept[OF assms(4)] by simp
  ultimately show ?thesis by blast
qed

theorem ingest_conserves_witness:
  "\<exists>s. run ingest_step ingest_start [Message (Some ''m''), Message None, Connected, Take, Committed, Message (Some ''n'')] s \<and>
     i_accepted s = [''m'', ''n''] \<and> committed_rows s @ i_batch s @ i_queue s = [''m'', ''n'']"
proof -
  let ?evs = "[Message (Some ''m''), Message None, Connected, Take, Committed, Message (Some ''n'')]"
  let ?s1 = "on_msg (Some ''m'') ingest_start" let ?s2 = "on_msg None ?s1" let ?s3 = "?s2\<lparr>i_conn := True\<rparr>"
  let ?s4 = "?s3\<lparr>i_queue := [], i_batch := i_batch ?s3 @ [''m'']\<rparr>"
  have q: "i_queue ?s3 = ''m'' # []" "length (i_batch ?s3) < BATCH_MAX" "\<not> i_conn ?s2" "i_conn ?s4" "i_batch ?s4 \<noteq> []"
    by (simp_all add: on_msg_def ingest_start_def Q_MAX_def BATCH_MAX_def)
  have t: "ingest_step ?s3 Take ?s4" by (rule step_take[OF _ q(2,1)]) simp
  obtain s where r: "run ingest_step ingest_start ?evs s"
    by (rule that, rule run_step, rule step_message, rule run_step, rule step_message, rule run_step, rule step_connect[OF q(3)],
        rule run_step, rule t, rule run_step, rule step_commit[OF q(4,5)], rule run_step, rule step_message, rule run_refl)
  from ingest_conserves[OF r] have "i_accepted s = [''m'', ''n'']" "i_accepted s = committed_rows s @ i_batch s @ i_queue s" by auto
  with r show ?thesis by (intro exI conjI) simp_all
qed

theorem storms_are_triggered_witness:
  "cl_storms calm < cl_storms (main_iteration (snd (do_POST ''/flush/'' calm)))"
proof -
  have f: "rstrip_slash ''/flush/'' = ''/flush''" by (simp add: rstrip_slash_def slash_def)
  have a: "run cooling_step calm [] calm" by simp
  have b: "cooling_step calm (Post ''/flush/'') (snd (do_POST ''/flush/'' calm))" by (rule step_post)
  have h: "\<not> cl_storming (snd (do_POST ''/flush/'' calm))" by (simp add: do_POST_def calm_def)
  have "run cooling_step (snd (do_POST ''/flush/'' calm)) [Iterate] (main_iteration (snd (do_POST ''/flush/'' calm)))"
    by (rule run_step, rule step_iterate, rule h, rule run_refl)
  from storms_are_triggered[OF a b f this] show ?thesis by (auto simp: main_iteration_def split: if_splits)
qed

end
