(* ===== verification/Jobs.thy ===== *)
theory Jobs
  imports Workloads Settings Stamps "HOL-Library.Word"
begin

text \<open>
  The Python workloads run to their end or for one iteration, with everything they print, write and start:
  one iteration of \<open>cooling-monitor\<close>, the roll-up and the burst of \<open>analytics-batch\<close>, the frames of
  \<open>vision-qc\<close> decoded at their width.  Readings of the clock, the answer of the database and the bytes of
  \<open>os.urandom\<close> are arguments, as is \<open>fl\<close>, the text of a float.
\<close>

datatype effect = Say string | Append string string | Sync string | Remove string | Exec "string list" | Pause_s nat

subsection \<open>The iteration of the cooling monitor\<close>

text \<open>\<open>x % 7\<close> and \<open>f"{x:.2f}"\<close> on floats that are not negative.\<close>

definition fmod7 :: "real \<Rightarrow> real" where
  "fmod7 x = x - 7 * of_int \<lfloor>x / 7\<rfloor>"

definition fixed2 :: "real \<Rightarrow> string" where
  "fixed2 x = (let n = nat (py_round (x * 100)) in show_nat (n div 100) @ ''.'' @ pad 2 (n mod 100))"

definition journal_line :: "(real \<Rightarrow> string) \<Rightarrow> real \<Rightarrow> real \<Rightarrow> string" where
  "journal_line fl t1 t2 = fl t1 @ '' zone=A temp='' @ fixed2 (42 + fmod7 t2) @ [newline]"

definition journal :: "(real \<Rightarrow> string) \<Rightarrow> real \<Rightarrow> real \<Rightarrow> string" where
  "journal fl t1 t2 = concat (replicate 800 (journal_line fl t1 t2))"

definition trigger_banner :: "fio_config \<Rightarrow> string" where
  "trigger_banner cfg = ''S1 TRIGGER: sustained fio ('' @ f_jobs cfg @ ''x'' @ f_size cfg @ '', '' @ f_runtime cfg @
     ''s, fsync='' @ f_fsync cfg @ '', direct='' @ f_direct cfg @ '')''"

definition start_banner :: "fio_config \<Rightarrow> string" where
  "start_banner cfg = ''cooling-monitor up; flush flag='' @ f_flag cfg @ ''; trigger POST :'' @ show_int (f_port cfg) @ ''/flush''"

text \<open>\<open>flag\<close>: whether \<open>FLUSH_FLAG\<close> exists when the iteration looks.\<close>

definition cooling_iteration :: "fio_config \<Rightarrow> (real \<Rightarrow> string) \<Rightarrow> real \<Rightarrow> real \<Rightarrow> bool \<Rightarrow> effect list" where
  "cooling_iteration cfg fl t1 t2 flag = (let log = path_join (f_dir cfg) ''thermal.log'' in
     [Append log (journal fl t1 t2), Sync log] @
     (if flag then [Remove (f_flag cfg), Say (trigger_banner cfg), Exec (fio_command cfg), Say ''S1 flush complete''] else []) @
     [Pause_s 1])"

subsection \<open>The analytics batch\<close>

text \<open>\<open>db\<close> is what the query gave: the text of the row, or of the exception.\<close>

definition rollup :: "string + string \<Rightarrow> string" where
  "rollup db = (case db of Inr row \<Rightarrow> ''rollup: '' @ row | Inl e \<Rightarrow> ''db rollup skipped: '' @ e)"

definition burst_banner :: "string \<Rightarrow> int \<Rightarrow> string" where
  "burst_banner threads secs = ''KPI burst: ~'' @ threads @ '' cores for '' @ show_int secs @ ''s under the 500m limit''"

text \<open>
  The whole batch, from the environment to what it printed and the number of products: an error of the settings,
  or \<open>None\<close> if it never ends.  \<open>now 0\<close> is the reading before the loop.
\<close>

definition batch_main :: "(string \<Rightarrow> int option) \<Rightarrow> env \<Rightarrow> string + string \<Rightarrow> (nat \<Rightarrow> real) \<Rightarrow> ('a \<Rightarrow> 'a) \<Rightarrow> 'a \<Rightarrow>
    (string list \<times> nat) option res" where
  "batch_main pint env db now prod_step a =
     rbind (burst_seconds pint env) (\<lambda>secs.
       Inr (case burst (\<lambda>n. now (n + 1)) (now 0) (of_int secs) prod_step 0 a of None \<Rightarrow> None
         | Some (n, _) \<Rightarrow> Some ([rollup db, burst_banner (burst_threads env) secs, ''burst done''], n)))"

subsection \<open>Frames at their width\<close>

type_synonym frame = "8 word list list"

text \<open>\<open>np.frombuffer(..., dtype=np.uint8).reshape(480, 640)\<close>\<close>

definition decode_frame :: "8 word list \<Rightarrow> frame" where
  "decode_frame bytes = map (\<lambda>i. take 640 (drop (640 * i) bytes)) [0..<480]"

text \<open>\<open>np.abs\<close> of the difference of two pixels as \<open>int16\<close>, which wraps.\<close>

definition diff16 :: "8 word \<Rightarrow> 8 word \<Rightarrow> 16 word" where
  "diff16 a b = ucast b - ucast a"

definition abs16 :: "16 word \<Rightarrow> 16 word" where
  "abs16 w = (if sint w < 0 then - w else w)"

definition row_diffs :: "8 word list \<times> 8 word list \<Rightarrow> int list" where
  "row_diffs rows = map (\<lambda>(a, b). sint (abs16 (diff16 a b))) (zip (fst rows) (snd rows))"

definition edge_mean :: "frame \<Rightarrow> real" where
  "edge_mean f = (let ds = concat (map row_diffs (zip f (tl f))) in of_int (sum_list ds) / real (length ds))"

text \<open>\<open>on_msg\<close>: the cache, the gauge and what is printed; and the feed after the given frames.\<close>

definition on_frame :: "(real \<Rightarrow> string) \<Rightarrow> bool \<Rightarrow> 8 word list \<Rightarrow> (frame list \<times> nat) \<times> string list \<Rightarrow> (frame list \<times> nat) \<times> string list" where
  "on_frame fl leak bytes s = (let f = decode_frame bytes; e = edge_mean f in
     (frame_step leak f (fst s), if e > 200 then snd s @ [''defect! '' @ fl e] else snd s))"

definition synthetic_feed :: "(real \<Rightarrow> string) \<Rightarrow> bool \<Rightarrow> 8 word list list \<Rightarrow> (frame list \<times> nat) \<times> string list" where
  "synthetic_feed fl leak bs = fold (on_frame fl leak) bs (([], 0), [])"

definition held_bytes :: "frame list \<Rightarrow> nat" where
  "held_bytes fs = sum_list (map (\<lambda>f. sum_list (map length f)) fs)"

subsection \<open>The journal\<close>

lemma fmod7_range: "0 \<le> fmod7 x \<and> fmod7 x < 7"
proof -
  have "of_int \<lfloor>x / 7\<rfloor> \<le> x / 7" "x / 7 < of_int \<lfloor>x / 7\<rfloor> + 1" by linarith+
  then show ?thesis unfolding fmod7_def by linarith
qed

lemma py_round_between: "of_int a \<le> x \<Longrightarrow> x \<le> of_int b \<Longrightarrow> a \<le> py_round x \<and> py_round x \<le> b"
  using py_round_mono[of "of_int a" x] py_round_mono[of x "of_int b"] by simp

text \<open>The temperature of the journal: two digits, from 42.00 to 49.00.\<close>

lemma journal_temperature:
  obtains q r where "fixed2 (42 + fmod7 t) = show_nat q @ ''.'' @ pad 2 r" "42 \<le> q" "q \<le> 49" "r < 100"
proof
  let ?n = "nat (py_round ((42 + fmod7 t) * 100))"
  have "4200 \<le> py_round ((42 + fmod7 t) * 100) \<and> py_round ((42 + fmod7 t) * 100) \<le> 4900"
    by (rule py_round_between) (use fmod7_range[of t] in simp_all)
  then have "4200 \<le> ?n" "?n \<le> 4900" by linarith+
  then show "42 \<le> ?n div 100" "?n div 100 \<le> 49" by (simp_all add: div_le_mono less_eq_div_iff_mult_less_eq)
  show "fixed2 (42 + fmod7 t) = show_nat (?n div 100) @ ''.'' @ pad 2 (?n mod 100)" by (simp add: fixed2_def Let_def)
  show "?n mod 100 < 100" by simp
qed

lemma length_show_nat2: "10 \<le> q \<Longrightarrow> q < 100 \<Longrightarrow> length (show_nat q) = 2"
  by (simp add: show_nat.simps[of q] show_nat.simps[of "q div 10"])

lemma length_journal_line: "length (journal_line fl t1 t2) = length (fl t1) + 19"
proof -
  obtain q r where f: "fixed2 (42 + fmod7 t2) = show_nat q @ ''.'' @ pad 2 r" and q: "42 \<le> q" "q \<le> 49"
    using journal_temperature by blast
  have "length (show_nat q) = 2" using q by (intro length_show_nat2) simp_all
  then show ?thesis by (simp add: journal_line_def f)
qed

lemma length_replicated: "length (concat (replicate n xs)) = n * length xs"
  by (induction n) simp_all

text \<open>
  What an iteration writes: 800 lines of nineteen characters and the text of the time, under 30 KB for the at
  most eighteen characters of a float of this size, where the header of the program speaks of 64 KB.
\<close>

theorem journal_size:
  "length (journal fl t1 t2) = 800 * (length (fl t1) + 19) \<and>
   (length (fl t1) \<le> 18 \<longrightarrow> length (journal fl t1 t2) \<le> 29600)"
  by (simp add: journal_def length_replicated length_journal_line)

text \<open>
  The effects of an iteration against the step of the model of triggers: exactly one storm is started if the
  flag is up and none otherwise, and the flag is removed before it starts, so that a later post arms the next.
\<close>

theorem iteration_refines:
  "length (filter (\<lambda>x. x = Exec (fio_command cfg)) (cooling_iteration cfg fl t1 t2 (cl_flag s))) =
     cl_storms (main_iteration s) - cl_storms s \<and>
   takeWhile (\<lambda>x. x \<noteq> Remove (f_flag cfg)) (cooling_iteration cfg fl t1 t2 (cl_flag s)) =
     [Append (path_join (f_dir cfg) ''thermal.log'') (journal fl t1 t2), Sync (path_join (f_dir cfg) ''thermal.log'')] @
     (if cl_flag s then [] else [Pause_s 1]) \<and>
   \<not> cl_flag (main_iteration s)"
  by (simp add: cooling_iteration_def main_iteration_def Let_def)

subsection \<open>The batch\<close>

text \<open>
  The batch ends exactly if the clock ever passes the end of the burst; a failure of the database is printed
  and changes neither that nor the burst; the only error is an unreadable \<open>BURST_S\<close>, before the roll-up.
\<close>

theorem batch_ends:
  assumes "burst_seconds pint env = Inr secs"
  shows "(batch_main pint env db now prod_step a \<noteq> Inr None \<longleftrightarrow> (\<exists>n. of_int secs \<le> now (n + 1) - now 0)) \<and>
    (batch_main pint env db now prod_step a = Inr (Some r) \<longrightarrow>
       fst r = [rollup db, burst_banner (burst_threads env) secs, ''burst done''] \<and>
       of_int secs \<le> now (snd r + 1) - now 0 \<and>
       batch_main pint env db' now prod_step a = Inr (Some (rollup db' # tl (fst r), snd r)))"
proof -
  have e: "burst (\<lambda>n. now (n + 1)) (now 0) (of_int secs) prod_step 0 a \<noteq> None \<longleftrightarrow>
      (\<exists>n. of_int secs \<le> now (n + 1) - now 0)"
    using burst_returns[of "\<lambda>n. now (n + 1)" "now 0" "of_int secs" prod_step a] by (rule conjunct1)
  show ?thesis
  proof (cases "burst (\<lambda>n. now (n + 1)) (now 0) (of_int secs) prod_step 0 a")
    case None
    then show ?thesis using e by (simp add: batch_main_def assms)
  next
    case (Some p)
    have "\<not> now (fst p + 1) - now 0 < of_int secs" by (rule burst_late[OF Some])
    then show ?thesis using e Some by (cases p) (auto simp: batch_main_def assms)
  qed
qed

subsection \<open>Frames\<close>

lemma sint_small: "- 32768 \<le> k \<Longrightarrow> k < 32768 \<Longrightarrow> sint (word_of_int k :: 16 word) = k"
  by (simp add: sint_sbintrunc' signed_take_bit_int_eq_self)

text \<open>The difference of two pixels does not wrap in sixteen bits.\<close>

lemma abs_diff16: "sint (abs16 (diff16 a b)) = \<bar>uint b - uint a\<bar>"
proof -
  have r: "0 \<le> uint a" "uint a < 256" "0 \<le> uint b" "uint b < 256"
    using uint_range_size[of a] uint_range_size[of b] by (simp_all add: word_size)
  have d: "diff16 a b = word_of_int (uint b - uint a)" by (simp add: diff16_def)
  have s: "sint (diff16 a b) = uint b - uint a" unfolding d by (rule sint_small) (use r in linarith)+
  have "- diff16 a b = word_of_int (uint a - uint b)" by (simp add: d)
  moreover have "sint (word_of_int (uint a - uint b) :: 16 word) = uint a - uint b" by (rule sint_small) (use r in linarith)+
  ultimately have "sint (- diff16 a b) = uint a - uint b" by simp
  then show ?thesis using s by (simp add: abs16_def)
qed

lemma concat_chunks: "concat (map (\<lambda>i. map g [w * i..<w * i + w]) [0..<n]) = map g [0..<w * n]"
proof (induction n)
  case (Suc n)
  have "[0..<w * n + w] = [0..<w * n] @ [w * n..<w * n + w]" by (rule upt_add_eq_append) simp
  then show ?case using Suc by (simp add: add.commute)
qed simp

definition pixel_diff :: "8 word list \<Rightarrow> nat \<Rightarrow> int" where
  "pixel_diff bytes k = \<bar>uint (bytes ! (k + 640)) - uint (bytes ! k)\<bar>"

lemma row_diffs_decoded:
  assumes "640 * (i + 2) \<le> length bytes"
  shows "row_diffs (take 640 (drop (640 * i) bytes), take 640 (drop (640 * Suc i) bytes)) =
    map (pixel_diff bytes) [640 * i..<640 * i + 640]"
proof (rule nth_equalityI)
  show "length (row_diffs (take 640 (drop (640 * i) bytes), take 640 (drop (640 * Suc i) bytes))) =
      length (map (pixel_diff bytes) [640 * i..<640 * i + 640])" using assms by (simp add: row_diffs_def)
next
  fix j assume "j < length (row_diffs (take 640 (drop (640 * i) bytes), take 640 (drop (640 * Suc i) bytes)))"
  then have "j < 640" by (simp add: row_diffs_def)
  then show "row_diffs (take 640 (drop (640 * i) bytes), take 640 (drop (640 * Suc i) bytes)) ! j =
      map (pixel_diff bytes) [640 * i..<640 * i + 640] ! j"
    using assms by (simp add: row_diffs_def pixel_diff_def abs_diff16 add_ac)
qed

lemma zip_rows: "zip (map f [0..<Suc n]) (tl (map f [0..<Suc n])) = map (\<lambda>i. (f i, f (Suc i))) [0..<n]"
  by (rule nth_equalityI) (simp_all add: nth_tl del: upt_Suc)

text \<open>The mean over a decoded frame, on the bytes: each against the byte one row further.\<close>

definition byte_mean :: "8 word list \<Rightarrow> real" where
  "byte_mean bytes = of_int (\<Sum>k < 640 * 479. pixel_diff bytes k) / (640 * 479)"

lemma edge_mean_decoded:
  assumes "length bytes = 640 * 480"
  shows "edge_mean (decode_frame bytes) = byte_mean bytes"
proof -
  let ?row = "\<lambda>i. take 640 (drop (640 * i) bytes)"
  have n: "480 = Suc 479" by simp
  have "concat (map row_diffs (zip (decode_frame bytes) (tl (decode_frame bytes)))) =
      concat (map (\<lambda>i. row_diffs (?row i, ?row (Suc i))) [0..<479])"
    unfolding decode_frame_def n zip_rows by (simp add: comp_def)
  also have "\<dots> = concat (map (\<lambda>i. map (pixel_diff bytes) [640 * i..<640 * i + 640]) [0..<479])"
    by (intro arg_cong[where f = concat] map_cong refl row_diffs_decoded) (use assms in auto)
  also have "\<dots> = map (pixel_diff bytes) [0..<640 * 479]" by (rule concat_chunks)
  finally have c: "concat (map row_diffs (zip (decode_frame bytes) (tl (decode_frame bytes)))) =
      map (pixel_diff bytes) [0..<640 * 479]" .
  have "sum_list (map (pixel_diff bytes) [0..<640 * 479]) = (\<Sum>k < 640 * 479. pixel_diff bytes k)"
    by (simp add: interv_sum_list_conv_sum_set_nat atLeast0LessThan)
  then show ?thesis unfolding edge_mean_def Let_def c byte_mean_def by simp
qed

lemma held_decoded: "length bytes = 640 * 480 \<Longrightarrow> sum_list (map length (decode_frame bytes)) = 640 * 480"
proof -
  assume l: "length bytes = 640 * 480"
  have "map length (decode_frame bytes) = replicate 480 640"
    by (rule nth_equalityI) (use l in \<open>simp_all add: decode_frame_def\<close>)
  then show ?thesis by (simp add: sum_list_replicate)
qed

lemma feed_parts:
  "fst (synthetic_feed fl leak bs) = fold (frame_step leak) (map decode_frame bs) ([], 0)"
  "snd (synthetic_feed fl leak bs) =
     map (\<lambda>b. ''defect! '' @ fl (edge_mean (decode_frame b))) (filter (\<lambda>b. edge_mean (decode_frame b) > 200) bs)"
  unfolding synthetic_feed_def by (induction bs rule: rev_induct) (simp_all add: on_frame_def Let_def)

lemma held_total: "list_all (\<lambda>b. length b = 640 * 480) bs \<Longrightarrow> held_bytes (map decode_frame bs) = 307200 * length bs"
  by (induction bs) (simp_all add: held_bytes_def held_decoded)

subsection \<open>Properties\<close>

text \<open>
  C31. The memory of the frame feed: with the leak the cache holds 307200 bytes for every frame and passes the
  limit of 512 MiB exactly from frame 1748 on, after 88 seconds at 20 frames a second; without it the cache never
  holds more than 64 frames.  The sixteen-bit difference of two pixels never wraps, so that a frame is reported
  exactly if the mean distance of a byte to the byte one row further is above 200.
\<close>

theorem vision_memory:
  assumes "list_all (\<lambda>b. length b = 640 * 480) bs"
  shows "held_bytes (fst (fst (synthetic_feed fl leak bs))) = 307200 * (if leak then length bs else min (length bs) 64) \<and>
    (512 * 2 ^ 20 < held_bytes (fst (fst (synthetic_feed fl leak bs))) \<longleftrightarrow> leak \<and> 1748 \<le> length bs) \<and>
    snd (synthetic_feed fl leak bs) = map (\<lambda>b. ''defect! '' @ fl (byte_mean b)) (filter (\<lambda>b. byte_mean b > 200) bs)"
proof -
  have m: "edge_mean (decode_frame b) = byte_mean b" if "b \<in> set bs" for b
    using that assms by (intro edge_mean_decoded) (auto simp: list_all_iff)
  have "snd (synthetic_feed fl leak bs) = map (\<lambda>b. ''defect! '' @ fl (byte_mean b)) (filter (\<lambda>b. byte_mean b > 200) bs)"
    unfolding feed_parts by (intro map_cong filter_cong refl) (use m in auto)
  moreover have h: "held_bytes (fst (fst (synthetic_feed fl leak bs))) = 307200 * (if leak then length bs else min (length bs) 64)"
  proof -
    let ?kept = "if leak then bs else drop (length bs - 64) bs"
    have "fst (fst (synthetic_feed fl leak bs)) = map decode_frame ?kept"
      by (simp add: feed_parts fold_frames CACHE_BOUND_def drop_map)
    moreover have "list_all (\<lambda>b. length b = 640 * 480) ?kept" using assms by (auto simp: list_all_iff dest: in_set_dropD)
    ultimately show ?thesis using held_total[of ?kept] by (simp add: min_def)
  qed
  ultimately show ?thesis by auto
qed

theorem vision_memory_witness:
  "held_bytes (fst (fst (synthetic_feed (\<lambda>_. []) True (replicate 2000 (replicate 307200 0))))) = 614400000"
proof -
  have "list_all (\<lambda>b. length b = 640 * 480) (replicate 2000 (replicate 307200 (0 :: 8 word)))" by (simp add: list_all_iff)
  from vision_memory[OF this, of "\<lambda>_. []" True] show ?thesis by simp
qed

end
