(* ===== verification/Plant.thy ===== *)
theory Plant
  imports Machine
begin

text \<open>
  Two programs of the plant that the engine watches, for their own logic: the safety interlock
  (\<open>workloads/safety-interlock/main.go\<close>), which watches the heartbeat of the control relay, and the alert
  dispatcher (\<open>workloads/alert-dispatcher/index.js\<close>) with its retries.  Clock readings and the outcomes of
  requests are arguments.
\<close>

subsection \<open>The safety interlock\<close>

text \<open>
  \<open>il_phase\<close> is where the watcher stands inside one evaluation of its condition: it has loaded a heartbeat
  that is too old, or has found the flag down as well and not stored it yet.  \<open>il_beat\<close>: the handler has
  stored the time of a heartbeat and not cleared the flag yet.
\<close>

datatype watch_phase = Idle | Late | Decided

record interlock =
  il_last :: int
  il_tripped :: bool
  il_phase :: watch_phase
  il_beat :: bool

datatype interlock_event = BeatStored int | BeatCleared | LastLoaded int | FlagLoaded | Tripped

text \<open>The atomic operations of the two goroutines, each of them one load or store; the clock is in milliseconds.\<close>

inductive interlock_step :: "interlock \<Rightarrow> interlock_event \<Rightarrow> interlock \<Rightarrow> bool" where
  beat_stored: "\<not> il_beat s \<Longrightarrow> interlock_step s (BeatStored now) (s\<lparr>il_last := now, il_beat := True\<rparr>)"
| beat_cleared: "il_beat s \<Longrightarrow> interlock_step s BeatCleared (s\<lparr>il_tripped := False, il_beat := False\<rparr>)"
| last_loaded: "il_phase s = Idle \<Longrightarrow>
    interlock_step s (LastLoaded now) (s\<lparr>il_phase := (if now - il_last s > 3000 then Late else Idle)\<rparr>)"
| flag_loaded: "il_phase s = Late \<Longrightarrow>
    interlock_step s FlagLoaded (s\<lparr>il_phase := (if \<not> il_tripped s then Decided else Idle)\<rparr>)"
| tripped: "il_phase s = Decided \<Longrightarrow> interlock_step s Tripped (s\<lparr>il_tripped := True, il_phase := Idle\<rparr>)"

definition interlock_start :: "int \<Rightarrow> interlock" where
  "interlock_start now = \<lparr>il_last = now, il_tripped = False, il_phase = Idle, il_beat = False\<rparr>"


subsection \<open>When the interlock is in safe mode\<close>

text \<open>The heartbeat that a history has stored last, and a load that finds it more than three seconds old.\<close>

definition last_stored :: "int \<Rightarrow> interlock_event list \<Rightarrow> int" where
  "last_stored t0 evs = fold (\<lambda>e b. case e of BeatStored now \<Rightarrow> now | _ \<Rightarrow> b) evs t0"




lemma last_stored_simps [simp]:
  "last_stored t0 [] = t0"
  "last_stored t0 (evs @ [e]) = (case e of BeatStored now \<Rightarrow> now | _ \<Rightarrow> last_stored t0 evs)"
  by (simp_all add: last_stored_def split: interlock_event.split)










text \<open>
  The two goroutines are not synchronised: when a heartbeat arrives between the load of the watcher and
  its store, the interlock goes to safe mode although the last heartbeat is fresh, and stays there until
  the next one.
\<close>

theorem interlock_race:
  "\<exists>s. run interlock_step (interlock_start 0)
       [LastLoaded 3001, FlagLoaded, BeatStored 3002, BeatCleared, Tripped, LastLoaded 3003] s \<and>
     il_phase s = Idle \<and> \<not> il_beat s \<and> il_tripped s \<and> il_last s = 3002"
proof -
  let ?s0 = "interlock_start 0"
  let ?s1 = "?s0\<lparr>il_phase := Late\<rparr>" let ?s2 = "?s1\<lparr>il_phase := Decided\<rparr>"
  let ?s3 = "?s2\<lparr>il_last := 3002, il_beat := True\<rparr>" let ?s4 = "?s3\<lparr>il_tripped := False, il_beat := False\<rparr>"
  let ?s5 = "?s4\<lparr>il_tripped := True, il_phase := Idle\<rparr>"
  have "interlock_step ?s0 (LastLoaded 3001) ?s1" using last_loaded[of ?s0 3001] by (simp add: interlock_start_def)
  moreover have "interlock_step ?s1 FlagLoaded ?s2" using flag_loaded[of ?s1] by (simp add: interlock_start_def)
  moreover have "interlock_step ?s2 (BeatStored 3002) ?s3" by (rule beat_stored) (simp add: interlock_start_def)
  moreover have "interlock_step ?s3 BeatCleared ?s4" by (rule beat_cleared) simp
  moreover have "interlock_step ?s4 Tripped ?s5" by (rule tripped) simp
  moreover have "interlock_step ?s5 (LastLoaded 3003) ?s5" using last_loaded[of ?s5 3003] by simp
  ultimately have "run interlock_step ?s0
      [LastLoaded 3001, FlagLoaded, BeatStored 3002, BeatCleared, Tripped, LastLoaded 3003] ?s5"
    by - ((rule run_step, assumption)+, rule run_refl)
  then show ?thesis by (intro exI[of _ ?s5] conjI) simp_all
qed

subsection \<open>The alert dispatcher\<close>

datatype alert = IngestRateLow int | IngestRateFlood int | DbUnreachable string

text \<open>\<open>send\<close>: \<open>ok a i\<close> is whether the \<open>i\<close>-th attempt is answered in time with a good status; the result is
  the attempts made.\<close>

function send :: "(alert \<Rightarrow> nat \<Rightarrow> bool) \<Rightarrow> alert \<Rightarrow> nat \<Rightarrow> (alert \<times> nat) list" where
  "send ok body attempt = (body, attempt) # (if \<not> ok body attempt \<and> attempt < 3 then send ok body (attempt + 1) else [])"
  by pat_completeness auto
termination by (relation "measure (\<lambda>(ok, body, attempt). 3 - attempt)") auto

declare send.simps [simp del]

text \<open>\<open>poll\<close>: the count of the rows of the last minute, or the error of the database.\<close>

definition poll_alerts :: "string + int \<Rightarrow> alert list" where
  "poll_alerts r = (case r of Inl e \<Rightarrow> [DbUnreachable e]
     | Inr n \<Rightarrow> (if n < 1000 then [IngestRateLow n] else []) @ (if n > 150000 then [IngestRateFlood n] else []))"

definition poll_posts :: "(alert \<Rightarrow> nat \<Rightarrow> bool) \<Rightarrow> string + int \<Rightarrow> (alert \<times> nat) list" where
  "poll_posts ok r = concat (map (\<lambda>a. send ok a 1) (poll_alerts r))"

lemma send_1:
  "send ok a 1 = (a, 1) # (if ok a 1 then [] else (a, 2) # (if ok a 2 then [] else [(a, 3)]))"
proof -
  have n: "(1::nat) + 1 = 2" "(2::nat) + 1 = 3" "(1::nat) < 3" "(2::nat) < 3" "\<not> (3::nat) < 3" by simp_all
  show ?thesis
    using send.simps[of ok a 1] send.simps[of ok a 2] send.simps[of ok a 3] unfolding n by (auto simp: n)
qed

text \<open>
  The retries: a poll raises at most one alert, exactly when the rate is out of its range or the database
  fails, and makes at most three requests for it, the last of which is the first that succeeds; while the
  notifier is down every alert is sent three times.
\<close>

theorem poll_amplification:
  "length (poll_alerts r) \<le> 1 \<and> (poll_alerts r = [] \<longleftrightarrow> (\<exists>n. r = Inr n \<and> 1000 \<le> n \<and> n \<le> 150000)) \<and>
   length (poll_posts ok r) \<le> 3 \<and> (\<forall>(a, i) \<in> set (butlast (poll_posts ok r)). \<not> ok a i) \<and>
   ((\<forall>a i. \<not> ok a i) \<longrightarrow> length (poll_posts ok r) = 3 * length (poll_alerts r))"
  by (cases r) (auto simp: poll_alerts_def poll_posts_def send_1[unfolded One_nat_def])

theorem poll_amplification_witness:
  "length (poll_posts (\<lambda>a i. False) (Inl ''timeout'')) = 3"
proof -
  have n: "\<forall>a i. \<not> (\<lambda>(a::alert) (i::nat). False) a i" by simp
  have "length (poll_alerts (Inl ''timeout'')) = 1" by (simp add: poll_alerts_def)
  then show ?thesis using poll_amplification[of "Inl ''timeout''" "\<lambda>a i. False"] n by simp
qed

end
