(* ===== verification/Spec2Isabelle.thy ===== *)
theory Spec2Isabelle
  imports Cluster Columns Settings Jobs Plant
begin

text \<open>
  A verification development for the AIOps correlation engine of this repository.

  \<^bold>\<open>The program.\<close>  Every ten seconds the service \<open>src/correlation/service.py\<close> fetches signal vectors and
  events from the aggregator, resamples them onto one time grid and runs one pass of the engine
  (\<open>src/correlation/engine\<close>): \<open>detectors.py\<close> finds onsets with a two-sided CUSUM, \<open>lagcorr.py\<close> the
  direction and the lag of the strongest lagged correlation of two windows, \<open>gate.py\<close> accepts an edge on
  three kinds of evidence, \<open>ranking.py\<close> ranks root causes and predicts victims on the accepted graph, and
  \<open>pipeline.py\<close> composes them into \<open>run_pass\<close>.  \<open>state.py\<close> remembers passes in a SQLite file: edges with a
  confidence, steady-state baselines, a library of cases; it renders the graph of a pass against this
  memory.  The gateway \<open>src/api/main.py\<close> normalises the published graph and tells it as a sentence.  The
  aggregator \<open>src/aggregator/main.go\<close> scrapes Prometheus with a pack of queries into a ring of samples and
  serves it.  The programs under \<open>src/workloads\<close> generate the load that is observed.

  \<^bold>\<open>The theories.\<close>
  \<^item> \<open>Prelude\<close>: errors as values (\<open>res\<close>), dictionaries as association lists in insertion order, slices,
    \<open>max\<close>/\<open>min\<close> with a key, Python's rounding.  \<open>Text\<close>: decimal numbers and \<open>join\<close>.  \<open>Machine\<close>: runs of labelled step relations, and the
    locales of an invariant (\<open>invariant_machine\<close>) and of a preserved relation (\<open>monotone_machine\<close>), which
    every component with state interprets on its own step relation.
  \<^item> \<open>Numlib\<close>, \<open>Digraph\<close>: the interfaces to numpy/scipy and to networkx as records of operations, with
    their documented behaviour as the locales \<open>stats_api\<close> and \<open>digraph_api\<close>, interpreted on reference
    implementations that compute.
  \<^item> \<open>Detectors\<close>, \<open>Lagcorr\<close>, \<open>Gate\<close>: the files of the same names.  \<open>Impact\<close> and \<open>Ranking\<close>: \<open>ranking.py\<close>
    (the forward walk; ranking and blast radius).  \<open>Source\<close>: \<open>_writer_edge\<close> and the de-duplication of
    \<open>pipeline.py\<close>.  \<open>Pipeline\<close>: \<open>run_pass\<close>, one definition per stage.
  \<^item> \<open>Names\<close>: \<open>stable_workload\<close>.  \<open>EdgeMemory\<close>: the table \<open>edge_memory\<close> and \<open>_seed_structural\<close>,
    \<open>_confirm_edge\<close>, \<open>_decay_absent_edges\<close>.  \<open>Baselines\<close>: \<open>update_baselines\<close>, \<open>baseline_threshold\<close>.
    \<open>Render\<close>: \<open>_render\<close>, \<open>bootstrap_graph\<close>.  \<open>Cases\<close>: \<open>_promote_case\<close> and the tables \<open>cases\<close> and
    \<open>case_observations\<close>.  \<open>Memory\<close>: the class \<open>GraphMemory\<close> as a whole: \<open>observe\<close>, \<open>_migrate\<close>, \<open>stats\<close>,
    and its life as the relation \<open>mem_step\<close> (passes, recorded mistakes, restarts).  \<open>Json\<close>: \<open>_json\<close> and
    \<open>_load_json\<close>, \<open>json.dumps\<close> and \<open>json.loads\<close> included, as a writer and a parser of text.  \<open>Columns\<close>: the text
    columns of a case and \<open>_case_sim\<close> on them.
  \<^item> \<open>Inputs\<close>: \<open>build_inputs\<close> of \<open>service.py\<close>.  \<open>Service\<close>: one iteration of \<open>loop\<close> (\<open>loop_body\<close>), the
    published graph, and \<open>do_GET\<close>.  \<open>Api\<close>: the endpoints of the gateway, its narrative and the cache of it.
    \<open>Settings\<close>: what the processes and the workloads read from their environment.
  \<^item> \<open>Pack\<close>: \<open>loadPack\<close> and \<open>thresholdFor\<close> of the aggregator.  \<open>Aggregator\<close>: \<open>Ring.Add\<close>, \<open>zscore\<close>,
    \<open>promQuery\<close>, \<open>evalEvents\<close>, the tick of the polling loop and its atomic steps (\<open>agg_step\<close>), the two
    documents.  \<open>Stamps\<close>: the time stamps, as Go writes them (its calendar, RFC 3339) and as \<open>_epoch\<close> reads
    them (\<open>datetime\<close>'s calendar).  \<open>Feed\<close>: what \<open>build_inputs\<close> reads of the documents.  \<open>Cluster\<close>: aggregator, engine and gateway as
    one step relation, with lost fetches and restarts of the processes.
  \<^item> \<open>Workloads\<close>: the ingest queue and its writer, the frame cache, the trigger of the storm, the connection
    loops, the burst of the batch.  \<open>Jobs\<close>: the same programs with what they print, write and start: an
    iteration of \<open>cooling-monitor\<close>, \<open>analytics-batch\<close> as a whole, the frames of \<open>vision-qc\<close> in 8 and 16 bits.
    \<open>Plant\<close>: the safety interlock and the retries of the alert dispatcher.

  \<^bold>\<open>What the lemmas show.\<close>
  \<^item> A pass returns on well-formed input; it is silent while nothing leaves its band; its edges are sound,
    its findings exact, its attribution that of the reported graph.  The gate accepts exactly
    the three clauses of its header with a positive peak, which is narrower than \<open>|r|\<close>, and narrower than
    \<open>MASTER_PLAN.md\<close> 1.4.4, where PSI alone is a witness.  The onsets are exactly the alarms of the detector, walked back;
    the directed correlation is the stronger of the two lagged profiles at its first peak; the forward walk
    and the source rule meet their specifications; ranking and blast radius terminate.
  \<^item> Memory: invariants of each table over every run, closed forms of confidence, the agreement of gate and
    learner, faithfulness of the rendered graph, soundness of the case library, recognition of incidents
    across restarts of pods, exact statistics, permanence of the archive across restarts of the service and upgrades.  What
    \<open>_json\<close> writes \<open>_load_json\<close> reads, so the similarity of the text columns is that of the values, which the
    other theories use.
  \<^item> Service: the inputs are exactly those of the document, on one grid; a complete payload is always answered with the
    findings and edges of its pass, after any history; an outage leaves the memory alone; a young engine
    accuses nobody, from the boot on a new file on.  Gateway: whatever the engine publishes is narrated
    without an error, provenance of every narrative, exact pod list.
  \<^item> Aggregator: the ring is the sliding window of the accepted samples and the events are the breaches, over
    every interleaving; a tick is a run of the steps; a printed pack loads as it was.  Cluster: the engine
    correlates the last samples of each pod, to the microsecond, whose series has twelve of them, of one
    namespace only; and over every interleaving with losses and restarts it publishes no exception of its own
    and the gateway narrates what it publishes.
  \<^item> Workloads: the ingest accepts the messages that decode while its queue has room and keeps their order,
    storms are triggered, an iteration of the cooling monitor
    refines the model of its trigger, the batch ends when the clock says so, the leak reaches the limit of the
    container at a known frame and the pixel arithmetic does not wrap.  Plant: when the
    interlock trips, over every interleaving of its loads and stores, and the retries.
  \<^item> Some theorems exhibit behaviour that departs from a comment or a document, or that is a defect: a
    remembered edge without correlation moves the blame, an engine error reads as a steady state, a
    database error loses a batch, the hide threshold cannot fire, a negative window makes the aggregator
    panic, a heartbeat is lost between the load and the store of the interlock, one of two pods with the same
    name in two namespaces is not seen.  The manifest lists them as findings.

  \<^bold>\<open>Idealisations.\<close>  A \<open>float\<close> is a real, so rounding errors are not modelled, while every \<open>round\<close> of the
  source is.  Loops over a frontier are \<open>partial_function (option)\<close> with proofs that they return, the scan of
  the grid is a \<open>function\<close> with its measure; no fuel is used.  SQL tables are lists in row order, and the
  JSON columns of a case hold the encoded values there, which \<open>Columns\<close> justifies; strings are lists of 8-bit
  characters, and the interpreter's limits on the nesting of JSON and on the digits of an integer are left out.
  Arguments of the model are: the clock, the texts and the parser of floats, \<open>fromisoformat\<close> on formats that the
  aggregator does not write, the order in which a Python set is iterated, the answers of HTTP calls and of
  the language model, and the SHA-1 digest, which is assumed injective on the keys that occur where a
  theorem says so.

  \<^bold>\<open>Not modelled.\<close>  Sockets and the threads of the HTTP servers; the time stamp (\<open>pass_stamp\<close>) and the database
  path under \<open>meta\<close> of a published graph, the time stamp of an event, and the wording of the prompt for the language model; the
  fio process, the database behind the query of the roll-up, and metrics;
  the PLC simulator, the control relay, the DCIM bridge and the notifier, which only generate load; the
  dashboard, which only presents, and the deployment scripts.
\<close>

end
